(* ===== verification/Prelude.thy ===== *)
theory Prelude
  imports Main "HOL-Library.Word"
begin

text \<open>
  Shared vocabulary of the development: the machine types of the C++ sources, the faults a run
  can end in, sequencing of fallible computations, and the little-endian layout of integers in
  memory (the sources copy structs to and from disk blocks byte by byte on an x86 host).

  A \<open>fault\<close> stands for behaviour the sources do not define, a failed \<open>VERIFY\<close> or an exception that nobody catches: a model of an
  operation returns \<open>Inl f\<close> exactly where the code would run into it, so that a theorem with
  an \<open>Inr\<close> result also says that the code stays clear of it.
\<close>

unbundle bit_operations_syntax

type_synonym byte = "8 word"
type_synonym u16 = "16 word"
type_synonym u32 = "32 word"
type_synonym u64 = "64 word"

named_theorems layout_simps \<open>sizes and constants of the on-disk and on-wire layouts\<close>
named_theorems fault_simps \<open>sequencing of fallible steps\<close>

section \<open>Faults and sequencing\<close>

datatype fault =
    UninitRead        \<comment> \<open>a local buffer is read before anything was stored in it\<close>
  | OutOfBounds       \<comment> \<open>an array is read or written outside its allocation\<close>
  | SignedOverflow    \<comment> \<open>an \<open>int\<close> computation leaves the range of \<open>int\<close>\<close>
  | NullDeref         \<comment> \<open>a null pointer is dereferenced\<close>
  | VerifyFailed      \<comment> \<open>\<open>VERIFY\<close> aborts the process\<close>
  | LengthError       \<comment> \<open>\<open>std::length_error\<close> of a string constructor\<close>

type_synonym 'a res = "fault + 'a"

definition bindE :: "'a res \<Rightarrow> ('a \<Rightarrow> 'b res) \<Rightarrow> 'b res" where
  "bindE m f = (case m of Inl e \<Rightarrow> Inl e | Inr x \<Rightarrow> f x)"

lemma bindE_Inr [simp]: "bindE (Inr x) f = f x"
  by (simp add: bindE_def)

lemma bindE_Inl [simp]: "bindE (Inl e) f = Inl e"
  by (simp add: bindE_def)

lemma bindE_eq_Inr [fault_simps]: "bindE m f = Inr y \<longleftrightarrow> (\<exists>x. m = Inr x \<and> f x = Inr y)"
  by (cases m) auto

lemma bindE_cong [fundef_cong]:
  "m = m' \<Longrightarrow> (\<And>x. m' = Inr x \<Longrightarrow> f x = f' x) \<Longrightarrow> bindE m f = bindE m' f'"
  by (cases m') auto

text \<open>\<open>VERIFY(expr)\<close> of \<open>lang/verify.h\<close>: a failed check ends the process.\<close>

definition VERIFY :: "bool \<Rightarrow> unit res" where
  "VERIFY b = (if b then Inr () else Inl VerifyFailed)"

lemma VERIFY_True [simp]: "VERIFY True = Inr ()"
  and VERIFY_False [simp]: "VERIFY False = Inl VerifyFailed"
  by (simp_all add: VERIFY_def)

section \<open>32-bit values as numbers\<close>

lemma unat_u32_bound: "unat (w :: u32) < 4294967296"
proof -
  have "unat w < 2 ^ LENGTH(32)"
    by (rule unsigned_less)
  then show ?thesis by simp
qed

lemma unat_of_nat_u32: "n < 4294967296 \<Longrightarrow> unat (of_nat n :: u32) = n"
  by (simp add: unat_of_nat)

lemma sint_small_u32:
  assumes "unat (w :: u32) < 2 ^ 31"
  shows "sint w = int (unat w)"
proof -
  have "sint w = signed_take_bit 31 (uint w)"
    by (simp add: sint_uint)
  moreover have "uint w = int (unat w)"
    by simp
  moreover have "signed_take_bit 31 (int (unat w)) = int (unat w)"
  proof (rule signed_take_bit_int_eq_self)
    show "- (2 ^ 31) \<le> int (unat w)"
      by (rule order_trans [OF _ of_nat_0_le_iff]) simp
    show "int (unat w) < 2 ^ 31"
      using assms by (metis of_nat_less_iff of_nat_numeral of_nat_power)
  qed
  ultimately show ?thesis
    by (simp only:)
qed

lemma u32_eq_iff: "(v :: u32) = w \<longleftrightarrow> unat v = unat w"
  by (simp add: word_unat_eq_iff)

section \<open>Little-endian integers in memory\<close>

definition le16 :: "u16 \<Rightarrow> byte list" where
  "le16 w = [ucast w, ucast (drop_bit 8 w)]"

definition le32 :: "u32 \<Rightarrow> byte list" where
  "le32 w = [ucast w, ucast (drop_bit 8 w), ucast (drop_bit 16 w), ucast (drop_bit 24 w)]"

definition of_le16 :: "byte list \<Rightarrow> u16" where
  "of_le16 bs = ucast (bs ! 0) OR push_bit 8 (ucast (bs ! 1))"

definition of_le32 :: "byte list \<Rightarrow> u32" where
  "of_le32 bs = ucast (bs ! 0) OR push_bit 8 (ucast (bs ! 1)) OR
     push_bit 16 (ucast (bs ! 2)) OR push_bit 24 (ucast (bs ! 3))"

lemma length_le16 [simp, layout_simps]: "length (le16 w) = 2"
  by (simp add: le16_def)

lemma length_le32 [simp, layout_simps]: "length (le32 w) = 4"
  by (simp add: le32_def)

lemma of_le16_le16 [simp]: "of_le16 (le16 w) = w"
  by (rule bit_eqI) (auto simp: of_le16_def le16_def bit_simps)

lemma of_le32_le32 [simp]: "of_le32 (le32 w) = w"
proof (rule bit_word_eqI)
  fix n
  assume "n < LENGTH(32)"
  then consider "n < 8" | "8 \<le> n" "n < 16" | "16 \<le> n" "n < 24" | "24 \<le> n" "n < 32"
    by fastforce
  then show "bit (of_le32 (le32 w)) n = bit w n"
    by cases (auto simp: of_le32_def le32_def bit_simps)
qed

text \<open>An array of \<open>uint32_t\<close> seen as bytes and back.\<close>

definition bytes_of_u32s :: "u32 list \<Rightarrow> byte list" where
  "bytes_of_u32s ws = concat (map le32 ws)"

definition u32s_of_bytes :: "nat \<Rightarrow> byte list \<Rightarrow> u32 list" where
  "u32s_of_bytes n bs = map (\<lambda>k. of_le32 (take 4 (drop (4 * k) bs))) [0..<n]"

lemma length_bytes_of_u32s [simp]: "length (bytes_of_u32s ws) = 4 * length ws"
  by (induction ws) (simp_all add: bytes_of_u32s_def)

lemma length_u32s_of_bytes [simp]: "length (u32s_of_bytes n bs) = n"
  by (simp add: u32s_of_bytes_def)

lemma take_drop_u32s:
  "k < length ws \<Longrightarrow> take 4 (drop (4 * k) (bytes_of_u32s ws @ rest)) = le32 (ws ! k)"
proof (induction ws arbitrary: k)
  case (Cons w ws)
  then show ?case
    by (cases k) (simp_all add: bytes_of_u32s_def)
qed simp

lemma u32s_of_bytes_of_u32s [simp]:
  "n = length ws \<Longrightarrow> u32s_of_bytes n (bytes_of_u32s ws @ rest) = ws"
  by (rule nth_equalityI)
     (simp_all add: u32s_of_bytes_def take_drop_u32s del: drop_append take_append)

lemma u32s_of_bytes_exact [simp]: "n = length ws \<Longrightarrow> u32s_of_bytes n (bytes_of_u32s ws) = ws"
  using u32s_of_bytes_of_u32s [of n ws "[]"] by simp

section \<open>Reading a range of an array\<close>

lemma map_nth_offset:
  assumes "b - a \<le> length xs"
  shows "map (\<lambda>i. xs ! (i - a)) [a..<b] = take (b - a) xs"
  using assms by (intro nth_equalityI) simp_all

lemma map_nth_prefix: "n \<le> length xs \<Longrightarrow> map ((!) xs) [0..<n] = take n xs"
  using map_nth_offset [of n 0 xs] by simp

section \<open>Overwriting a slice of an array\<close>

definition splice :: "nat \<Rightarrow> 'a list \<Rightarrow> 'a list \<Rightarrow> 'a list" where
  "splice off bs xs = take off xs @ bs @ drop (off + length bs) xs"

lemma length_splice [simp]: "off + length bs \<le> length xs \<Longrightarrow> length (splice off bs xs) = length xs"
  by (simp add: splice_def)

lemma slice_splice_same:
  "off + length bs \<le> length xs \<Longrightarrow> n = length bs \<Longrightarrow> take n (drop off (splice off bs xs)) = bs"
  by (simp add: splice_def)

lemma nth_splice_other:
  "off + length bs \<le> length xs \<Longrightarrow> i < length xs \<Longrightarrow> i < off \<or> off + length bs \<le> i \<Longrightarrow>
     splice off bs xs ! i = xs ! i"
  by (auto simp: splice_def nth_append min_def)

lemma slice_splice_other:
  assumes "off + length bs \<le> length xs" "off' + n \<le> length xs"
    "off' + n \<le> off \<or> off + length bs \<le> off'"
  shows "take n (drop off' (splice off bs xs)) = take n (drop off' xs)"
  using assms by (intro nth_equalityI) (auto intro!: nth_splice_other)

end
