(* ===== verification/Bitmap.thy ===== *)
theory Bitmap
  imports Prelude
begin

text \<open>
  Class \<open>Bitmap\<close> of \<open>inode_manager.h\<close> and \<open>inode_manager.cc\<close>: a byte array with one bit per
  block. The abstract view of a bitmap is the set of bit numbers that are set (\<open>marked\<close>); each
  operation is shown to act on that set, and \<open>find\<close> to return its least non-member. What an
  allocator needs of such a set is stated once, in the locale \<open>mark_set\<close>, and interpreted here.
\<close>

record bitmap =
  bmap :: "byte list"
  numBits :: u32
  numChar :: u32

definition Bitmap_empty :: bitmap where
  "Bitmap_empty = \<lparr>bmap = [], numBits = 0, numChar = 0\<rparr>"

definition Bitmap_new :: "u32 \<Rightarrow> bitmap" where
  "Bitmap_new nBits =
     (let nc = (nBits + 7) div 8
      in \<lparr>bmap = replicate (unat nc) 0, numBits = nBits, numChar = nc\<rparr>)"

definition bit_mask :: "u32 \<Rightarrow> byte" where
  "bit_mask which = push_bit (unat (which mod 8)) 1"

definition Bitmap_mark :: "bitmap \<Rightarrow> u32 \<Rightarrow> bitmap" where
  "Bitmap_mark b which =
     (if which \<ge> numBits b then b
      else let i = unat (which div 8)
           in b\<lparr>bmap := (bmap b)[i := bmap b ! i OR bit_mask which]\<rparr>)"

definition Bitmap_clear :: "bitmap \<Rightarrow> u32 \<Rightarrow> bitmap" where
  "Bitmap_clear b which =
     (if which \<ge> numBits b then b
      else let i = unat (which div 8)
           in b\<lparr>bmap := (bmap b)[i := bmap b ! i AND NOT (bit_mask which)]\<rparr>)"

definition Bitmap_test :: "bitmap \<Rightarrow> u32 \<Rightarrow> bool" where
  "Bitmap_test b which =
     (if which \<ge> numBits b then False
      else bmap b ! unat (which div 8) AND bit_mask which \<noteq> 0)"

text \<open>The two nested loops of \<open>Bitmap::find\<close>: \<open>find_j\<close> is the inner one over the bits of a byte,
  \<open>find_i\<close> the outer one over the bytes; \<open>None\<close> is running off the end of the loop.\<close>

definition find_j :: "byte \<Rightarrow> nat option" where
  "find_j c = List.find (\<lambda>j. c AND push_bit j 1 = 0) [0..<8]"

primrec find_i :: "byte list \<Rightarrow> nat \<Rightarrow> nat option" where
  "find_i [] i = None"
| "find_i (c # cs) i = (case find_j c of Some j \<Rightarrow> Some (i * 8 + j) | None \<Rightarrow> find_i cs (Suc i))"

definition Bitmap_find :: "bitmap \<Rightarrow> u32" where
  "Bitmap_find b =
     (case find_i (take (unat (numChar b)) (bmap b)) 0 of
        Some k \<Rightarrow> if k < unat (numBits b) then of_nat k else 0
      | None \<Rightarrow> 0)"

section \<open>The set of marked bits\<close>

definition bitmap_inv :: "bitmap \<Rightarrow> bool" where
  "bitmap_inv b \<longleftrightarrow> length (bmap b) = unat (numChar b) \<and> unat (numBits b) \<le> 8 * unat (numChar b)"

definition bit_at :: "byte list \<Rightarrow> nat \<Rightarrow> bool" where
  "bit_at cs k \<longleftrightarrow> bit (cs ! (k div 8)) (k mod 8)"

definition marked :: "bitmap \<Rightarrow> nat set" where
  "marked b = {k. k < unat (numBits b) \<and> bit_at (bmap b) k}"

definition nbits :: "bitmap \<Rightarrow> nat" where
  "nbits b = unat (numBits b)"

lemma unat_div8: "unat (w div 8 :: u32) = unat w div 8"
  by (simp add: unat_div)

lemma unat_mod8: "unat (w mod 8 :: u32) = unat w mod 8"
  by (simp add: unat_mod)

lemma and_bit_eq_0: "c AND push_bit j 1 = 0 \<longleftrightarrow> \<not> bit c j" if "j < 8" for c :: byte
proof -
  have "bit (c AND push_bit j 1) n \<longleftrightarrow> n = j \<and> bit c j" for n
    using that by (auto simp: bit_simps)
  then show ?thesis
    by (metis bit_0_eq bit_eqI bot_apply bot_bool_def)
qed

lemma and_power_eq_0: "c AND 2 ^ j = 0 \<longleftrightarrow> \<not> bit c j" if "j < 8" for c :: byte
  using and_bit_eq_0 [OF that, of c] by (simp add: push_bit_eq_mult)

lemma bit_mask_bit: "bit (bit_mask w) n \<longleftrightarrow> n = unat w mod 8"
proof -
  have "unat w mod 8 < 8"
    by simp
  then show ?thesis
    by (auto simp: bit_mask_def unat_mod8 bit_simps simp del: mod_less_divisor)
qed

lemma and_mask_eq_0: "c AND bit_mask w \<noteq> 0 \<longleftrightarrow> bit c (unat w mod 8)"
  by (simp add: bit_mask_def unat_mod8 and_power_eq_0)

lemma test_iff_marked: "Bitmap_test b w \<longleftrightarrow> unat w \<in> marked b"
  by (auto simp: Bitmap_test_def marked_def bit_at_def and_mask_eq_0 unat_div8
      word_le_nat_alt not_le)

lemma marked_bound: "marked b \<subseteq> {..<nbits b}"
  by (auto simp: marked_def nbits_def)

lemma numBits_mark [simp]: "numBits (Bitmap_mark b w) = numBits b"
  and numChar_mark [simp]: "numChar (Bitmap_mark b w) = numChar b"
  and length_mark [simp]: "length (bmap (Bitmap_mark b w)) = length (bmap b)"
  by (simp_all add: Bitmap_mark_def Let_def)

lemma numBits_clear [simp]: "numBits (Bitmap_clear b w) = numBits b"
  and numChar_clear [simp]: "numChar (Bitmap_clear b w) = numChar b"
  and length_clear [simp]: "length (bmap (Bitmap_clear b w)) = length (bmap b)"
  by (simp_all add: Bitmap_clear_def Let_def)

lemma nbits_mark [simp]: "nbits (Bitmap_mark b w) = nbits b"
  and nbits_clear [simp]: "nbits (Bitmap_clear b w) = nbits b"
  by (simp_all add: nbits_def)

lemma inv_mark [simp]: "bitmap_inv (Bitmap_mark b w) = bitmap_inv b"
  and inv_clear [simp]: "bitmap_inv (Bitmap_clear b w) = bitmap_inv b"
  by (simp_all add: bitmap_inv_def)

text \<open>Two bit numbers are equal when they agree on the byte and on the bit within the byte.\<close>

lemma bit_index_eq: "(k::nat) = m \<longleftrightarrow> k div 8 = m div 8 \<and> k mod 8 = m mod 8"
  by (metis div_mult_mod_eq)

lemma bit_at_mark:
  assumes "bitmap_inv b" "unat w < unat (numBits b)" "k < unat (numBits b)"
  shows "bit_at (bmap (Bitmap_mark b w)) k \<longleftrightarrow> k = unat w \<or> bit_at (bmap b) k"
proof -
  have "unat w div 8 < length (bmap b)"
    using assms by (auto simp: bitmap_inv_def)
  then show ?thesis
    using assms(2)
    by (auto simp: Bitmap_mark_def bit_at_def Let_def unat_div8 nth_list_update bit_simps
        bit_mask_bit word_le_nat_alt bit_index_eq [of k])
qed

lemma bit_at_clear:
  assumes "bitmap_inv b" "unat w < unat (numBits b)" "k < unat (numBits b)"
  shows "bit_at (bmap (Bitmap_clear b w)) k \<longleftrightarrow> k \<noteq> unat w \<and> bit_at (bmap b) k"
proof -
  have "unat w div 8 < length (bmap b)" "k mod 8 < 8"
    using assms by (auto simp: bitmap_inv_def)
  then show ?thesis
    using assms(2)
    by (auto simp: Bitmap_clear_def bit_at_def Let_def unat_div8 nth_list_update bit_simps
        bit_mask_bit word_le_nat_alt bit_index_eq [of k])
qed

lemma marked_mark:
  assumes "bitmap_inv b" "unat w < nbits b"
  shows "marked (Bitmap_mark b w) = insert (unat w) (marked b)"
  using assms bit_at_mark [OF assms(1)] by (auto simp: marked_def nbits_def)

lemma marked_clear:
  assumes "bitmap_inv b"
  shows "marked (Bitmap_clear b w) = marked b - {unat w}"
proof (cases "unat w < nbits b")
  case True
  then show ?thesis
    using assms bit_at_clear [OF assms] by (auto simp: marked_def nbits_def)
next
  case False
  then have "Bitmap_clear b w = b"
    by (simp add: Bitmap_clear_def nbits_def word_le_nat_alt)
  with False show ?thesis
    using marked_bound [of b] by auto
qed

section \<open>The first clear bit\<close>

lemma find_Some_upt:
  "List.find P [0..<n] = Some j \<longleftrightarrow> j < n \<and> P j \<and> (\<forall>i<j. \<not> P i)"
  by (auto simp: find_Some_iff intro!: exI [of _ j])

lemma find_j_Some: "find_j c = Some j \<longleftrightarrow> j < 8 \<and> \<not> bit c j \<and> (\<forall>i<j. bit c i)"
  unfolding find_j_def find_Some_upt
  by (rule conj_cong [OF refl]) (auto simp: and_power_eq_0)

lemma find_j_None: "find_j c = None \<longleftrightarrow> (\<forall>j<8. bit c j)"
  by (auto simp: find_j_def find_None_iff and_power_eq_0)

lemma bit_at_Cons_low: "k < 8 \<Longrightarrow> bit_at (c # cs) k = bit c k"
  by (simp add: bit_at_def)

lemma bit_at_Cons_high: "bit_at (c # cs) (k + 8) = bit_at cs k"
  by (simp add: bit_at_def div_add_self2)

lemma find_i_None: "find_i cs i = None \<Longrightarrow> k < 8 * length cs \<Longrightarrow> bit_at cs k"
proof (induction cs arbitrary: i k)
  case (Cons c cs)
  then have c: "find_j c = None" and rest: "find_i cs (Suc i) = None"
    by (simp_all split: option.splits)
  show ?case
  proof (cases "k < 8")
    case True
    with c show ?thesis by (simp add: find_j_None bit_at_Cons_low)
  next
    case False
    with Cons.prems Cons.IH [OF rest, of "k - 8"] show ?thesis
      using bit_at_Cons_high [of c cs "k - 8"] by simp
  qed
qed simp

lemma find_i_Some:
  "find_i cs i = Some m \<Longrightarrow>
     \<exists>k. m = 8 * i + k \<and> k < 8 * length cs \<and> \<not> bit_at cs k \<and> (\<forall>k'<k. bit_at cs k')"
proof (induction cs arbitrary: i)
  case (Cons c cs)
  show ?case
  proof (cases "find_j c")
    case None
    with Cons.prems have "find_i cs (Suc i) = Some m" by simp
    then obtain k where k: "m = 8 * Suc i + k" "k < 8 * length cs" "\<not> bit_at cs k"
      "\<forall>k'<k. bit_at cs k'"
      using Cons.IH by blast
    have "bit_at (c # cs) k'" if "k' < k + 8" for k'
    proof (cases "k' < 8")
      case True
      with None show ?thesis by (simp add: find_j_None bit_at_Cons_low)
    next
      case False
      with that k(4) show ?thesis
        using bit_at_Cons_high [of c cs "k' - 8"] by simp
    qed
    with k show ?thesis
      by (intro exI [of _ "k + 8"]) (simp add: bit_at_Cons_high)
  next
    case (Some j)
    with Cons.prems show ?thesis
      by (auto simp: find_j_Some bit_at_Cons_low intro!: exI [of _ j])
  qed
qed simp

lemma find_free:
  assumes inv: "bitmap_inv b" and free: "i < nbits b" "i \<notin> marked b"
  shows "unat (Bitmap_find b) < nbits b" "unat (Bitmap_find b) \<notin> marked b"
    "k < unat (Bitmap_find b) \<Longrightarrow> k \<in> marked b"
proof -
  let ?cs = "bmap b"
  have take: "take (unat (numChar b)) ?cs = ?cs"
    using inv by (simp add: bitmap_inv_def)
  have i: "i < 8 * length ?cs" "\<not> bit_at ?cs i"
    using inv free by (auto simp: bitmap_inv_def nbits_def marked_def)
  then obtain m where m: "find_i ?cs 0 = Some m"
    using find_i_None by (cases "find_i ?cs 0") auto
  from find_i_Some [OF m] have clear: "\<not> bit_at ?cs m" and below: "\<forall>k<m. bit_at ?cs k"
    by auto
  with i have "m \<le> i" by (metis not_le)
  with free(1) have "m < unat (numBits b)" by (simp add: nbits_def)
  moreover from this have "unat (of_nat m :: u32) = m"
    using unat_u32_bound [of "numBits b"] by (simp add: unat_of_nat_u32)
  ultimately have *: "unat (Bitmap_find b) = m"
    by (simp add: Bitmap_find_def take m)
  show "unat (Bitmap_find b) < nbits b" "unat (Bitmap_find b) \<notin> marked b"
    using * \<open>m < unat (numBits b)\<close> clear by (auto simp: nbits_def marked_def)
  show "k \<in> marked b" if "k < unat (Bitmap_find b)"
    using that * below \<open>m < unat (numBits b)\<close> by (auto simp: marked_def)
qed

lemma find_full:
  assumes "bitmap_inv b" and "{..<nbits b} \<subseteq> marked b"
  shows "Bitmap_find b = 0"
proof (cases "find_i (bmap b) 0")
  case (Some m)
  from find_i_Some [OF Some] have "\<not> bit_at (bmap b) m" by auto
  with assms(2) have "\<not> m < unat (numBits b)"
    by (auto simp: marked_def nbits_def)
  with Some assms(1) show ?thesis
    by (simp add: Bitmap_find_def bitmap_inv_def)
qed (use assms(1) in \<open>simp add: Bitmap_find_def bitmap_inv_def\<close>)

lemma bitmap_new_inv:
  assumes "unat nBits + 7 < 2 ^ 32"
  shows "bitmap_inv (Bitmap_new nBits)"
proof -
  have "unat (nBits + 7) = unat nBits + 7"
    using assms by (simp add: unat_word_ariths)
  then show ?thesis
    by (simp add: bitmap_inv_def Bitmap_new_def Let_def unat_div)
qed

lemma bitmap_new_marked:
  assumes "unat nBits + 7 < 2 ^ 32"
  shows "marked (Bitmap_new nBits) = {}"
proof -
  have "\<not> bit_at (replicate n 0) k" if "k < 8 * n" for n k
    using that by (auto simp: bit_at_def)
  then show ?thesis
    using bitmap_new_inv [OF assms]
    by (auto simp: marked_def bitmap_inv_def Bitmap_new_def Let_def)
qed

section \<open>What an allocator needs of a set of marks\<close>

text \<open>
  The interface between the bitmap and the block manager: \<open>view\<close> is the set of marked numbers,
  \<open>cap\<close> the number of bits. The lemmas of the block say what marking the first free number does;
  the block manager uses them through the interpretation below and never opens the bitmap.
\<close>

locale mark_set =
  fixes view :: "'b \<Rightarrow> nat set"
    and cap :: "'b \<Rightarrow> nat"
    and inv :: "'b \<Rightarrow> bool"
    and set_mark :: "'b \<Rightarrow> u32 \<Rightarrow> 'b"
    and unset_mark :: "'b \<Rightarrow> u32 \<Rightarrow> 'b"
    and first_free :: "'b \<Rightarrow> u32"
  assumes view_bound: "view b \<subseteq> {..<cap b}"
    and view_set: "inv b \<Longrightarrow> unat w < cap b \<Longrightarrow> view (set_mark b w) = insert (unat w) (view b)"
    and view_unset: "inv b \<Longrightarrow> view (unset_mark b w) = view b - {unat w}"
    and cap_set: "cap (set_mark b w) = cap b"
    and cap_unset: "cap (unset_mark b w) = cap b"
    and inv_set: "inv b \<Longrightarrow> inv (set_mark b w)"
    and inv_unset: "inv b \<Longrightarrow> inv (unset_mark b w)"
    and first_bound: "inv b \<Longrightarrow> i < cap b \<Longrightarrow> i \<notin> view b \<Longrightarrow> unat (first_free b) < cap b"
    and first_fresh: "inv b \<Longrightarrow> i < cap b \<Longrightarrow> i \<notin> view b \<Longrightarrow> unat (first_free b) \<notin> view b"
    and first_full: "inv b \<Longrightarrow> {..<cap b} \<subseteq> view b \<Longrightarrow> first_free b = 0"
begin

definition free_set :: "'b \<Rightarrow> nat set" where
  "free_set b = {..<cap b} - view b"

definition take_first :: "'b \<Rightarrow> u32 \<times> 'b" where
  "take_first b = (first_free b, set_mark b (first_free b))"

lemma free_set_finite [simp]: "finite (free_set b)"
  by (simp add: free_set_def)

lemma free_nonempty: "0 < card (free_set b) \<Longrightarrow> \<exists>i<cap b. i \<notin> view b"
  by (auto simp: free_set_def card_gt_0_iff)

lemma take_first_fresh:
  assumes "inv b" "0 < card (free_set b)" "take_first b = (w, b')"
  shows "unat w < cap b" "unat w \<notin> view b" "view b' = insert (unat w) (view b)"
    "cap b' = cap b" "inv b'" "card (free_set b') = card (free_set b) - 1"
proof -
  from free_nonempty [OF assms(2)] obtain i where "i < cap b" "i \<notin> view b" by blast
  with assms show w: "unat w < cap b" "unat w \<notin> view b"
    and v: "view b' = insert (unat w) (view b)" and c: "cap b' = cap b" and "inv b'"
    by (auto simp: take_first_def first_bound first_fresh view_set cap_set inv_set)
  have "free_set b' = free_set b - {unat w}"
    using v c by (auto simp: free_set_def)
  moreover have "unat w \<in> free_set b"
    using w by (simp add: free_set_def)
  ultimately show "card (free_set b') = card (free_set b) - 1"
    by simp
qed

lemma take_first_full:
  assumes "inv b" "card (free_set b) = 0" "0 \<in> view b" "take_first b = (w, b')"
  shows "w = 0" "view b' = view b" "inv b'"
proof -
  have "{..<cap b} \<subseteq> view b"
    using assms(2) by (simp add: free_set_def)
  with assms show "w = 0" and "inv b'"
    by (auto simp: take_first_def first_full inv_set)
  moreover have "0 < cap b"
    using assms(3) view_bound [of b] by auto
  ultimately show "view b' = view b"
    using assms view_set [OF assms(1), of 0] by (auto simp: take_first_def)
qed

lemma unset_mark_free:
  assumes "inv b" "unat w \<in> view b"
  shows "card (free_set (unset_mark b w)) = Suc (card (free_set b))"
proof -
  have "unat w < cap b"
    using assms(2) view_bound [of b] by auto
  then have "free_set (unset_mark b w) = insert (unat w) (free_set b)"
    using assms by (auto simp: free_set_def view_unset cap_unset)
  moreover have "unat w \<notin> free_set b"
    using assms(2) by (simp add: free_set_def)
  ultimately show ?thesis by simp
qed

end

interpretation bits: mark_set marked nbits bitmap_inv Bitmap_mark Bitmap_clear Bitmap_find
proof unfold_locales
  fix b :: bitmap and i
  assume "bitmap_inv b" "i < nbits b" "i \<notin> marked b"
  then show "unat (Bitmap_find b) < nbits b" "unat (Bitmap_find b) \<notin> marked b"
    by (rule find_free)+
qed (simp_all add: marked_bound marked_mark marked_clear find_full)

end
