(* ===== verification/Block_Layer.thy ===== *)
theory Block_Layer
  imports Bitmap
begin

text \<open>
  The disk and block layers of \<open>inode_manager.h\<close> and \<open>inode_manager.cc\<close>: the layout macros, class
  \<open>disk\<close> (an array of blocks) and class \<open>block_manager\<close> (the disk, the block bitmap and the super
  block). \<open>bm_inv\<close> is the invariant of the block manager; \<open>alloc_block\<close> is shown to hand out a
  data block that was free, or 0 when none is.
\<close>

section \<open>Layout\<close>

definition DISK_SIZE :: nat where "DISK_SIZE = 1024 * 1024 * 16"
definition BLOCK_SIZE :: nat where "BLOCK_SIZE = 512"
definition BLOCK_NUM :: nat where "BLOCK_NUM = DISK_SIZE div BLOCK_SIZE"
definition INODE_NUM :: nat where "INODE_NUM = 1024"
definition NDIRECT :: nat where "NDIRECT = 32"
definition sizeof_uint :: nat where "sizeof_uint = 4"

text \<open>\<open>sizeof(struct inode)\<close>: a \<open>short\<close> padded to four bytes, four \<open>unsigned int\<close> fields and
  \<open>NDIRECT+1\<close> block numbers.\<close>

definition sizeof_inode :: nat where
  "sizeof_inode = 4 + 4 * sizeof_uint + (NDIRECT + 1) * sizeof_uint"

definition IPB :: nat where "IPB = BLOCK_SIZE div sizeof_inode"
definition BPB :: nat where "BPB = BLOCK_SIZE * 8"
definition NINDIRECT :: nat where "NINDIRECT = BLOCK_SIZE div sizeof_uint"
definition MAXFILE :: nat where "MAXFILE = NDIRECT + NINDIRECT"

definition IBLOCK :: "u32 \<Rightarrow> u32 \<Rightarrow> u32" where
  "IBLOCK i nblocks = of_nat (unat nblocks div BPB + unat i div IPB + 3)"

lemma layout_values [layout_simps]:
  "BLOCK_SIZE = 512" "BLOCK_NUM = 32768" "INODE_NUM = 1024" "NDIRECT = 32" "sizeof_uint = 4"
  "sizeof_inode = 152" "IPB = 3" "BPB = 4096" "NINDIRECT = 128" "MAXFILE = 160"
  by (simp_all add: BLOCK_SIZE_def BLOCK_NUM_def DISK_SIZE_def INODE_NUM_def NDIRECT_def
      sizeof_uint_def sizeof_inode_def IPB_def BPB_def NINDIRECT_def MAXFILE_def)

section \<open>The disk\<close>

text \<open>What a \<open>char *buf\<close> argument that receives a block can be: a null pointer, an array nothing
  was stored in yet, or an array with known bytes.\<close>

datatype cbuf = NullBuf | Uninit | Filled "byte list"

record disk =
  blocks :: "nat \<Rightarrow> byte list"

definition disk_new :: disk where
  "disk_new = \<lparr>blocks = (\<lambda>_. replicate BLOCK_SIZE 0)\<rparr>"

definition disk_read_block :: "disk \<Rightarrow> u32 \<Rightarrow> cbuf \<Rightarrow> cbuf" where
  "disk_read_block d bid buf =
     (if unat bid \<ge> BLOCK_NUM \<or> buf = NullBuf then buf else Filled (blocks d (unat bid)))"

text \<open>The source of a write is a \<open>const char *\<close>: a null pointer or the memory behind it, of which
  \<open>memcpy\<close> reads \<open>BLOCK_SIZE\<close> bytes.\<close>

definition disk_write_block :: "disk \<Rightarrow> u32 \<Rightarrow> (nat \<Rightarrow> byte) option \<Rightarrow> disk" where
  "disk_write_block d bid buf =
     (case buf of
        None \<Rightarrow> d
      | Some p \<Rightarrow>
          if unat bid \<ge> BLOCK_NUM then d
          else d\<lparr>blocks := (blocks d)(unat bid := map p [0..<BLOCK_SIZE])\<rparr>)"

section \<open>The block manager\<close>

record superblock =
  sb_size :: u32
  sb_nblocks :: u32
  sb_ninodes :: u32

record block_manager =
  bm_disk :: disk
  block_bitmap :: bitmap
  sb :: superblock

definition alloc_block :: "block_manager \<Rightarrow> u32 \<times> block_manager" where
  "alloc_block bm =
     (let i = Bitmap_find (block_bitmap bm)
      in (i, bm\<lparr>block_bitmap := Bitmap_mark (block_bitmap bm) i\<rparr>))"

definition free_block :: "block_manager \<Rightarrow> u32 \<Rightarrow> block_manager" where
  "free_block bm bid = bm\<lparr>block_bitmap := Bitmap_clear (block_bitmap bm) bid\<rparr>"

definition read_block :: "block_manager \<Rightarrow> u32 \<Rightarrow> cbuf \<Rightarrow> cbuf" where
  "read_block bm bid buf = disk_read_block (bm_disk bm) bid buf"

definition write_block :: "block_manager \<Rightarrow> u32 \<Rightarrow> (nat \<Rightarrow> byte) option \<Rightarrow> block_manager" where
  "write_block bm bid buf = bm\<lparr>bm_disk := disk_write_block (bm_disk bm) bid buf\<rparr>"

text \<open>The constructor marks the boot sector, the super block, the blocks of the bitmap and those
  of the inode table, in the order of the source's two loops.\<close>

definition mark_all :: "nat list \<Rightarrow> bitmap \<Rightarrow> bitmap" where
  "mark_all is b = fold (\<lambda>i b. Bitmap_mark b (of_nat i)) is b"

definition block_manager_new :: block_manager where
  "block_manager_new =
     (let bitmap_blocks = (BLOCK_NUM + BPB - 1) div BPB;
          inode_blocks = (INODE_NUM + IPB - 1) div IPB;
          b0 = Bitmap_mark (Bitmap_mark (Bitmap_new (of_nat BLOCK_NUM)) 0) 1;
          b1 = mark_all (map (\<lambda>i. 2 + i) [0..<bitmap_blocks]) b0;
          b2 = mark_all (map (\<lambda>i. 2 + bitmap_blocks + i) [0..<Suc inode_blocks]) b1
      in \<lparr>bm_disk = disk_new, block_bitmap = b2,
          sb = \<lparr>sb_size = of_nat (BLOCK_SIZE * BLOCK_NUM), sb_nblocks = of_nat BLOCK_NUM,
                sb_ninodes = of_nat INODE_NUM\<rparr>\<rparr>)"

section \<open>The invariant of the block manager\<close>

text \<open>The first block the constructor leaves free: everything below is metadata.\<close>

definition DATA_START :: nat where "DATA_START = 353"

abbreviation used :: "block_manager \<Rightarrow> nat set" where
  "used bm \<equiv> marked (block_bitmap bm)"

abbreviation blk :: "block_manager \<Rightarrow> nat \<Rightarrow> byte list" where
  "blk bm \<equiv> blocks (bm_disk bm)"

definition free_count :: "block_manager \<Rightarrow> nat" where
  "free_count bm = card ({..<nbits (block_bitmap bm)} - used bm)"

definition bm_inv :: "block_manager \<Rightarrow> bool" where
  "bm_inv bm \<longleftrightarrow>
     bitmap_inv (block_bitmap bm) \<and> nbits (block_bitmap bm) = BLOCK_NUM \<and>
     {..<DATA_START} \<subseteq> used bm \<and> unat (sb_nblocks (sb bm)) = BLOCK_NUM \<and>
     (\<forall>i<BLOCK_NUM. length (blk bm i) = BLOCK_SIZE)"

lemma DATA_START_value [layout_simps]: "DATA_START = 353"
  by (simp add: DATA_START_def)

lemma free_count_bits: "free_count bm = card (bits.free_set (block_bitmap bm))"
  by (simp add: free_count_def bits.free_set_def)

lemma alloc_block_take:
  "alloc_block bm = (i, bm') \<longleftrightarrow>
     (\<exists>b. bits.take_first (block_bitmap bm) = (i, b) \<and> bm' = bm\<lparr>block_bitmap := b\<rparr>)"
  by (auto simp: alloc_block_def bits.take_first_def Let_def)

lemma alloc_block_fresh:
  assumes inv: "bm_inv bm" and free: "0 < free_count bm" and a: "alloc_block bm = (i, bm')"
  shows "bm_inv bm'" "DATA_START \<le> unat i" "unat i < BLOCK_NUM" "unat i \<notin> used bm"
    "used bm' = insert (unat i) (used bm)" "free_count bm' = free_count bm - 1"
    "bm_disk bm' = bm_disk bm" "sb bm' = sb bm"
proof -
  from a obtain b where t: "bits.take_first (block_bitmap bm) = (i, b)"
    and bm': "bm' = bm\<lparr>block_bitmap := b\<rparr>"
    unfolding alloc_block_take by blast
  note fresh = bits.take_first_fresh [OF _ _ t]
  have b: "bitmap_inv (block_bitmap bm)" "0 < card (bits.free_set (block_bitmap bm))"
    using inv free by (auto simp: bm_inv_def free_count_bits)
  show "unat i < BLOCK_NUM" "used bm' = insert (unat i) (used bm)"
    "free_count bm' = free_count bm - 1" "bm_disk bm' = bm_disk bm" "sb bm' = sb bm"
    using inv fresh [OF b] bm' by (simp_all add: bm_inv_def free_count_bits)
  show i: "unat i \<notin> used bm"
    by (rule fresh(2) [OF b])
  show "DATA_START \<le> unat i"
  proof (rule ccontr)
    assume "\<not> DATA_START \<le> unat i"
    then have "unat i \<in> {..<DATA_START}" by simp
    with inv i show False unfolding bm_inv_def by blast
  qed
  show "bm_inv bm'"
    using inv fresh [OF b] bm' by (auto simp: bm_inv_def)
qed

lemma alloc_block_full:
  assumes "bm_inv bm" "free_count bm = 0" "alloc_block bm = (i, bm')"
  shows "i = 0" "used bm' = used bm" "bm_disk bm' = bm_disk bm"
proof -
  from assms(3) obtain b where t: "bits.take_first (block_bitmap bm) = (i, b)"
    and bm': "bm' = bm\<lparr>block_bitmap := b\<rparr>"
    unfolding alloc_block_take by blast
  have "0 \<in> {..<DATA_START}"
    by (simp add: DATA_START_def)
  then have "0 \<in> used bm"
    using assms(1) unfolding bm_inv_def by blast
  moreover have "bitmap_inv (block_bitmap bm)"
    using assms(1) by (simp add: bm_inv_def)
  ultimately show "i = 0" "used bm' = used bm" "bm_disk bm' = bm_disk bm"
    using bits.take_first_full [OF _ _ _ t] assms(2) bm' by (simp_all add: free_count_bits)
qed

lemma free_block_used:
  assumes "bm_inv bm"
  shows "used (free_block bm i) = used bm - {unat i}" "bm_disk (free_block bm i) = bm_disk bm"
    "sb (free_block bm i) = sb bm"
  using assms by (simp_all add: free_block_def bm_inv_def marked_clear)

lemma free_block_inv: "bm_inv bm \<Longrightarrow> DATA_START \<le> unat i \<Longrightarrow> bm_inv (free_block bm i)"
  by (auto simp: bm_inv_def free_block_def marked_clear)

lemma free_block_count:
  "bm_inv bm \<Longrightarrow> unat i \<in> used bm \<Longrightarrow> free_count (free_block bm i) = Suc (free_count bm)"
  by (simp add: free_count_bits free_block_def bm_inv_def bits.unset_mark_free)

lemma write_block_blk:
  "unat i < BLOCK_NUM \<Longrightarrow>
     blk (write_block bm i (Some p)) = (blk bm)(unat i := map p [0..<BLOCK_SIZE])"
  by (simp add: write_block_def disk_write_block_def)

lemma write_block_keeps [simp]:
  "block_bitmap (write_block bm i p) = block_bitmap bm" "sb (write_block bm i p) = sb bm"
  by (simp_all add: write_block_def)

lemma free_count_write [simp]: "free_count (write_block bm i p) = free_count bm"
  by (simp add: free_count_def)

lemma write_block_inv [intro]: "bm_inv bm \<Longrightarrow> bm_inv (write_block bm i p)"
  by (auto simp: bm_inv_def write_block_def disk_write_block_def split: option.splits)

lemma read_block_filled:
  "unat i < BLOCK_NUM \<Longrightarrow> buf \<noteq> NullBuf \<Longrightarrow> read_block bm i buf = Filled (blk bm (unat i))"
  by (simp add: read_block_def disk_read_block_def)

lemma bm_inv_length: "bm_inv bm \<Longrightarrow> i < BLOCK_NUM \<Longrightarrow> length (blk bm i) = BLOCK_SIZE"
  by (simp add: bm_inv_def)

section \<open>The constructor\<close>

lemma mark_all_spec:
  assumes "bitmap_inv b" "\<forall>i\<in>set is. i < nbits b"
  shows "marked (mark_all is b) = marked b \<union> set is" "bitmap_inv (mark_all is b)"
    "nbits (mark_all is b) = nbits b"
proof -
  have "marked (mark_all is b) = marked b \<union> set is \<and> bitmap_inv (mark_all is b) \<and>
    nbits (mark_all is b) = nbits b"
    using assms
  proof (induction "is" arbitrary: b)
    case (Cons i "is")
    have i: "i < nbits b" "unat (of_nat i :: u32) = i"
      using Cons.prems(2) unat_u32_bound [of "numBits b"]
      by (auto simp: nbits_def intro!: unat_of_nat_u32)
    then have "marked (Bitmap_mark b (of_nat i)) = insert i (marked b)"
      using marked_mark [OF Cons.prems(1), of "of_nat i"] by simp
    with Cons.IH [of "Bitmap_mark b (of_nat i)"] Cons.prems show ?case
      by (auto simp: mark_all_def)
  qed (simp add: mark_all_def)
  then show "marked (mark_all is b) = marked b \<union> set is" "bitmap_inv (mark_all is b)"
    "nbits (mark_all is b) = nbits b"
    by simp_all
qed

lemma block_manager_new_used: "used block_manager_new = {..<DATA_START}"
  and block_manager_new_inv: "bm_inv block_manager_new"
proof -
  define b0 where "b0 = Bitmap_mark (Bitmap_mark (Bitmap_new (of_nat BLOCK_NUM)) 0) 1"
  define b1 where "b1 = mark_all (map (\<lambda>i. 2 + i) [0..<8]) b0"
  define b2 where "b2 = mark_all (map (\<lambda>i. 10 + i) [0..<343]) b1"
  have new: "block_bitmap block_manager_new = b2"
    by (simp add: block_manager_new_def b2_def b1_def b0_def Let_def layout_values
        del: upt_Suc)
  have n: "nbits (Bitmap_new (of_nat BLOCK_NUM)) = 32768"
    by (simp add: nbits_def Bitmap_new_def Let_def layout_values)
  have i: "bitmap_inv (Bitmap_new (of_nat BLOCK_NUM))"
    by (rule bitmap_new_inv) (simp add: layout_values)
  have "marked (Bitmap_new (of_nat BLOCK_NUM)) = {}"
    by (rule bitmap_new_marked) (simp add: layout_values)
  with n i have 0: "marked b0 = {0, 1}" "bitmap_inv b0" "nbits b0 = 32768"
    by (auto simp: b0_def marked_mark)
  have 1: "marked b1 = {0, 1} \<union> set (map (\<lambda>i. 2 + i) [0..<8])" "bitmap_inv b1"
    "nbits b1 = 32768"
    unfolding b1_def using 0 by (auto simp: mark_all_spec)
  have 2: "marked b2 = marked b1 \<union> set (map (\<lambda>i. 10 + i) [0..<343])" "bitmap_inv b2"
    "nbits b2 = 32768"
    unfolding b2_def using 1 by (auto simp: mark_all_spec)
  have "k \<in> marked b2 \<longleftrightarrow> k < 353" for k
  proof -
    have "k \<in> marked b2 \<longleftrightarrow> k \<in> {0, 1} \<union> (\<lambda>i. 2 + i) ` {0..<8} \<union> (\<lambda>i. 10 + i) ` {0..<343}"
      by (simp add: 2(1) 1(1))
    also have "\<dots> \<longleftrightarrow> k < 353"
      unfolding image_add_atLeastLessThan by auto
    finally show ?thesis .
  qed
  then show u: "used block_manager_new = {..<DATA_START}"
    by (auto simp: new DATA_START_def)
  show "bm_inv block_manager_new"
    using 2 u
    by (simp add: bm_inv_def new layout_values)
       (simp add: block_manager_new_def disk_new_def Let_def layout_values)
qed

end
