(* ===== verification/Inode_Layout.thy ===== *)
theory Inode_Layout
  imports Block_Layer
begin

text \<open>
  \<open>struct inode\<close> and its place in the inode table: the byte layout of the struct, and the two
  private operations \<open>get_inode\<close> and \<open>put_inode\<close> of \<open>inode_manager\<close> that read and write one slot of
  an inode block. \<open>inode_at\<close> is the abstract view of the table (inode number to inode); the lemmas
  show that \<open>put_inode\<close> changes exactly one entry of it and touches no block outside the table.
\<close>

record inode =
  itype :: u16
  isize :: u32
  atime :: u32
  mtime :: u32
  ctime :: u32
  iblocks :: "u32 list"

text \<open>\<open>bzero(ino, sizeof(struct inode))\<close>.\<close>

definition inode_zero :: inode where
  "inode_zero = \<lparr>itype = 0, isize = 0, atime = 0, mtime = 0, ctime = 0,
                 iblocks = replicate (NDIRECT + 1) 0\<rparr>"

text \<open>The bytes of the struct. The two padding bytes behind the \<open>short\<close> are never read by the
  program; they are written as the zeros \<open>bzero\<close> put there.\<close>

definition inode_bytes :: "inode \<Rightarrow> byte list" where
  "inode_bytes x = le16 (itype x) @ [0, 0] @
     bytes_of_u32s ([isize x, atime x, mtime x, ctime x] @ iblocks x)"

definition inode_of :: "byte list \<Rightarrow> inode" where
  "inode_of bs =
     (let f = (\<lambda>k. of_le32 (take 4 (drop (4 + 4 * k) bs)))
      in \<lparr>itype = of_le16 (take 2 bs), isize = f 0, atime = f 1, mtime = f 2, ctime = f 3,
          iblocks = u32s_of_bytes (NDIRECT + 1) (drop 20 bs)\<rparr>)"

record inode_manager =
  im_bm :: block_manager

definition inode_slot :: "u32 \<Rightarrow> nat" where
  "inode_slot inum = (unat inum mod IPB) * sizeof_inode"

definition get_inode :: "inode_manager \<Rightarrow> u32 \<Rightarrow> inode option res" where
  "get_inode im inum =
     (if unat inum \<ge> INODE_NUM then Inr None
      else case read_block (im_bm im) (IBLOCK inum (sb_nblocks (sb (im_bm im)))) Uninit of
             Filled buf \<Rightarrow>
               (let ino_disk = inode_of (take sizeof_inode (drop (inode_slot inum) buf))
                in if itype ino_disk = 0 then Inr None else Inr (Some ino_disk))
           | _ \<Rightarrow> Inl UninitRead)"

definition put_inode :: "inode_manager \<Rightarrow> u32 \<Rightarrow> inode option \<Rightarrow> inode_manager res" where
  "put_inode im inum ino =
     (case ino of
        None \<Rightarrow> Inr im
      | Some x \<Rightarrow>
          (let bid = IBLOCK inum (sb_nblocks (sb (im_bm im)))
           in case read_block (im_bm im) bid Uninit of
                Filled buf \<Rightarrow>
                  (let buf' = splice (inode_slot inum) (inode_bytes x) buf
                   in Inr (im\<lparr>im_bm := write_block (im_bm im) bid (Some (\<lambda>k. buf' ! k))\<rparr>))
              | _ \<Rightarrow> Inl UninitRead))"

section \<open>The struct round trip\<close>

lemma length_inode_bytes: "length (iblocks x) = NDIRECT + 1 \<Longrightarrow> length (inode_bytes x) = sizeof_inode"
  by (simp add: inode_bytes_def layout_values)

lemma inode_of_bytes:
  assumes "length (iblocks x) = NDIRECT + 1"
  shows "inode_of (inode_bytes x) = x"
proof -
  let ?ws = "[isize x, atime x, mtime x, ctime x] @ iblocks x"
  have f: "take 4 (drop (4 + 4 * k) (inode_bytes x)) = le32 (?ws ! k)" if "k < 4" for k
  proof -
    have "drop (4 + 4 * k) (inode_bytes x) = drop (4 * k) (bytes_of_u32s ?ws @ [])"
      by (simp add: inode_bytes_def)
    also have "take 4 \<dots> = le32 (?ws ! k)"
      by (rule take_drop_u32s) (use that in simp)
    finally show ?thesis .
  qed
  have "drop 20 (inode_bytes x) = bytes_of_u32s (iblocks x) @ []"
    by (simp add: inode_bytes_def bytes_of_u32s_def)
  then have "u32s_of_bytes (NDIRECT + 1) (drop 20 (inode_bytes x)) = iblocks x"
    by (simp only: u32s_of_bytes_of_u32s assms)
  moreover have "take 2 (inode_bytes x) = le16 (itype x)"
    by (simp add: inode_bytes_def)
  ultimately show ?thesis
    using f [of 0] f [of 1] f [of 2] f [of 3]
    by (simp add: inode_of_def Let_def numeral_2_eq_2 numeral_3_eq_3)
qed

lemma length_inode_of [simp]: "length (iblocks (inode_of bs)) = NDIRECT + 1"
  by (simp add: inode_of_def Let_def)

lemma length_inode_zero [simp]: "length (iblocks inode_zero) = NDIRECT + 1"
  by (simp add: inode_zero_def)

section \<open>The inode table\<close>

definition iblk :: "nat \<Rightarrow> nat" where
  "iblk i = BLOCK_NUM div BPB + i div IPB + 3"

definition inode_at :: "block_manager \<Rightarrow> nat \<Rightarrow> inode" where
  "inode_at bm i = inode_of (take sizeof_inode (drop ((i mod IPB) * sizeof_inode) (blk bm (iblk i))))"

lemma iblk_bound: "i < INODE_NUM \<Longrightarrow> iblk i < DATA_START"
  and iblk_disk: "i < INODE_NUM \<Longrightarrow> iblk i < BLOCK_NUM"
  by (simp_all add: iblk_def layout_values DATA_START_def)

lemma unat_IBLOCK:
  assumes "bm_inv bm" "unat inum < INODE_NUM"
  shows "unat (IBLOCK inum (sb_nblocks (sb bm))) = iblk (unat inum)"
proof -
  have "unat (sb_nblocks (sb bm)) = BLOCK_NUM"
    using assms(1) by (simp add: bm_inv_def)
  moreover have "iblk (unat inum) < 4294967296"
    using iblk_disk [OF assms(2)] by (simp add: layout_values)
  ultimately show ?thesis
    unfolding IBLOCK_def iblk_def by (simp add: unat_of_nat_u32 del: of_nat_add)
qed

lemma get_inode_eq:
  assumes "bm_inv (im_bm im)"
  shows "get_inode im inum =
    Inr (if unat inum < INODE_NUM \<and> itype (inode_at (im_bm im) (unat inum)) \<noteq> 0
         then Some (inode_at (im_bm im) (unat inum)) else None)"
proof (cases "unat inum < INODE_NUM")
  case True
  with assms have "read_block (im_bm im) (IBLOCK inum (sb_nblocks (sb (im_bm im)))) Uninit =
      Filled (blk (im_bm im) (iblk (unat inum)))"
    by (simp add: read_block_filled unat_IBLOCK iblk_disk)
  with True show ?thesis
    by (simp add: get_inode_def inode_at_def inode_slot_def Let_def)
qed (simp add: get_inode_def)

lemma slot_bound: "(i mod IPB) * sizeof_inode + sizeof_inode \<le> BLOCK_SIZE"
proof -
  have "i mod 3 < 3" by simp
  then have "i mod 3 \<le> 2" by linarith
  then show ?thesis by (simp add: layout_values)
qed

lemma slot_disjoint:
  assumes "i \<noteq> j" "iblk i = iblk j"
  shows "(j mod IPB) * sizeof_inode + sizeof_inode \<le> (i mod IPB) * sizeof_inode \<or>
    (i mod IPB) * sizeof_inode + sizeof_inode \<le> (j mod IPB) * sizeof_inode"
proof -
  from assms have "i mod 3 \<noteq> j mod 3"
    by (simp add: iblk_def layout_values) (metis div_mult_mod_eq)
  then show ?thesis
    by (simp add: layout_values) linarith
qed

lemma put_inode_spec:
  assumes inv: "bm_inv (im_bm im)" and i: "unat inum < INODE_NUM"
    and len: "length (iblocks x) = NDIRECT + 1"
  obtains bm' where "put_inode im inum (Some x) = Inr (im\<lparr>im_bm := bm'\<rparr>)" "bm_inv bm'"
    "block_bitmap bm' = block_bitmap (im_bm im)"
    "\<And>b. b \<noteq> iblk (unat inum) \<Longrightarrow> blk bm' b = blk (im_bm im) b"
    "inode_at bm' (unat inum) = x"
    "\<And>j. j < INODE_NUM \<Longrightarrow> j \<noteq> unat inum \<Longrightarrow> inode_at bm' j = inode_at (im_bm im) j"
proof -
  let ?bm = "im_bm im"
  let ?b = "IBLOCK inum (sb_nblocks (sb ?bm))"
  let ?old = "blk ?bm (iblk (unat inum))"
  let ?off = "(unat inum mod IPB) * sizeof_inode"
  let ?new = "splice ?off (inode_bytes x) ?old"
  let ?bm' = "write_block ?bm ?b (Some (\<lambda>k. ?new ! k))"
  have b: "unat ?b = iblk (unat inum)"
    by (rule unat_IBLOCK [OF inv i])
  have old: "length ?old = BLOCK_SIZE"
    using inv iblk_disk [OF i] by (rule bm_inv_length)
  have fits: "?off + length (inode_bytes x) \<le> length ?old"
    using slot_bound [of "unat inum"] by (simp add: old length_inode_bytes [OF len])
  have blk: "blk ?bm' = (blk ?bm)(iblk (unat inum) := ?new)"
  proof -
    have "map (\<lambda>k. ?new ! k) [0..<BLOCK_SIZE] = ?new"
      using fits old by (metis length_splice map_nth)
    then show ?thesis
      using write_block_blk [of ?b ?bm] iblk_disk [OF i] by (simp add: b)
  qed
  have "put_inode im inum (Some x) = Inr (im\<lparr>im_bm := ?bm'\<rparr>)"
    using iblk_disk [OF i]
    by (simp add: put_inode_def read_block_filled b inode_slot_def Let_def)
  moreover have "bm_inv ?bm'"
    using inv by (rule write_block_inv)
  moreover have "inode_at ?bm' j = (if j = unat inum then x else inode_at ?bm j)"
    if "j < INODE_NUM" for j
  proof (cases "j = unat inum")
    case True
    have "take sizeof_inode (drop ?off ?new) = inode_bytes x"
      using fits length_inode_bytes [OF len] by (intro slice_splice_same) simp_all
    with True show ?thesis
      by (simp add: inode_at_def blk inode_of_bytes [OF len])
  next
    case False
    show ?thesis
    proof (cases "iblk j = iblk (unat inum)")
      case True
      then have "take sizeof_inode (drop ((j mod IPB) * sizeof_inode) ?new) =
          take sizeof_inode (drop ((j mod IPB) * sizeof_inode) ?old)"
        using slot_disjoint [of j "unat inum"] False slot_bound [of j] fits old
        by (intro slice_splice_other) (auto simp: length_inode_bytes [OF len])
      with False True show ?thesis
        by (simp add: inode_at_def blk)
    qed (use False in \<open>simp add: inode_at_def blk\<close>)
  qed
  ultimately show ?thesis
    using that [of ?bm'] i by (simp add: blk)
qed

end
