(* ===== verification/Inode_Manager.thy ===== *)
theory Inode_Manager
  imports Inode_Layout "HOL-Library.Signed_Division"
begin

text \<open>
  The public operations of class \<open>inode_manager\<close>, one definition per method, with their loops as
  recursive functions that keep the source's order of reads, writes and allocations. A \<open>break\<close> ends
  the recursion; the index lists are the loops' ranges. A C++ \<open>int\<close> is a HOL \<open>int\<close>; a computation
  that leaves its range is the fault \<open>SignedOverflow\<close>.
\<close>

section \<open>extent\_protocol\<close>

text \<open>The file types and the attribute record of \<open>extent_protocol.h\<close>, which \<open>getattr\<close> fills.\<close>

definition T_DIR :: u32 where "T_DIR = 1"
definition T_FILE :: u32 where "T_FILE = 2"

record attr =
  a_type :: u32
  a_atime :: u32
  a_mtime :: u32
  a_ctime :: u32
  a_size :: u32

section \<open>Block counts\<close>

text \<open>The macro \<open>BLOCK_COUNT\<close> at its two argument types: \<open>unsigned int\<close> wraps around, \<open>int\<close> must not
  overflow and its quotient is converted to \<open>uint32_t\<close>.\<close>

definition BLOCK_COUNT :: "u32 \<Rightarrow> u32" where
  "BLOCK_COUNT sz = (sz + of_nat BLOCK_SIZE - 1) div of_nat BLOCK_SIZE"

definition BLOCK_COUNT_int :: "int \<Rightarrow> u32 res" where
  "BLOCK_COUNT_int sz =
     (if sz + int BLOCK_SIZE \<ge> 2 ^ 31 then Inl SignedOverflow
      else Inr (word_of_int ((sz + int BLOCK_SIZE - 1) sdiv int BLOCK_SIZE)))"

section \<open>Creating and freeing inodes\<close>

fun first_free_inode :: "inode_manager \<Rightarrow> nat list \<Rightarrow> nat option res" where
  "first_free_inode im [] = Inr None"
| "first_free_inode im (i # is) =
     bindE (get_inode im (of_nat i))
       (\<lambda>tmp. if tmp = None then Inr (Some i) else first_free_inode im is)"

definition alloc_inode :: "inode_manager \<Rightarrow> u32 \<Rightarrow> (u32 \<times> inode_manager) res" where
  "alloc_inode im type =
     bindE (first_free_inode im [1..<INODE_NUM])
       (\<lambda>r. case r of
          Some i \<Rightarrow>
            bindE (put_inode im (of_nat i) (Some (inode_zero\<lparr>isize := 0, itype := ucast type\<rparr>)))
              (\<lambda>im'. Inr (of_nat i, im'))
        | None \<Rightarrow> Inr (0, im))"

text \<open>The constructor; \<open>None\<close> is its \<open>exit(0)\<close>.\<close>

definition inode_manager_new :: "inode_manager option res" where
  "inode_manager_new =
     bindE (alloc_inode \<lparr>im_bm = block_manager_new\<rparr> T_DIR)
       (\<lambda>(root_dir, im). Inr (if root_dir \<noteq> 1 then None else Some im))"

definition free_inode :: "inode_manager \<Rightarrow> u32 \<Rightarrow> inode_manager res" where
  "free_inode im inum =
     bindE (get_inode im inum)
       (\<lambda>ino. case ino of
          None \<Rightarrow> Inr im
        | Some _ \<Rightarrow> put_inode im inum (Some (inode_zero\<lparr>itype := 0\<rparr>)))"

section \<open>Reading a file\<close>

text \<open>The loop over the direct blocks returns \<open>flag\<close>, \<open>read_size\<close>, the block buffer (which keeps its
  contents from one round to the next) and the bytes copied out so far.\<close>

fun read_direct ::
  "block_manager \<Rightarrow> u32 \<Rightarrow> u32 list \<Rightarrow> u32 \<Rightarrow> cbuf \<Rightarrow> byte list \<Rightarrow>
     (bool \<times> u32 \<times> cbuf \<times> byte list) res" where
  "read_direct bm sz [] read_size buf out = Inr (False, read_size, buf, out)"
| "read_direct bm sz (b # bs) read_size buf out =
     (if read_size \<ge> sz then Inr (True, read_size, buf, out)
      else case read_block bm b buf of
             Filled data \<Rightarrow>
               read_direct bm sz bs (read_size + of_nat BLOCK_SIZE) (Filled data)
                 (out @ take (min BLOCK_SIZE (unat (sz - read_size))) data)
           | _ \<Rightarrow> Inl UninitRead)"

text \<open>The \<open>do\<close>-\<open>while\<close> loop over the entries of the indirect block: it does not check the index, so it
  reads past the array when the entries run out before the size is reached.\<close>

fun read_indirect ::
  "block_manager \<Rightarrow> u32 \<Rightarrow> u32 list \<Rightarrow> u32 \<Rightarrow> cbuf \<Rightarrow> byte list \<Rightarrow> byte list res" where
  "read_indirect bm sz [] read_size buf out = Inl OutOfBounds"
| "read_indirect bm sz (b # bs) read_size buf out =
     (case read_block bm b buf of
        Filled data \<Rightarrow>
          (let out' = out @ take (min BLOCK_SIZE (unat (sz - read_size))) data;
               read_size' = read_size + of_nat BLOCK_SIZE
           in if read_size' < sz then read_indirect bm sz bs read_size' (Filled data) out'
              else Inr out')
      | _ \<Rightarrow> Inl UninitRead)"

text \<open>\<open>out\<close> is the pair of output parameters, the buffer pointer and the size (\<open>None\<close>: \<open>buf_out\<close> is
  null). When the inode does not exist the code assigns the parameter \<open>buf_out\<close> itself, so the
  caller's pointer is left alone. The allocated buffer ends in a terminating zero byte.\<close>

definition read_file ::
  "inode_manager \<Rightarrow> u32 \<Rightarrow> (byte list option \<times> int) option \<Rightarrow> (byte list option \<times> int) option res"
  where
  "read_file im inum out =
     (case out of
        None \<Rightarrow> Inr None
      | Some (buf0, _) \<Rightarrow>
          bindE (get_inode im inum)
            (\<lambda>ino. case ino of
               None \<Rightarrow> Inr (Some (buf0, 0))
             | Some x \<Rightarrow>
                 bindE (read_direct (im_bm im) (isize x) (take NDIRECT (iblocks x)) 0 Uninit [])
                   (\<lambda>(flag, read_size, buf, bytes).
                      bindE
                        (if \<not> flag \<and> read_size < isize x
                         then case read_block (im_bm im) (iblocks x ! NDIRECT) Uninit of
                                Filled ind \<Rightarrow>
                                  read_indirect (im_bm im) (isize x)
                                    (u32s_of_bytes NINDIRECT ind) read_size buf bytes
                              | _ \<Rightarrow> Inl UninitRead
                         else Inr bytes)
                        (\<lambda>bytes'. Inr (Some (Some (bytes' @ [0]), sint (isize x)))))))"

section \<open>Writing a file\<close>

text \<open>The source buffer is the memory behind the pointer: block \<open>i\<close> of it is copied whole, also where
  the file's last block is only partly covered by \<open>size\<close>.\<close>

definition buf_block :: "(nat \<Rightarrow> byte) \<Rightarrow> nat \<Rightarrow> nat \<Rightarrow> byte" where
  "buf_block p i k = p (i * BLOCK_SIZE + k)"

fun write_direct ::
  "nat list \<Rightarrow> nat \<Rightarrow> nat \<Rightarrow> (nat \<Rightarrow> byte) \<Rightarrow> block_manager \<Rightarrow> u32 list \<Rightarrow> block_manager \<times> u32 list"
  where
  "write_direct [] cur origin p bm ids = (bm, ids)"
| "write_direct (i # is) cur origin p bm ids =
     (if i < cur \<and> i < origin then
        write_direct is cur origin p (write_block bm (ids ! i) (Some (buf_block p i))) ids
      else if i < cur then
        (let (b, bm1) = alloc_block bm; ids1 = ids[i := b]
         in write_direct is cur origin p (write_block bm1 (ids1 ! i) (Some (buf_block p i))) ids1)
      else (bm, ids))"

fun write_indirect ::
  "nat list \<Rightarrow> nat \<Rightarrow> nat \<Rightarrow> (nat \<Rightarrow> byte) \<Rightarrow> u32 \<Rightarrow> block_manager \<Rightarrow> u32 list \<Rightarrow> block_manager"
  where
  "write_indirect [] cur origin p ind bm ids = bm"
| "write_indirect (i # is) cur origin p ind bm ids =
     (if i < cur \<and> i < origin then
        write_indirect is cur origin p ind
          (write_block bm (ids ! (i - NDIRECT)) (Some (buf_block p i))) ids
      else if i < cur then
        (let (b, bm1) = alloc_block bm; ids1 = ids[i - NDIRECT := b]
         in write_indirect is cur origin p ind
              (write_block bm1 (ids1 ! (i - NDIRECT)) (Some (buf_block p i))) ids1)
      else write_block bm ind (Some (\<lambda>k. bytes_of_u32s ids ! k)))"

text \<open>The part of \<open>write_file\<close> for files with more than \<open>NDIRECT\<close> blocks: read or allocate the indirect
  block, then run the second loop.\<close>

definition write_indirect_part ::
  "nat \<Rightarrow> nat \<Rightarrow> (nat \<Rightarrow> byte) \<Rightarrow> block_manager \<Rightarrow> u32 list \<Rightarrow> (block_manager \<times> u32 list) res" where
  "write_indirect_part cur origin p bm ids =
     (if cur > NDIRECT then
        bindE
          (if origin > NDIRECT then
             (case read_block bm (ids ! NDIRECT) Uninit of
                Filled ind \<Rightarrow> Inr (bm, ids, u32s_of_bytes NINDIRECT ind)
              | _ \<Rightarrow> Inl UninitRead)
           else (let (b, bm1) = alloc_block bm
                 in Inr (bm1, ids[NDIRECT := b], replicate NINDIRECT 0)))
          (\<lambda>(bm1, ids1, ind).
             Inr (write_indirect [NDIRECT..<NINDIRECT + NDIRECT] cur origin p (ids1 ! NDIRECT) bm1 ind,
                  ids1))
      else Inr (bm, ids))"

definition write_file ::
  "inode_manager \<Rightarrow> u32 \<Rightarrow> (nat \<Rightarrow> byte) \<Rightarrow> int \<Rightarrow> inode_manager res" where
  "write_file im inum p sz =
     bindE (get_inode im inum)
       (\<lambda>ino. case ino of
          None \<Rightarrow> Inr im
        | Some x \<Rightarrow>
            bindE (BLOCK_COUNT_int sz)
              (\<lambda>cur_w.
                 (let origin = unat (BLOCK_COUNT (isize x)); cur = unat cur_w;
                      (bm1, ids1) = write_direct [0..<NDIRECT] cur origin p (im_bm im) (iblocks x)
                  in bindE (write_indirect_part cur origin p bm1 ids1)
                       (\<lambda>(bm2, ids2).
                          put_inode (im\<lparr>im_bm := bm2\<rparr>) inum
                            (Some (x\<lparr>iblocks := ids2, isize := word_of_int sz\<rparr>))))))"

section \<open>Attributes and removal\<close>

definition im_getattr :: "inode_manager \<Rightarrow> u32 \<Rightarrow> attr \<Rightarrow> attr res" where
  "im_getattr im inum a =
     bindE (get_inode im inum)
       (\<lambda>ino. case ino of
          None \<Rightarrow> Inr a
        | Some x \<Rightarrow>
            Inr (a\<lparr>a_type := scast (itype x), a_atime := atime x, a_ctime := ctime x,
                   a_mtime := mtime x, a_size := isize x\<rparr>))"

definition free_all :: "u32 list \<Rightarrow> block_manager \<Rightarrow> block_manager" where
  "free_all bs bm = fold (\<lambda>b bm. free_block bm b) bs bm"

definition remove_file :: "inode_manager \<Rightarrow> u32 \<Rightarrow> inode_manager res" where
  "remove_file im inum =
     bindE (get_inode im inum)
       (\<lambda>ino. case ino of
          None \<Rightarrow> Inr im
        | Some x \<Rightarrow>
            (let block_num = unat (BLOCK_COUNT (isize x));
                 bm1 = free_all (take (min NDIRECT block_num) (iblocks x)) (im_bm im)
             in bindE
                  (if block_num > NDIRECT then
                     (case read_block bm1 (iblocks x ! NDIRECT) Uninit of
                        Filled ind \<Rightarrow>
                          Inr (free_block
                                 (free_all (take (min (block_num - NDIRECT) NINDIRECT)
                                              (u32s_of_bytes NINDIRECT ind)) bm1)
                                 (iblocks x ! NDIRECT))
                      | _ \<Rightarrow> Inl UninitRead)
                   else Inr bm1)
                  (\<lambda>bm2. free_inode (im\<lparr>im_bm := bm2\<rparr>) inum)))"

end
