(* ===== verification/File_Read.thy ===== *)
theory File_Read
  imports Inode_Manager
begin

text \<open>
  The abstract view of a file: which blocks an inode owns (\<open>owned\<close>), what its contents are
  (\<open>file_data\<close>), the invariant \<open>im_inv\<close> that ties inodes, bitmap and disk together, and the proof
  that \<open>read_file\<close> returns exactly the contents.
\<close>

section \<open>Block counts as numbers\<close>

definition nblk :: "nat \<Rightarrow> nat" where
  "nblk n = (n + BLOCK_SIZE - 1) div BLOCK_SIZE"

lemma nblk_0 [simp]: "nblk 0 = 0"
  by (simp add: nblk_def layout_values)

lemma nblk_pos:
  assumes "0 < n"
  shows "nblk n = Suc (nblk (n - BLOCK_SIZE))"
proof (cases "n \<le> BLOCK_SIZE")
  case True
  then have "nblk n = 1"
    using assms unfolding nblk_def layout_values by (intro div_nat_eqI) simp_all
  with True show ?thesis by simp
next
  case False
  then obtain k where "n = k + 512"
    by (metis add.commute layout_values(1) le_add_diff_inverse nat_le_linear)
  then show ?thesis by (simp add: nblk_def layout_values)
qed

lemma nblk_covers: "n \<le> nblk n * BLOCK_SIZE"
  by (simp add: nblk_def layout_values)

lemma nblk_le: "n \<le> m * BLOCK_SIZE \<Longrightarrow> nblk n \<le> m"
  by (simp add: nblk_def layout_values)

lemma nblk_gt: "m * BLOCK_SIZE < n \<Longrightarrow> m < nblk n"
  using nblk_covers [of n] by (simp add: layout_values)

lemma nblk_add: "nblk (m * BLOCK_SIZE + n) = m + nblk n"
  by (simp add: nblk_def layout_values)

lemma unat_BLOCK_COUNT:
  assumes "unat s < 2 ^ 31"
  shows "unat (BLOCK_COUNT s) = nblk (unat s)"
proof -
  have "s + of_nat BLOCK_SIZE - 1 = 511 + s"
    by (simp add: layout_values)
  moreover have "unat (511 + s) = 511 + unat s"
    using assms by (simp add: unat_word_ariths)
  ultimately show ?thesis
    by (simp add: BLOCK_COUNT_def nblk_def unat_div layout_values)
qed

lemma BLOCK_COUNT_int_nat:
  assumes "n + BLOCK_SIZE < 2 ^ 31"
  shows "BLOCK_COUNT_int (int n) = Inr (of_nat (nblk n))"
proof -
  have "(511 + int n) sdiv 512 = int ((511 + n) div 512)"
    by (simp add: signed_divide_int_def zdiv_int)
  moreover have "\<not> 2 ^ 31 \<le> int n + 512"
    using assms by (simp add: layout_values)
  ultimately show ?thesis
    unfolding BLOCK_COUNT_int_def by (simp add: nblk_def layout_values)
qed

section \<open>The blocks and the contents of a file\<close>

definition ind_ids :: "block_manager \<Rightarrow> inode \<Rightarrow> u32 list" where
  "ind_ids bm x = u32s_of_bytes NINDIRECT (blk bm (unat (iblocks x ! NDIRECT)))"

definition data_ids :: "block_manager \<Rightarrow> inode \<Rightarrow> u32 list" where
  "data_ids bm x =
     (let n = nblk (unat (isize x))
      in take n (take NDIRECT (iblocks x)) @ take (n - NDIRECT) (ind_ids bm x))"

definition owned :: "block_manager \<Rightarrow> inode \<Rightarrow> u32 list" where
  "owned bm x =
     data_ids bm x @ (if nblk (unat (isize x)) > NDIRECT then [iblocks x ! NDIRECT] else [])"

definition contents :: "block_manager \<Rightarrow> u32 list \<Rightarrow> byte list" where
  "contents bm bs = concat (map (\<lambda>b. blk bm (unat b)) bs)"

definition file_data :: "block_manager \<Rightarrow> inode \<Rightarrow> byte list" where
  "file_data bm x = take (unat (isize x)) (contents bm (data_ids bm x))"

definition live :: "block_manager \<Rightarrow> nat \<Rightarrow> bool" where
  "live bm i \<longleftrightarrow> i < INODE_NUM \<and> itype (inode_at bm i) \<noteq> 0"

text \<open>The largest file for which \<open>write_file\<close> also stores the indirect block.\<close>

definition MAXBYTES :: nat where
  "MAXBYTES = (MAXFILE - 1) * BLOCK_SIZE"

definition data_block :: "block_manager \<Rightarrow> u32 \<Rightarrow> bool" where
  "data_block bm b \<longleftrightarrow> DATA_START \<le> unat b \<and> unat b < BLOCK_NUM \<and> unat b \<in> used bm"

definition inode_ok :: "block_manager \<Rightarrow> inode \<Rightarrow> bool" where
  "inode_ok bm x \<longleftrightarrow>
     unat (isize x) \<le> MAXBYTES \<and> list_all (data_block bm) (owned bm x) \<and> distinct (owned bm x)"

definition im_inv :: "block_manager \<Rightarrow> bool" where
  "im_inv bm \<longleftrightarrow>
     bm_inv bm \<and>
     (\<forall>i. live bm i \<longrightarrow> inode_ok bm (inode_at bm i)) \<and>
     (\<forall>i j. live bm i \<longrightarrow> live bm j \<longrightarrow> i \<noteq> j \<longrightarrow>
        set (owned bm (inode_at bm i)) \<inter> set (owned bm (inode_at bm j)) = {})"

lemma MAXBYTES_value [layout_simps]: "MAXBYTES = 81408"
  by (simp add: MAXBYTES_def layout_values)

lemma length_ind_ids [simp]: "length (ind_ids bm x) = NINDIRECT"
  by (simp add: ind_ids_def)

lemma length_inode_at [simp]: "length (iblocks (inode_at bm i)) = NDIRECT + 1"
  by (simp add: inode_at_def)

lemma contents_Nil [simp]: "contents bm [] = []"
  and contents_Cons [simp]: "contents bm (b # bs) = blk bm (unat b) @ contents bm bs"
  and contents_append [simp]: "contents bm (bs @ cs) = contents bm bs @ contents bm cs"
  by (simp_all add: contents_def)

lemma length_contents:
  "\<forall>b\<in>set bs. length (blk bm (unat b)) = BLOCK_SIZE \<Longrightarrow>
     length (contents bm bs) = length bs * BLOCK_SIZE"
  by (induction bs) simp_all

lemma data_block_length: "bm_inv bm \<Longrightarrow> data_block bm b \<Longrightarrow> length (blk bm (unat b)) = BLOCK_SIZE"
  by (simp add: data_block_def bm_inv_length)

lemma length_data_ids:
  assumes "length (iblocks x) = NDIRECT + 1" "unat (isize x) \<le> MAXBYTES"
  shows "length (data_ids bm x) = nblk (unat (isize x))"
proof -
  have "nblk (unat (isize x)) \<le> 159"
    using assms(2) by (intro nblk_le) (simp add: layout_values MAXBYTES_value)
  then show ?thesis
    using assms(1) by (auto simp: data_ids_def Let_def layout_values)
qed

lemma length_file_data:
  assumes "bm_inv bm" "inode_ok bm x" "length (iblocks x) = NDIRECT + 1"
  shows "length (file_data bm x) = unat (isize x)"
proof -
  have "\<forall>b\<in>set (data_ids bm x). length (blk bm (unat b)) = BLOCK_SIZE"
    using assms by (auto simp: inode_ok_def owned_def list_all_iff intro: data_block_length)
  then have "length (contents bm (data_ids bm x)) = nblk (unat (isize x)) * BLOCK_SIZE"
    using assms by (simp add: length_contents length_data_ids inode_ok_def)
  then show ?thesis
    using nblk_covers [of "unat (isize x)"] by (simp add: file_data_def)
qed

section \<open>Reading\<close>

lemma read_chunk:
  assumes "length d = BLOCK_SIZE" "rs < sz"
  shows "take (min BLOCK_SIZE (unat (sz - rs))) d = take (unat sz - unat rs) d"
  using assms by (simp add: unat_sub min_def)

lemma unat_next:
  assumes "unat rs + BLOCK_SIZE < 2 ^ 32"
  shows "unat (rs + of_nat BLOCK_SIZE :: u32) = unat rs + BLOCK_SIZE"
  using assms by (simp add: unat_word_ariths layout_values)

lemma read_direct_spec:
  assumes "unat rs + length bs * BLOCK_SIZE < 2 ^ 32" "bm_inv bm" "buf \<noteq> NullBuf"
    "\<forall>b\<in>set (take (nblk (unat sz - unat rs)) bs). unat b < BLOCK_NUM"
  shows "\<exists>buf'. buf' \<noteq> NullBuf \<and> read_direct bm sz bs rs buf out =
    Inr (nblk (unat sz - unat rs) < length bs,
         rs + of_nat (min (nblk (unat sz - unat rs)) (length bs) * BLOCK_SIZE), buf',
         out @ take (unat sz - unat rs) (contents bm (take (nblk (unat sz - unat rs)) bs)))"
  using assms
proof (induction bs arbitrary: rs buf out)
  case (Cons b bs)
  show ?case
  proof (cases "rs \<ge> sz")
    case True
    with Cons.prems(3) show ?thesis by (simp add: word_le_nat_alt)
  next
    case False
    let ?m = "unat sz - unat rs" and ?rs' = "rs + of_nat BLOCK_SIZE"
    have pos: "0 < ?m" and lt: "rs < sz"
      using False by (auto simp: word_le_nat_alt word_less_nat_alt)
    have m: "nblk ?m = Suc (nblk (?m - BLOCK_SIZE))"
      by (rule nblk_pos [OF pos])
    have rs': "unat ?rs' = unat rs + BLOCK_SIZE"
      using Cons.prems(1) by (intro unat_next) simp
    then have m': "unat sz - unat ?rs' = ?m - BLOCK_SIZE" by simp
    have b: "unat b < BLOCK_NUM"
      using Cons.prems(4) m by simp
    let ?d = "blk bm (unat b)"
    have d: "length ?d = BLOCK_SIZE"
      using Cons.prems(2) b by (rule bm_inv_length)
    have IH: "\<exists>buf'. buf' \<noteq> NullBuf \<and> read_direct bm sz bs ?rs' (Filled ?d) (out @ take ?m ?d) =
      Inr (nblk (?m - BLOCK_SIZE) < length bs,
           ?rs' + of_nat (min (nblk (?m - BLOCK_SIZE)) (length bs) * BLOCK_SIZE), buf',
           (out @ take ?m ?d) @ take (?m - BLOCK_SIZE) (contents bm (take (nblk (?m - BLOCK_SIZE)) bs)))"
      using Cons.IH [of ?rs' "Filled ?d" "out @ take ?m ?d"] Cons.prems rs' m
      unfolding m' by (simp add: algebra_simps)
    show ?thesis
      using IH Cons.prems(3) False b
      by (simp add: read_block_filled read_chunk [OF d lt] m d algebra_simps)
  qed
qed simp

lemma read_indirect_spec:
  assumes "unat rs + length bs * BLOCK_SIZE < 2 ^ 32" "bm_inv bm" "buf \<noteq> NullBuf" "rs < sz"
    "\<forall>b\<in>set (take (nblk (unat sz - unat rs)) bs). unat b < BLOCK_NUM"
    "nblk (unat sz - unat rs) \<le> length bs"
  shows "read_indirect bm sz bs rs buf out =
    Inr (out @ take (unat sz - unat rs) (contents bm (take (nblk (unat sz - unat rs)) bs)))"
  using assms
proof (induction bs arbitrary: rs buf out)
  case Nil
  then have "nblk (unat sz - unat rs) = 0" by simp
  moreover have "0 < unat sz - unat rs"
    using Nil.prems(4) by (simp add: word_less_nat_alt)
  ultimately show ?case
    using nblk_pos by simp
next
  case (Cons b bs)
  let ?m = "unat sz - unat rs" and ?rs' = "rs + of_nat BLOCK_SIZE"
  have pos: "0 < ?m"
    using Cons.prems(4) by (simp add: word_less_nat_alt)
  have m: "nblk ?m = Suc (nblk (?m - BLOCK_SIZE))"
    by (rule nblk_pos [OF pos])
  have rs': "unat ?rs' = unat rs + BLOCK_SIZE"
    using Cons.prems(1) by (intro unat_next) simp
  then have m': "unat sz - unat ?rs' = ?m - BLOCK_SIZE" by simp
  have b: "unat b < BLOCK_NUM"
    using Cons.prems(5) m by simp
  let ?d = "blk bm (unat b)"
  have d: "length ?d = BLOCK_SIZE"
    using Cons.prems(2) b by (rule bm_inv_length)
  show ?case
  proof (cases "?rs' < sz")
    case True
    have IH: "read_indirect bm sz bs ?rs' (Filled ?d) (out @ take ?m ?d) =
      Inr ((out @ take ?m ?d) @ take (?m - BLOCK_SIZE) (contents bm (take (nblk (?m - BLOCK_SIZE)) bs)))"
      using Cons.IH [of ?rs' "Filled ?d" "out @ take ?m ?d"] Cons.prems rs' m True
      unfolding m' by simp
    then show ?thesis
      using Cons.prems(3,4) b True
      by (simp add: read_block_filled read_chunk [OF d] m d Let_def)
  next
    case False
    then have "?m - BLOCK_SIZE = 0"
      using rs' by (simp add: word_less_nat_alt)
    then show ?thesis
      using Cons.prems(3,4) b False
      by (simp add: read_block_filled read_chunk [OF d] m d Let_def)
  qed
qed

lemma isize_sint:
  assumes "unat (isize x) \<le> MAXBYTES"
  shows "sint (isize x) = int (unat (isize x))"
  using assms by (intro sint_small_u32) (simp add: MAXBYTES_value)

lemma read_file_live:
  assumes inv: "bm_inv (im_bm im)" and i: "live (im_bm im) (unat inum)"
    and ok: "inode_ok (im_bm im) (inode_at (im_bm im) (unat inum))"
  shows "read_file im inum (Some out) =
    Inr (Some (Some (file_data (im_bm im) (inode_at (im_bm im) (unat inum)) @ [0]),
               int (unat (isize (inode_at (im_bm im) (unat inum))))))"
proof -
  define bm where "bm = im_bm im"
  define x where "x = inode_at bm (unat inum)"
  define n where "n = unat (isize x)"
  have get: "get_inode im inum = Inr (Some x)"
    using get_inode_eq [OF inv, of inum] i by (simp add: live_def bm_def x_def)
  have len: "length (iblocks x) = 33"
    by (simp add: x_def layout_values)
  have n: "n \<le> 81408" and sint: "sint (isize x) = int n"
    using ok by (auto simp: inode_ok_def bm_def x_def n_def MAXBYTES_value isize_sint)
  have own: "\<forall>b\<in>set (data_ids bm x). unat b < BLOCK_NUM"
    using ok by (auto simp: inode_ok_def owned_def list_all_iff data_block_def bm_def x_def)
  have "\<forall>b\<in>set (take (nblk n) (take NDIRECT (iblocks x))). unat b < BLOCK_NUM"
    using own by (auto simp: data_ids_def Let_def n_def)
  then have "\<exists>buf'. buf' \<noteq> NullBuf \<and> read_direct bm (isize x) (take NDIRECT (iblocks x)) 0 Uninit [] =
    Inr (nblk n < 32, of_nat (min (nblk n) 32 * 512), buf',
         take n (contents bm (take (nblk n) (take NDIRECT (iblocks x)))))"
    using read_direct_spec [of 0 "take NDIRECT (iblocks x)" bm Uninit "isize x" "[]"] inv len
    by (simp add: n_def layout_values bm_def)
  then obtain buf' where buf': "buf' \<noteq> NullBuf"
    and direct: "read_direct bm (isize x) (take NDIRECT (iblocks x)) 0 Uninit [] =
      Inr (nblk n < 32, of_nat (min (nblk n) 32 * 512), buf',
           take n (contents bm (take (nblk n) (take NDIRECT (iblocks x)))))"
    by blast
  show ?thesis
  proof (cases "n \<le> 32 * 512")
    case True
    then have "nblk n \<le> 32" by (intro nblk_le) (simp add: layout_values)
    moreover have "\<not> of_nat (min (nblk n) 32 * 512) < isize x" if "\<not> nblk n < 32"
      using that True \<open>nblk n \<le> 32\<close> by (simp add: word_less_nat_alt n_def)
    ultimately show ?thesis
      using direct get sint
      by (auto simp: read_file_def file_data_def data_ids_def Let_def layout_values
          simp flip: bm_def x_def n_def)
  next
    case False
    then have big: "32 < nblk n"
      using nblk_gt [of 32 n] by (simp add: layout_values)
    then have rs: "of_nat (min (nblk n) 32 * 512) = (16384 :: u32)"
      by simp
    have lt: "(16384 :: u32) < isize x"
      using False by (simp add: word_less_nat_alt n_def)
    have rest: "nblk (n - 16384) = nblk n - 32"
      using nblk_add [of 32 "n - 16384"] False by (simp add: layout_values)
    have "nblk n \<le> 159"
      using n by (intro nblk_le) (simp add: layout_values)
    then have ind: "read_indirect bm (isize x) (ind_ids bm x) 16384 buf' out' =
      Inr (out' @ take (n - 16384) (contents bm (take (nblk n - 32) (ind_ids bm x))))" for out'
      using read_indirect_spec [of 16384 "ind_ids bm x" bm buf' "isize x" out'] own inv buf' lt
      by (simp add: n_def [symmetric] rest data_ids_def Let_def layout_values ball_Un bm_def [symmetric])
    have idx: "unat (iblocks x ! NDIRECT) < BLOCK_NUM"
      using ok big by (auto simp: inode_ok_def owned_def data_block_def bm_def x_def n_def layout_values)
    let ?d = "contents bm (take NDIRECT (iblocks x))"
    have "\<forall>b\<in>set (take NDIRECT (iblocks x)). length (blk bm (unat b)) = BLOCK_SIZE"
      using own big bm_inv_length [OF inv]
      by (auto simp: data_ids_def Let_def n_def [symmetric] layout_values ball_Un bm_def)
    then have "length ?d = 16384"
      using len by (simp add: length_contents layout_values)
    then have "file_data bm x = ?d @ take (n - 16384) (contents bm (take (nblk n - 32) (ind_ids bm x)))"
      and "take n ?d = ?d"
      using big False by (simp_all add: file_data_def data_ids_def Let_def n_def layout_values)
    moreover have "u32s_of_bytes NINDIRECT (blk bm (unat (iblocks x ! NDIRECT))) = ind_ids bm x"
      by (simp add: ind_ids_def)
    ultimately show ?thesis
      using direct get sint big lt ind idx rs
      by (simp add: read_file_def read_block_filled layout_values flip: bm_def x_def n_def)
  qed
qed

lemma read_file_dead:
  assumes "bm_inv (im_bm im)" "\<not> live (im_bm im) (unat inum)"
  shows "read_file im inum (Some (buf0, s)) = Inr (Some (buf0, 0))"
  using get_inode_eq [OF assms(1), of inum] assms(2) by (auto simp: read_file_def live_def)

end
