(* ===== verification/File_Write.thy ===== *)
theory File_Write
  imports File_Read
begin

text \<open>
  The two write loops of \<open>write_file\<close>. Both store a run of blocks: into the blocks the file has, then
  into freshly allocated ones. \<open>place\<close> is that common reference algorithm on a list of blocks;
  \<open>write_direct_place\<close> and \<open>write_indirect_place\<close> show that the loops of the source compute it, and
  \<open>place_spec\<close> says what it does to bitmap and disk.
\<close>

section \<open>The reference algorithm\<close>

fun place :: "block_manager \<Rightarrow> (nat \<Rightarrow> byte) list \<Rightarrow> u32 list \<Rightarrow> block_manager \<times> u32 list" where
  "place bm [] os = (bm, [])"
| "place bm (c # cs) (b # os) =
     (let (bm', bs) = place (write_block bm b (Some c)) cs os in (bm', b # bs))"
| "place bm (c # cs) [] =
     (let (b, bm1) = alloc_block bm;
          (bm', bs) = place (write_block bm1 b (Some c)) cs []
      in (bm', b # bs))"

definition placed ::
  "block_manager \<Rightarrow> block_manager \<Rightarrow> (nat \<Rightarrow> byte) list \<Rightarrow> u32 list \<Rightarrow> u32 list \<Rightarrow> bool" where
  "placed bm bm' cs bs news \<longleftrightarrow>
     bm_inv bm' \<and> length bs = length cs \<and> distinct bs \<and>
     used bm' = used bm \<union> unat ` set news \<and>
     (\<forall>b\<in>set news. unat b \<notin> used bm \<and> DATA_START \<le> unat b \<and> unat b < BLOCK_NUM) \<and>
     free_count bm' = free_count bm - length news \<and>
     map (\<lambda>b. blk bm' (unat b)) bs = map (\<lambda>c. map c [0..<BLOCK_SIZE]) cs \<and>
     (\<forall>k. k \<notin> unat ` set bs \<longrightarrow> blk bm' k = blk bm k)"

lemma unat_image_iff [simp]: "unat (b :: u32) \<in> unat ` set bs \<longleftrightarrow> b \<in> set bs"
  by (auto simp flip: u32_eq_iff)

lemma place_spec:
  assumes "place bm cs os = (bm', bs)" "bm_inv bm" "list_all (data_block bm) os" "distinct os"
    "length cs \<le> length os + free_count bm"
  shows "\<exists>news. bs = take (length cs) os @ news \<and> placed bm bm' cs bs news"
  using assms
proof (induction bm cs os arbitrary: bm' bs rule: place.induct)
  case (1 bm os)
  then show ?case by (auto simp: placed_def)
next
  case (2 bm c cs b os)
  let ?bm1 = "write_block bm b (Some c)"
  from "2.prems"(1) obtain bs' where p: "place ?bm1 cs os = (bm', bs')" and bs: "bs = b # bs'"
    by (auto split: prod.splits)
  have b: "unat b < BLOCK_NUM" "unat b \<in> used bm"
    using "2.prems"(3) by (auto simp: data_block_def)
  have "list_all (data_block ?bm1) os" "bm_inv ?bm1"
    using "2.prems" by (auto simp: data_block_def list_all_iff)
  from "2.IH" [OF p this(2,1)] "2.prems" obtain news where
    news: "bs' = take (length cs) os @ news" and pl: "placed ?bm1 bm' cs bs' news"
    by auto
  have "b \<notin> set os"
    using "2.prems"(4) by simp
  moreover have "b \<notin> set news"
    using pl b by (auto simp: placed_def)
  ultimately have fresh: "b \<notin> set bs'"
    by (auto simp: news dest: in_set_takeD)
  have "blk bm' (unat b) = blk ?bm1 (unat b)"
    using pl fresh by (auto simp: placed_def)
  then have "placed bm bm' (c # cs) bs news"
    using pl fresh b by (auto simp: placed_def bs write_block_blk)
  with news show ?case by (auto simp: bs)
next
  case (3 bm c cs)
  obtain b bm1 where a: "alloc_block bm = (b, bm1)" by (cases "alloc_block bm")
  let ?bm2 = "write_block bm1 b (Some c)"
  from "3.prems"(1) a obtain bs' where p: "place ?bm2 cs [] = (bm', bs')" and bs: "bs = b # bs'"
    by (auto split: prod.splits)
  have "0 < free_count bm"
    using "3.prems"(5) by simp
  note fresh = alloc_block_fresh [OF "3.prems"(2) this a]
  have "bm_inv ?bm2" "length cs \<le> free_count ?bm2"
    using fresh "3.prems"(5) by auto
  with "3.IH" [OF a [symmetric] refl p] obtain news where
    news: "bs' = news" and pl: "placed ?bm2 bm' cs bs' news"
    by auto
  have nb: "b \<notin> set bs'"
    using pl fresh(5) by (auto simp: placed_def news)
  have "blk bm' (unat b) = blk ?bm2 (unat b)"
    using pl nb by (auto simp: placed_def)
  then have "placed bm bm' (c # cs) bs (b # news)"
    using pl nb fresh(2-7) by (auto simp: placed_def bs news write_block_blk)
  with news show ?case by (auto simp: bs)
qed

section \<open>The loops compute it\<close>

lemma upt_rec_less: "a < c \<Longrightarrow> [a..<c] = a # [Suc a..<c]"
  by (rule upt_conv_Cons)

lemma write_direct_place:
  assumes "a \<le> c" "c \<le> length ids" "m = min cur c"
    "place bm (map (buf_block p) [a..<m]) (map ((!) ids) [a..<min origin m]) = (bm', bs)"
  shows "write_direct [a..<c] cur origin p bm ids = (bm', take a ids @ bs @ drop (max a m) ids)"
  using assms
proof (induction "c - a" arbitrary: a bm ids bs)
  case 0
  then show ?case by (simp add: max_def)
next
  case (Suc n)
  then have ac: "a < c" by simp
  consider (old) "a < cur" "a < origin" | (new) "a < cur" "\<not> a < origin" | (stop) "\<not> a < cur"
    by blast
  then show ?case
  proof cases
    case old
    then have am: "a < m" "a < min origin m" using Suc.prems ac by auto
    with Suc.prems(4) obtain bs' where
      p: "place (write_block bm (ids ! a) (Some (buf_block p a))) (map (buf_block p) [Suc a..<m])
            (map ((!) ids) [Suc a..<min origin m]) = (bm', bs')" and bs: "bs = ids ! a # bs'"
      by (auto simp: upt_rec_less split: prod.splits)
    have "write_direct [Suc a..<c] cur origin p (write_block bm (ids ! a) (Some (buf_block p a))) ids
        = (bm', take (Suc a) ids @ bs' @ drop (max (Suc a) m) ids)"
      using Suc.hyps(2) Suc.prems ac by (intro Suc.hyps(1) p) auto
    moreover have "take (Suc a) ids = take a ids @ [ids ! a]" "max (Suc a) m = max a m"
      using ac Suc.prems(2) am by (auto simp: take_Suc_conv_app_nth)
    ultimately show ?thesis
      using old by (simp add: upt_rec_less [OF ac] bs)
  next
    case new
    then have am: "a < m" and none: "[a..<min origin m] = []" using Suc.prems ac by auto
    obtain b bm1 where a: "alloc_block bm = (b, bm1)" by (cases "alloc_block bm")
    let ?ids = "ids[a := b]"
    from Suc.prems(4) am none a obtain bs' where
      p: "place (write_block bm1 b (Some (buf_block p a))) (map (buf_block p) [Suc a..<m])
            (map ((!) ?ids) [Suc a..<min origin m]) = (bm', bs')" and bs: "bs = b # bs'"
      using new by (auto simp: upt_rec_less split: prod.splits)
    have "write_direct [Suc a..<c] cur origin p (write_block bm1 b (Some (buf_block p a))) ?ids
        = (bm', take (Suc a) ?ids @ bs' @ drop (max (Suc a) m) ?ids)"
      using Suc.hyps(2) Suc.prems ac by (intro Suc.hyps(1) p) auto
    moreover have "take (Suc a) ?ids = take a ids @ [b]" "max (Suc a) m = max a m"
      "drop (max a m) ?ids = drop (max a m) ids"
      using ac Suc.prems(2) am by (auto simp: take_Suc_conv_app_nth)
    ultimately show ?thesis
      using new ac Suc.prems(2) a by (simp add: upt_rec_less [OF ac] bs)
  next
    case stop
    with Suc.prems show ?thesis by (simp add: upt_rec_less [OF ac] max_def)
  qed
qed

lemma write_indirect_place:
  assumes "a \<le> c" "a \<le> cur" "NDIRECT \<le> a" "c - NDIRECT \<le> length ids" "m = min cur c"
    "place bm (map (buf_block p) [a..<m]) (map (\<lambda>i. ids ! (i - NDIRECT)) [a..<min origin m])
       = (bm', bs)"
    "ids' = take (a - NDIRECT) ids @ bs @ drop (max a m - NDIRECT) ids"
  shows "write_indirect [a..<c] cur origin p ind bm ids =
    (if cur < c then write_block bm' ind (Some (\<lambda>k. bytes_of_u32s ids' ! k)) else bm')"
  using assms
proof (induction "c - a" arbitrary: a bm ids bs)
  case 0
  then show ?case by (simp add: max_def)
next
  case (Suc n)
  then have ac: "a < c" by simp
  let ?k = "a - NDIRECT"
  have k: "Suc a - NDIRECT = Suc ?k" "?k < length ids"
    using Suc.prems(3,4) ac by auto
  consider (old) "a < cur" "a < origin" | (new) "a < cur" "\<not> a < origin" | (stop) "\<not> a < cur"
    by blast
  then show ?case
  proof cases
    case old
    then have am: "a < m" "a < min origin m" using Suc.prems ac by auto
    with Suc.prems(6) obtain bs' where
      p: "place (write_block bm (ids ! ?k) (Some (buf_block p a))) (map (buf_block p) [Suc a..<m])
            (map (\<lambda>i. ids ! (i - NDIRECT)) [Suc a..<min origin m]) = (bm', bs')"
      and bs: "bs = ids ! ?k # bs'"
      by (auto simp: upt_rec_less split: prod.splits)
    have "max (Suc a) m = max a m" "take (Suc ?k) ids = take ?k ids @ [ids ! ?k]"
      using am k by (auto simp: take_Suc_conv_app_nth)
    with Suc.prems(7) have ids': "ids' = take (Suc a - NDIRECT) ids @ bs' @ drop (max (Suc a) m - NDIRECT) ids"
      by (simp add: bs k)
    have "write_indirect [Suc a..<c] cur origin p ind
        (write_block bm (ids ! ?k) (Some (buf_block p a))) ids =
        (if cur < c then write_block bm' ind (Some (\<lambda>k. bytes_of_u32s ids' ! k)) else bm')"
      using Suc.hyps(2) Suc.prems ac old by (intro Suc.hyps(1) [OF _ _ _ _ _ _ p ids']) auto
    then show ?thesis
      using old by (simp add: upt_rec_less [OF ac])
  next
    case new
    then have am: "a < m" and none: "[a..<min origin m] = []" using Suc.prems ac by auto
    obtain b bm1 where a: "alloc_block bm = (b, bm1)" by (cases "alloc_block bm")
    let ?ids = "ids[?k := b]"
    from Suc.prems(6) am none a obtain bs' where
      p: "place (write_block bm1 b (Some (buf_block p a))) (map (buf_block p) [Suc a..<m])
            (map (\<lambda>i. ?ids ! (i - NDIRECT)) [Suc a..<min origin m]) = (bm', bs')"
      and bs: "bs = b # bs'"
      using new by (auto simp: upt_rec_less split: prod.splits)
    have "max (Suc a) m = max a m" "take (Suc ?k) ?ids = take ?k ids @ [b]"
      "drop (max a m - NDIRECT) ?ids = drop (max a m - NDIRECT) ids"
      using am k Suc.prems(3) by (auto simp: take_Suc_conv_app_nth)
    with Suc.prems(7) have ids':
      "ids' = take (Suc a - NDIRECT) ?ids @ bs' @ drop (max (Suc a) m - NDIRECT) ?ids"
      by (simp add: bs k)
    have "write_indirect [Suc a..<c] cur origin p ind
        (write_block bm1 b (Some (buf_block p a))) ?ids =
        (if cur < c then write_block bm' ind (Some (\<lambda>k. bytes_of_u32s ids' ! k)) else bm')"
      using Suc.hyps(2) Suc.prems ac new by (intro Suc.hyps(1) [OF _ _ _ _ _ _ p ids']) auto
    then show ?thesis
      using new k a by (simp add: upt_rec_less [OF ac])
  next
    case stop
    then have [simp]: "a = cur" using Suc.prems(2) by simp
    with Suc.prems ac show ?thesis by (simp add: upt_rec_less [of cur c])
  qed
qed

end
