(* ===== verification/File_Update.thy ===== *)
theory File_Update
  imports File_Write
begin

text \<open>
  From the loops to whole files: what \<open>write_file\<close> has done to the disk when it stores the inode
  (\<open>rewritten\<close>), and that storing such an inode keeps the invariant of the whole inode layer and
  changes no other file (\<open>commit_inode\<close>).
\<close>

section \<open>What a file's view depends on\<close>

lemma owned_cong:
  assumes "\<forall>b\<in>set (owned bm x). blk bm' (unat b) = blk bm (unat b)"
  shows "owned bm' x = owned bm x" "file_data bm' x = file_data bm x"
proof -
  have ids: "data_ids bm' x = data_ids bm x"
  proof (cases "nblk (unat (isize x)) > NDIRECT")
    case True
    then have "blk bm' (unat (iblocks x ! NDIRECT)) = blk bm (unat (iblocks x ! NDIRECT))"
      using assms by (simp add: owned_def)
    then show ?thesis by (simp add: data_ids_def ind_ids_def Let_def)
  qed (simp add: data_ids_def Let_def)
  then show "owned bm' x = owned bm x"
    by (simp add: owned_def)
  have "contents bm' (data_ids bm x) = contents bm (data_ids bm x)"
    using assms by (simp add: contents_def owned_def cong: map_cong)
  then show "file_data bm' x = file_data bm x"
    by (simp add: file_data_def ids)
qed

lemma inode_at_cong: "blk bm' (iblk i) = blk bm (iblk i) \<Longrightarrow> inode_at bm' i = inode_at bm i"
  by (simp add: inode_at_def)

definition rewritten :: "block_manager \<Rightarrow> block_manager \<Rightarrow> inode \<Rightarrow> inode \<Rightarrow> bool" where
  "rewritten bm bm' x x' \<longleftrightarrow>
     bm_inv bm' \<and> length (iblocks x') = NDIRECT + 1 \<and> inode_ok bm' x' \<and> used bm \<subseteq> used bm' \<and>
     (\<forall>b\<in>set (owned bm' x'). b \<in> set (owned bm x) \<or> unat b \<notin> used bm) \<and>
     (\<forall>k. k \<notin> unat ` set (owned bm' x') \<longrightarrow> blk bm' k = blk bm k)"

lemma rewritten_meta:
  assumes "rewritten bm bm' x x'" "k < DATA_START"
  shows "blk bm' k = blk bm k"
proof -
  have "k \<notin> unat ` set (owned bm' x')"
    using assms by (auto simp: rewritten_def inode_ok_def list_all_iff data_block_def)
  then show ?thesis
    using assms(1) by (simp add: rewritten_def)
qed

section \<open>Storing the inode of a rewritten file\<close>

lemma commit_inode:
  assumes inv: "im_inv bm" and i: "unat inum < INODE_NUM"
    and x: "if live bm (unat inum) then x = inode_at bm (unat inum) else owned bm x = []"
    and rw: "rewritten bm bm' x x'" and t: "itype x' \<noteq> 0"
  obtains bm'' where "put_inode (im\<lparr>im_bm := bm'\<rparr>) inum (Some x') = Inr (im\<lparr>im_bm := bm''\<rparr>)"
    "im_inv bm''" "block_bitmap bm'' = block_bitmap bm'"
    "inode_at bm'' (unat inum) = x'" "file_data bm'' x' = file_data bm' x'"
    "owned bm'' x' = owned bm' x'"
    "\<And>j. j < INODE_NUM \<Longrightarrow> j \<noteq> unat inum \<Longrightarrow> inode_at bm'' j = inode_at bm j"
    "\<And>j. live bm j \<Longrightarrow> j \<noteq> unat inum \<Longrightarrow> file_data bm'' (inode_at bm j) = file_data bm (inode_at bm j)"
    "\<And>j. live bm j \<Longrightarrow> j \<noteq> unat inum \<Longrightarrow> owned bm'' (inode_at bm j) = owned bm (inode_at bm j)"
proof -
  let ?i = "unat inum"
  have bm': "bm_inv bm'" and len: "length (iblocks x') = NDIRECT + 1" and ok': "inode_ok bm' x'"
    using rw by (auto simp: rewritten_def)
  obtain bm'' where put: "put_inode (im\<lparr>im_bm := bm'\<rparr>) inum (Some x') = Inr (im\<lparr>im_bm := bm''\<rparr>)"
    and bm'': "bm_inv bm''" and bitmap: "block_bitmap bm'' = block_bitmap bm'"
    and frame: "\<And>b. b \<noteq> iblk ?i \<Longrightarrow> blk bm'' b = blk bm' b"
    and at_i: "inode_at bm'' ?i = x'"
    and at: "\<And>j. j < INODE_NUM \<Longrightarrow> j \<noteq> ?i \<Longrightarrow> inode_at bm'' j = inode_at bm' j"
    using put_inode_spec [of "im\<lparr>im_bm := bm'\<rparr>" inum x'] bm' i len by auto
  have data_frame: "blk bm'' (unat b) = blk bm' (unat b)" if "DATA_START \<le> unat b" for b :: u32
    using frame [of "unat b"] iblk_bound [OF i] that by auto
  have at': "inode_at bm'' j = inode_at bm j" if "j < INODE_NUM" "j \<noteq> ?i" for j
    using at [OF that] inode_at_cong [OF rewritten_meta [OF rw iblk_bound [OF that(1)]]]
    by (rule trans)
  have x': "owned bm'' x' = owned bm' x'" "file_data bm'' x' = file_data bm' x'"
    using ok' by (auto intro!: owned_cong data_frame simp: inode_ok_def list_all_iff data_block_def)
  have other: "inode_ok bm (inode_at bm j)"
    "\<forall>b\<in>set (owned bm (inode_at bm j)). blk bm'' (unat b) = blk bm (unat b)"
    "set (owned bm (inode_at bm j)) \<inter> set (owned bm' x') = {}"
    if j: "live bm j" "j \<noteq> ?i" for j
  proof -
    show ok: "inode_ok bm (inode_at bm j)"
      using inv j by (simp add: im_inv_def)
    have "set (owned bm (inode_at bm j)) \<inter> set (owned bm x) = {}"
    proof (cases "live bm ?i")
      case True
      with inv j x show ?thesis by (auto simp: im_inv_def)
    qed (use x in simp)
    then show dis: "set (owned bm (inode_at bm j)) \<inter> set (owned bm' x') = {}"
      using rw ok by (fastforce simp: rewritten_def inode_ok_def list_all_iff data_block_def)
    show "\<forall>b\<in>set (owned bm (inode_at bm j)). blk bm'' (unat b) = blk bm (unat b)"
    proof
      fix b assume b: "b \<in> set (owned bm (inode_at bm j))"
      then have "b \<notin> set (owned bm' x')" using dis by blast
      then have "blk bm' (unat b) = blk bm (unat b)"
        using rw by (simp add: rewritten_def)
      moreover have "DATA_START \<le> unat b"
        using ok b by (auto simp: inode_ok_def list_all_iff data_block_def)
      ultimately show "blk bm'' (unat b) = blk bm (unat b)"
        by (simp add: data_frame)
    qed
  qed
  note same = owned_cong [OF other(2)]
  have live'': "live bm'' j \<longleftrightarrow> j = ?i \<or> live bm j" if "j < INODE_NUM" for j
    using at_i at' that t i by (cases "j = ?i") (auto simp: live_def)
  have own'': "owned bm'' (inode_at bm'' j) = (if j = ?i then owned bm' x' else owned bm (inode_at bm j))"
    if "live bm'' j" for j
  proof (cases "j = ?i")
    case True
    then show ?thesis using at_i x' by simp
  next
    case False
    then have "live bm j" using that live'' by (auto simp: live_def)
    then show ?thesis using False at' same by (simp add: live_def)
  qed
  have mono: "data_block bm'' b" if "data_block bm b \<or> data_block bm' b" for b
    using that rw bitmap by (auto simp: data_block_def rewritten_def)
  have "inode_ok bm'' (inode_at bm'' j)" if "live bm'' j" for j
  proof (cases "j = ?i")
    case True
    then show ?thesis
      using at_i ok' x' mono by (auto simp: inode_ok_def list_all_iff)
  next
    case False
    then have "live bm j" using that live'' by (auto simp: live_def)
    then show ?thesis
      using False at' other(1) same mono by (auto simp: inode_ok_def list_all_iff live_def)
  qed
  moreover have "set (owned bm'' (inode_at bm'' j)) \<inter> set (owned bm'' (inode_at bm'' k)) = {}"
    if "live bm'' j" "live bm'' k" "j \<noteq> k" for j k
  proof -
    have "live bm j \<or> j = ?i" "live bm k \<or> k = ?i"
      using that live'' by (auto simp: live_def)
    moreover have "set (owned bm (inode_at bm j)) \<inter> set (owned bm (inode_at bm k)) = {}"
      if "live bm j" "live bm k"
      using inv that \<open>j \<noteq> k\<close> by (simp add: im_inv_def)
    ultimately show ?thesis
      using that own'' other(3) [of j] other(3) [of k] by (auto simp: Int_commute)
  qed
  ultimately have "im_inv bm''"
    using bm'' by (auto simp: im_inv_def)
  then show ?thesis
    using that [OF put _ bitmap] at_i x' at' same by simp
qed

section \<open>The contents of a run of blocks\<close>

lemma concat_buf_blocks:
  "concat (map (\<lambda>i. map (buf_block p i) [0..<BLOCK_SIZE]) [0..<m]) = map p [0..<m * BLOCK_SIZE]"
proof (induction m)
  case (Suc m)
  have "map (buf_block p m) [0..<BLOCK_SIZE] = map p [m * BLOCK_SIZE..<Suc m * BLOCK_SIZE]"
    by (rule nth_equalityI) (simp_all add: buf_block_def)
  moreover have "[0..<Suc m * BLOCK_SIZE] = [0..<m * BLOCK_SIZE] @ [m * BLOCK_SIZE..<Suc m * BLOCK_SIZE]"
    using upt_add_eq_append [of 0 "m * BLOCK_SIZE" BLOCK_SIZE] by (simp add: add.commute)
  ultimately show ?case
    using Suc by simp
qed simp

lemma contents_chunks:
  assumes "map (\<lambda>b. blk bm (unat b)) bs = map (\<lambda>c. map c [0..<BLOCK_SIZE]) (map (buf_block p) [0..<m])"
    "n \<le> m * BLOCK_SIZE"
  shows "take n (contents bm bs) = map p [0..<n]"
proof -
  have "contents bm bs = map p [0..<m * BLOCK_SIZE]"
    using assms(1) concat_buf_blocks [of p m] by (simp add: contents_def o_def)
  then show ?thesis
    using assms(2) by (simp add: take_map)
qed

end
