(* ===== verification/File_Blocks.thy ===== *)
theory File_Blocks
  imports File_Update
begin

text \<open>
  The block part of \<open>write_file\<close>: both loops and the set-up of the indirect block between them, from
  an inode with its old blocks to an inode whose contents are the source buffer
  (\<open>write_blocks_small\<close> for files without, \<open>write_blocks_large\<close> for files with an indirect block).
\<close>

section \<open>The indirect part of a write\<close>

lemma write_indirect_spec:
  assumes inv: "bm_inv bm" and ib: "data_block bm ib"
    and olds: "list_all (data_block bm) olds" "distinct (ib # olds)"
    and ind: "length ind = NINDIRECT" "olds = take (min origin cur - NDIRECT) ind"
    and cur: "NDIRECT < cur" "cur < MAXFILE"
    and free: "cur - NDIRECT \<le> length olds + free_count bm"
  obtains bm' bs news where
    "write_indirect [NDIRECT..<NINDIRECT + NDIRECT] cur origin p ib bm ind = bm'"
    "bm_inv bm'" "used bm' = used bm \<union> unat ` set news" "bs = olds @ news"
    "length bs = cur - NDIRECT" "distinct bs" "ib \<notin> set bs"
    "\<forall>b\<in>set news. unat b \<notin> used bm \<and> DATA_START \<le> unat b \<and> unat b < BLOCK_NUM"
    "take (cur - NDIRECT) (u32s_of_bytes NINDIRECT (blk bm' (unat ib))) = bs"
    "map (\<lambda>b. blk bm' (unat b)) bs = map (\<lambda>c. map c [0..<BLOCK_SIZE]) (map (buf_block p) [NDIRECT..<cur])"
    "\<And>k. k \<notin> unat ` set (ib # bs) \<Longrightarrow> blk bm' k = blk bm k"
    "free_count bm' = free_count bm - length news"
proof -
  let ?m = "min cur (NINDIRECT + NDIRECT)"
  have m: "?m = cur"
    using cur by (simp add: layout_values)
  have olds_map: "map (\<lambda>i. ind ! (i - NDIRECT)) [NDIRECT..<min origin ?m] = olds"
    unfolding ind(2) m
    using ind(1) cur by (intro map_nth_offset) (simp add: layout_values)
  obtain bm1 bs where pl: "place bm (map (buf_block p) [NDIRECT..<?m]) olds = (bm1, bs)"
    by (cases "place bm (map (buf_block p) [NDIRECT..<?m]) olds")
  have lo: "length olds \<le> cur - NDIRECT"
    by (simp add: ind(2))
  have "distinct olds" "length (map (buf_block p) [NDIRECT..<?m]) \<le> length olds + free_count bm"
    using olds(2) free by (simp_all add: m)
  from place_spec [OF pl inv olds(1) this] lo obtain news where
    bs: "bs = olds @ news" and placed: "placed bm bm1 (map (buf_block p) [NDIRECT..<cur]) bs news"
    by (auto simp: m)
  define ids where "ids = bs @ drop (cur - NDIRECT) ind"
  let ?bm' = "write_block bm1 ib (Some (\<lambda>k. bytes_of_u32s ids ! k))"
  have lenbs: "length bs = cur - NDIRECT"
    using placed by (simp add: placed_def)
  have run: "write_indirect [NDIRECT..<NINDIRECT + NDIRECT] cur origin p ib bm ind = ?bm'"
  proof -
    have ids: "ids = take (NDIRECT - NDIRECT) ind @ bs @ drop (max NDIRECT ?m - NDIRECT) ind"
      using cur by (simp add: m max_def ids_def)
    have pl': "place bm (map (buf_block p) [NDIRECT..<?m])
        (map (\<lambda>i. ind ! (i - NDIRECT)) [NDIRECT..<min origin ?m]) = (bm1, bs)"
      by (simp only: olds_map pl)
    have "write_indirect [NDIRECT..<NINDIRECT + NDIRECT] cur origin p ib bm ind =
        (if cur < NINDIRECT + NDIRECT
         then write_block bm1 ib (Some (\<lambda>k. bytes_of_u32s ids ! k)) else bm1)"
    proof (rule write_indirect_place [where m = ?m, OF _ _ _ _ refl pl' ids])
      show "NDIRECT \<le> cur" "NDIRECT \<le> NDIRECT" "NDIRECT \<le> NINDIRECT + NDIRECT"
        using cur by simp_all
      show "NINDIRECT + NDIRECT - NDIRECT \<le> length ind"
        using ind(1) by simp
    qed
    moreover have "cur < NINDIRECT + NDIRECT"
      using cur by (simp add: layout_values)
    ultimately show ?thesis by simp
  qed
  have ib': "unat ib < BLOCK_NUM" "ib \<notin> set bs"
    using ib olds(2) placed by (auto simp: data_block_def bs placed_def)
  have lenids: "length ids = NINDIRECT"
    using lenbs ind(1) cur by (simp add: layout_values ids_def)
  have "map (\<lambda>k. bytes_of_u32s ids ! k) [0..<BLOCK_SIZE] = bytes_of_u32s ids"
    using map_nth [of "bytes_of_u32s ids"] lenids by (simp add: layout_values)
  then have blk': "blk ?bm' = (blk bm1)(unat ib := bytes_of_u32s ids)"
    using ib' by (simp add: write_block_blk)
  show ?thesis
  proof (rule that [OF run _ _ bs lenbs _ ib'(2)])
    show "take (cur - NDIRECT) (u32s_of_bytes NINDIRECT (blk ?bm' (unat ib))) = bs"
    proof -
      have "u32s_of_bytes NINDIRECT (blk ?bm' (unat ib)) = ids"
        using lenids by (simp add: blk')
      moreover have "take (cur - NDIRECT) ids = bs"
        using lenbs by (simp add: ids_def)
      ultimately show ?thesis by simp
    qed
    have "map (\<lambda>b. blk ?bm' (unat b)) bs = map (\<lambda>b. blk bm1 (unat b)) bs"
      using ib'(2) by (auto simp: blk' u32_eq_iff [symmetric])
    also have "\<dots> = map (\<lambda>c. map c [0..<BLOCK_SIZE]) (map (buf_block p) [NDIRECT..<cur])"
      using placed unfolding placed_def by blast
    finally show "map (\<lambda>b. blk ?bm' (unat b)) bs =
        map (\<lambda>c. map c [0..<BLOCK_SIZE]) (map (buf_block p) [NDIRECT..<cur])" .
  qed (use placed in \<open>auto simp: placed_def blk'\<close>)
qed

section \<open>The block part of a write\<close>

text \<open>The number of blocks a file of \<open>k\<close> data blocks occupies: from \<open>NDIRECT+1\<close> on, one more for the
  indirect block.\<close>

definition nown :: "nat \<Rightarrow> nat" where
  "nown k = (if k > NDIRECT then Suc k else k)"

definition write_blocks ::
  "nat \<Rightarrow> nat \<Rightarrow> (nat \<Rightarrow> byte) \<Rightarrow> block_manager \<Rightarrow> u32 list \<Rightarrow> (block_manager \<times> u32 list) res" where
  "write_blocks cur origin p bm ids =
     (case write_direct [0..<NDIRECT] cur origin p bm ids of
        (bm1, ids1) \<Rightarrow> write_indirect_part cur origin p bm1 ids1)"

text \<open>What the block part of a write leaves behind, for the old inode \<open>x\<close> and the inode \<open>x'\<close> with the
  new block list and size.\<close>

definition written ::
  "block_manager \<Rightarrow> block_manager \<Rightarrow> inode \<Rightarrow> inode \<Rightarrow> (nat \<Rightarrow> byte) \<Rightarrow> nat \<Rightarrow> bool" where
  "written bm bm' x x' p n \<longleftrightarrow>
     rewritten bm bm' x x' \<and> file_data bm' x' = map p [0..<n] \<and>
     used bm' = used bm \<union> unat ` set (owned bm' x') \<and>
     free_count bm' = free_count bm - (nown (nblk n) - nown (nblk (unat (isize x))))"

lemma file_size_bounds:
  assumes "n \<le> MAXBYTES"
  shows "nblk n < MAXFILE" "unat (of_nat n :: u32) = n"
  using assms nblk_le [of n "MAXFILE - 1"]
  by (simp_all add: MAXBYTES_value layout_values unat_of_nat_u32)

lemma direct_ids:
  assumes "inode_ok bm x" "length (iblocks x) = NDIRECT + 1" "m \<le> nblk (unat (isize x))" "m \<le> NDIRECT"
  shows "set (take m (iblocks x)) \<subseteq> set (owned bm x)" "list_all (data_block bm) (take m (iblocks x))"
    "distinct (take m (iblocks x))"
proof -
  let ?n = "nblk (unat (isize x))"
  have t: "take m (iblocks x) = take m (owned bm x)"
    using assms by (auto simp: owned_def data_ids_def Let_def min_def)
  then show "set (take m (iblocks x)) \<subseteq> set (owned bm x)" "list_all (data_block bm) (take m (iblocks x))"
    "distinct (take m (iblocks x))"
    using assms(1) by (auto simp: inode_ok_def list_all_iff dest: in_set_takeD)
qed

lemma direct_run:
  assumes inv: "bm_inv bm" and ok: "inode_ok bm x" and len: "length (iblocks x) = NDIRECT + 1"
    and origin: "origin = nblk (unat (isize x))" and m: "m = min cur NDIRECT"
    and free: "m \<le> origin + free_count bm"
  obtains bm1 bs news where
    "write_direct [0..<NDIRECT] cur origin p bm (iblocks x) = (bm1, bs @ drop m (iblocks x))"
    "bs = take (min origin m) (iblocks x) @ news"
    "placed bm bm1 (map (buf_block p) [0..<m]) bs news"
proof -
  have olds: "map ((!) (iblocks x)) [0..<min origin m] = take (min origin m) (iblocks x)"
    using m len by (intro map_nth_prefix) simp
  obtain bm1 bs where pl: "place bm (map (buf_block p) [0..<m]) (take (min origin m) (iblocks x)) = (bm1, bs)"
    by (cases "place bm (map (buf_block p) [0..<m]) (take (min origin m) (iblocks x))")
  have run: "write_direct [0..<NDIRECT] cur origin p bm (iblocks x) =
      (bm1, take 0 (iblocks x) @ bs @ drop (max 0 m) (iblocks x))"
    using len pl by (intro write_direct_place) (simp_all add: m olds [unfolded m])
  have "list_all (data_block bm) (take (min origin m) (iblocks x))"
    "distinct (take (min origin m) (iblocks x))"
    using direct_ids [OF ok len, of "min origin m"] origin m by auto
  then have "\<exists>news. bs = take (length (map (buf_block p) [0..<m])) (take (min origin m) (iblocks x)) @ news
      \<and> placed bm bm1 (map (buf_block p) [0..<m]) bs news"
    using len free m by (intro place_spec [OF pl inv]) (auto simp: min_def)
  then obtain news where "bs = take (min origin m) (iblocks x) @ news"
    "placed bm bm1 (map (buf_block p) [0..<m]) bs news"
    by (auto simp: min.absorb2)
  with that run show ?thesis by simp
qed

lemma writtenI:
  assumes "bm_inv bm'" "length (iblocks x') = NDIRECT + 1" "isize x' = of_nat n" "n \<le> MAXBYTES"
    "owned bm' x' = os" "distinct os" "list_all (data_block bm') os"
    "used bm' = used bm \<union> unat ` set os"
    "\<forall>b\<in>set os. b \<in> set (owned bm x) \<or> unat b \<notin> used bm"
    "\<And>k. k \<notin> unat ` set os \<Longrightarrow> blk bm' k = blk bm k"
    "map (\<lambda>b. blk bm' (unat b)) (data_ids bm' x') =
       map (\<lambda>c. map c [0..<BLOCK_SIZE]) (map (buf_block p) [0..<nblk n])"
    "free_count bm' = free_count bm - (nown (nblk n) - nown (nblk (unat (isize x))))"
  shows "written bm bm' x x' p n"
proof -
  have n: "unat (isize x') = n"
    using assms(3,4) file_size_bounds by simp
  have "file_data bm' x' = map p [0..<n]"
    unfolding file_data_def n using assms(11) nblk_covers by (rule contents_chunks)
  then show ?thesis
    using assms n by (auto simp: written_def rewritten_def inode_ok_def)
qed

lemma write_blocks_small:
  assumes inv: "bm_inv bm" and ok: "inode_ok bm x" and len: "length (iblocks x) = NDIRECT + 1"
    and n: "n \<le> MAXBYTES" and small: "nblk n \<le> NDIRECT"
    and free: "nblk n \<le> nblk (unat (isize x)) + free_count bm"
  obtains bm' ids' where "write_blocks (nblk n) (nblk (unat (isize x))) p bm (iblocks x) = Inr (bm', ids')"
    "written bm bm' x (x\<lparr>iblocks := ids', isize := of_nat n\<rparr>) p n"
proof -
  define cur where "cur = nblk n"
  define origin where "origin = nblk (unat (isize x))"
  have m: "min cur NDIRECT = cur" using small by (simp add: cur_def)
  obtain bm1 bs news where
    run: "write_direct [0..<NDIRECT] cur origin p bm (iblocks x) = (bm1, bs @ drop cur (iblocks x))"
    and bs: "bs = take (min origin cur) (iblocks x) @ news"
    and pl: "placed bm bm1 (map (buf_block p) [0..<cur]) bs news"
    using direct_run [OF inv ok len origin_def refl, where cur = cur and p = p, unfolded m] free
    unfolding cur_def origin_def by blast
  let ?x' = "x\<lparr>iblocks := bs @ drop cur (iblocks x), isize := of_nat n\<rparr>"
  have lb: "length bs = cur"
    using pl by (simp add: placed_def)
  have own: "data_ids bm1 ?x' = bs" "owned bm1 ?x' = bs"
    using lb small file_size_bounds [OF n]
    by (auto simp: owned_def data_ids_def Let_def cur_def)
  have old: "set (take (min origin cur) (iblocks x)) \<subseteq> set (owned bm x)"
    "list_all (data_block bm) (take (min origin cur) (iblocks x))"
    using direct_ids [OF ok len, of "min origin cur"] small by (auto simp: origin_def cur_def)
  have "min origin cur + length news = cur"
    using lb len small by (simp add: bs cur_def min.absorb2)
  then have "length news = nown cur - nown origin"
    using small by (auto simp: nown_def cur_def min_def split: if_splits)
  then have count: "free_count bm1 = free_count bm - (nown cur - nown origin)"
    using pl by (simp add: placed_def)
  have "written bm bm1 x ?x' p n"
  proof (rule writtenI [where os = bs])
    show "bm_inv bm1" "distinct bs"
      using pl by (simp_all add: placed_def)
    have used: "used bm1 = used bm \<union> unat ` set news"
      using pl by (simp add: placed_def)
    moreover have "unat ` set (take (min origin cur) (iblocks x)) \<subseteq> used bm"
      using old(2) by (auto simp: list_all_iff data_block_def)
    ultimately show "used bm1 = used bm \<union> unat ` set bs"
      unfolding bs set_append image_Un by blast
    have "list_all (data_block bm1) news"
      using pl by (auto simp: placed_def list_all_iff data_block_def)
    moreover have "list_all (data_block bm1) (take (min origin cur) (iblocks x))"
      using old(2) used by (auto simp: list_all_iff data_block_def)
    ultimately show "list_all (data_block bm1) bs"
      by (simp add: bs)
    show "\<forall>b\<in>set bs. b \<in> set (owned bm x) \<or> unat b \<notin> used bm"
      using pl old(1) by (auto simp: placed_def bs)
    show "blk bm1 k = blk bm k" if "k \<notin> unat ` set bs" for k
      using pl that unfolding placed_def by blast
    show "map (\<lambda>b. blk bm1 (unat b)) (data_ids bm1 ?x') =
        map (\<lambda>c. map c [0..<BLOCK_SIZE]) (map (buf_block p) [0..<nblk n])"
      using pl by (simp only: own [unfolded cur_def] placed_def cur_def)
  qed (use n lb len small count own in \<open>simp_all add: cur_def origin_def\<close>)
  moreover have "write_blocks cur origin p bm (iblocks x) = Inr (bm1, bs @ drop cur (iblocks x))"
    using run small by (simp add: write_blocks_def write_indirect_part_def cur_def)
  ultimately show ?thesis
    using that by (simp add: cur_def origin_def)
qed

text \<open>The state in which the second loop starts: \<open>ib\<close> is the indirect block, \<open>ind\<close> the array in memory,
  \<open>olds\<close> the entries that name blocks of the file, \<open>bs\<close> the direct blocks already written.\<close>

definition indirect_ready ::
  "block_manager \<Rightarrow> block_manager \<Rightarrow> inode \<Rightarrow> u32 list \<Rightarrow> block_manager \<Rightarrow> u32 \<Rightarrow> u32 list \<Rightarrow> bool" where
  "indirect_ready bm bm1 x bs bm2 ib olds \<longleftrightarrow>
     bm_inv bm2 \<and> data_block bm2 ib \<and> list_all (data_block bm2) olds \<and>
     distinct (ib # olds) \<and> set (ib # olds) \<inter> set bs = {} \<and>
     set (ib # olds) \<subseteq> set (owned bm x) \<union> {b. unat b \<notin> used bm} \<and>
     used bm2 = insert (unat ib) (used bm1) \<and> blk bm2 = blk bm1 \<and>
     free_count bm2 = free_count bm1 - (if nblk (unat (isize x)) > NDIRECT then 0 else 1)"

lemma indirect_setup_old:
  assumes ok: "inode_ok bm x" and len: "length (iblocks x) = NDIRECT + 1"
    and origin: "origin = nblk (unat (isize x))" "NDIRECT < origin" and cur: "NDIRECT < cur" "cur < MAXFILE"
    and bs: "bs = take NDIRECT (iblocks x)" and pl: "placed bm bm1 cs bs []"
  shows "write_indirect_part cur origin p bm1 (bs @ drop NDIRECT (iblocks x)) =
      Inr (write_indirect [NDIRECT..<NINDIRECT + NDIRECT] cur origin p (iblocks x ! NDIRECT) bm1 (ind_ids bm x),
           bs @ [iblocks x ! NDIRECT])"
    "indirect_ready bm bm1 x bs bm1 (iblocks x ! NDIRECT) (take (min origin cur - NDIRECT) (ind_ids bm x))"
proof -
  let ?ib = "iblocks x ! NDIRECT" and ?olds = "take (min origin cur - NDIRECT) (ind_ids bm x)"
  have own: "owned bm x = bs @ take (origin - NDIRECT) (ind_ids bm x) @ [?ib]"
    using origin by (simp add: owned_def data_ids_def Let_def bs)
  have sub: "set ?olds \<subseteq> set (take (origin - NDIRECT) (ind_ids bm x))"
    by (rule set_take_subset_set_take) simp
  have dis: "distinct (owned bm x)" and data: "list_all (data_block bm) (owned bm x)"
    using ok by (auto simp: inode_ok_def)
  have pl': "bm_inv bm1" "used bm1 = used bm" "free_count bm1 = free_count bm"
    "\<And>k. k \<notin> unat ` set bs \<Longrightarrow> blk bm1 k = blk bm k"
    using pl by (simp_all add: placed_def)
  have "?ib \<notin> set bs" "unat ?ib < BLOCK_NUM"
    using dis data by (auto simp: own data_block_def)
  then have "read_block bm1 ?ib Uninit = Filled (blk bm (unat ?ib))"
    using pl'(4) [of "unat ?ib"] by (simp add: read_block_filled)
  moreover have "bs @ drop NDIRECT (iblocks x) = iblocks x" "iblocks x = bs @ [?ib]"
    using len id_take_nth_drop [of NDIRECT "iblocks x"] by (simp_all add: bs)
  ultimately show "write_indirect_part cur origin p bm1 (bs @ drop NDIRECT (iblocks x)) =
      Inr (write_indirect [NDIRECT..<NINDIRECT + NDIRECT] cur origin p ?ib bm1 (ind_ids bm x), bs @ [?ib])"
    using cur origin(2) by (simp add: write_indirect_part_def ind_ids_def)
  have "distinct ?olds"
  proof -
    have "?olds = take (min origin cur - NDIRECT) (take (origin - NDIRECT) (ind_ids bm x))"
      by (simp add: min_def)
    then show ?thesis
      using dis distinct_take [of "take (origin - NDIRECT) (ind_ids bm x)"] by (simp only: own distinct_append)
  qed
  then show "indirect_ready bm bm1 x bs bm1 ?ib ?olds"
    using sub dis data pl' origin
    by (auto simp: indirect_ready_def own list_all_iff data_block_def)
qed

lemma indirect_setup_new:
  assumes inv: "bm_inv bm" and bs1: "list_all (data_block bm1) bs"
    and len: "length (iblocks x) = NDIRECT + 1" "length bs = NDIRECT"
    and origin: "origin = nblk (unat (isize x))" "origin \<le> NDIRECT" and cur: "NDIRECT < cur"
    and bm1: "bm_inv bm1" "used bm \<subseteq> used bm1" and free: "0 < free_count bm1"
  obtains bm2 ib where
    "write_indirect_part cur origin p bm1 (bs @ drop NDIRECT (iblocks x)) =
      Inr (write_indirect [NDIRECT..<NINDIRECT + NDIRECT] cur origin p ib bm2 (replicate NINDIRECT 0),
           bs @ [ib])"
    "indirect_ready bm bm1 x bs bm2 ib []"
proof -
  obtain ib bm2 where a: "alloc_block bm1 = (ib, bm2)" by (cases "alloc_block bm1")
  note fresh = alloc_block_fresh [OF bm1(1) free a]
  have "drop NDIRECT (iblocks x) = [iblocks x ! NDIRECT]"
    using len by (simp add: list_eq_iff_nth_eq)
  then have "(bs @ drop NDIRECT (iblocks x))[NDIRECT := ib] = bs @ [ib]"
    using len by (simp add: list_update_append)
  then have run: "write_indirect_part cur origin p bm1 (bs @ drop NDIRECT (iblocks x)) =
      Inr (write_indirect [NDIRECT..<NINDIRECT + NDIRECT] cur origin p ib bm2 (replicate NINDIRECT 0),
           bs @ [ib])"
    using cur origin a len by (simp add: write_indirect_part_def nth_append)
  have "ib \<notin> set bs"
    using bs1 fresh(4) by (auto simp: list_all_iff data_block_def)
  then have "indirect_ready bm bm1 x bs bm2 ib []"
    using fresh bm1 origin by (auto simp: indirect_ready_def data_block_def)
  with run that show ?thesis by blast
qed

text \<open>From a ready state to the finished block part.\<close>

lemma write_large_finish:
  assumes ready: "indirect_ready bm bm1 x bs bm2 ib olds"
    and n: "n \<le> MAXBYTES" and cur: "cur = nblk n" "NDIRECT < cur" and origin: "origin = nblk (unat (isize x))"
    and ind: "length ind = NINDIRECT" "olds = take (min origin cur - NDIRECT) ind"
    and pl: "placed bm bm1 (map (buf_block p) [0..<NDIRECT]) bs news1"
    and bs1: "list_all (data_block bm1) bs" "\<forall>b\<in>set bs. b \<in> set (owned bm x) \<or> unat b \<notin> used bm"
    and news1: "length news1 = NDIRECT - origin" "set news1 \<subseteq> set bs"
    and free: "nown cur \<le> nown origin + free_count bm"
    and bm': "bm' = write_indirect [NDIRECT..<NINDIRECT + NDIRECT] cur origin p ib bm2 ind"
  shows "written bm bm' x (x\<lparr>iblocks := bs @ [ib], isize := of_nat n\<rparr>) p n"
proof -
  let ?x' = "x\<lparr>iblocks := bs @ [ib], isize := of_nat n\<rparr>"
  have rd: "bm_inv bm2" "data_block bm2 ib" "list_all (data_block bm2) olds" "distinct (ib # olds)"
    "set (ib # olds) \<inter> set bs = {}" "set (ib # olds) \<subseteq> set (owned bm x) \<union> {b. unat b \<notin> used bm}"
    "used bm2 = insert (unat ib) (used bm1)" "blk bm2 = blk bm1"
    "free_count bm2 = free_count bm1 - (if origin > NDIRECT then 0 else 1)"
    using ready by (simp_all add: indirect_ready_def origin)
  have p1: "length bs = NDIRECT" "distinct bs" "used bm1 = used bm \<union> unat ` set news1" "used bm \<subseteq> used bm1"
    "free_count bm1 = free_count bm - length news1" "unat ` set bs \<subseteq> used bm1"
    "map (\<lambda>b. blk bm1 (unat b)) bs = map (\<lambda>c. map c [0..<BLOCK_SIZE]) (map (buf_block p) [0..<NDIRECT])"
    "\<And>k. k \<notin> unat ` set bs \<Longrightarrow> blk bm1 k = blk bm k" "unat ` set news1 \<inter> used bm = {}"
    using pl bs1(1) by (auto simp: placed_def list_all_iff data_block_def)
  have curM: "cur < MAXFILE" using file_size_bounds [OF n] by (simp add: cur)
  have lo: "length olds = min origin cur - NDIRECT"
    using ind curM by (auto simp: layout_values)
  have room: "cur - NDIRECT \<le> length olds + free_count bm2"
    using free news1 cur by (auto simp: rd(9) p1(5) lo nown_def split: if_splits)
  obtain bm3 bs2 news where bm3: "write_indirect [NDIRECT..<NINDIRECT + NDIRECT] cur origin p ib bm2 ind = bm3"
    and loop: "bm_inv bm3" "used bm3 = used bm2 \<union> unat ` set news" "bs2 = olds @ news"
    "length bs2 = cur - NDIRECT" "distinct bs2" "ib \<notin> set bs2"
    "\<forall>b\<in>set news. unat b \<notin> used bm2 \<and> DATA_START \<le> unat b \<and> unat b < BLOCK_NUM"
    "take (cur - NDIRECT) (u32s_of_bytes NINDIRECT (blk bm3 (unat ib))) = bs2"
    "map (\<lambda>b. blk bm3 (unat b)) bs2 = map (\<lambda>c. map c [0..<BLOCK_SIZE]) (map (buf_block p) [NDIRECT..<cur])"
    "\<And>k. k \<notin> unat ` set (ib # bs2) \<Longrightarrow> blk bm3 k = blk bm2 k"
    "free_count bm3 = free_count bm2 - length news"
    by (rule write_indirect_spec [OF rd(1-4) ind cur(2) curM room, of p]) (rule that)
  have "bm3 = bm'" using bm3 bm' by simp
  note loop = loop [unfolded this]
  have fresh: "set news \<inter> set bs = {}" "unat ` set news \<inter> used bm = {}"
    using loop(7) p1(4,6) by (auto simp: rd(7))
  have own: "data_ids bm' ?x' = bs @ bs2" "owned bm' ?x' = bs @ bs2 @ [ib]"
    using p1(1) loop(8) cur file_size_bounds [OF n]
    by (simp_all add: owned_def data_ids_def ind_ids_def Let_def nth_append)
  show ?thesis
  proof (rule writtenI [where os = "bs @ bs2 @ [ib]"])
    show "distinct (bs @ bs2 @ [ib])"
      using p1(2) loop(5,6) rd(5) fresh(1) by (auto simp: loop(3))
    have old: "unat ` set olds \<subseteq> used bm2" "unat ib \<in> used bm2"
      using rd(2,3) by (auto simp: list_all_iff data_block_def)
    show "list_all (data_block bm') (bs @ bs2 @ [ib])"
      using bs1(1) rd(2,3,7) loop(2,7) by (auto simp: loop(3) list_all_iff data_block_def)
    show "used bm' = used bm \<union> unat ` set (bs @ bs2 @ [ib])"
      using old p1(3,6) news1(2) unfolding loop(2,3) rd(7) by auto
    show "\<forall>b\<in>set (bs @ bs2 @ [ib]). b \<in> set (owned bm x) \<or> unat b \<notin> used bm"
      using bs1(2) rd(6) fresh(2) by (auto simp: loop(3))
    show "blk bm' k = blk bm k" if "k \<notin> unat ` set (bs @ bs2 @ [ib])" for k
      using that loop(10) [of k] p1(8) [of k] rd(8) by (simp add: image_Un)
    have "blk bm' (unat b) = blk bm1 (unat b)" if "b \<in> set bs" for b
    proof -
      have "b \<notin> set (ib # bs2)"
        using that rd(5) fresh(1) by (auto simp: loop(3))
      then show ?thesis
        using loop(10) [of "unat b"] unfolding unat_image_iff rd(8) by blast
    qed
    then have "map (\<lambda>b. blk bm' (unat b)) bs = map (\<lambda>b. blk bm1 (unat b)) bs"
      by simp
    moreover have "[0..<cur] = [0..<NDIRECT] @ [NDIRECT..<cur]"
      using cur(2) upt_add_eq_append [of 0 NDIRECT "cur - NDIRECT"] by simp
    ultimately show "map (\<lambda>b. blk bm' (unat b)) (data_ids bm' ?x') =
        map (\<lambda>c. map c [0..<BLOCK_SIZE]) (map (buf_block p) [0..<nblk n])"
      using p1(7) loop(9) unfolding own cur(1) [symmetric] by simp
    have "min origin cur - NDIRECT + length news = cur - NDIRECT"
      using loop(3,4) lo by simp
    then show "free_count bm' = free_count bm - (nown (nblk n) - nown (nblk (unat (isize x))))"
      using cur(2) news1(1) unfolding loop(11) rd(9) p1(5) cur(1) [symmetric] origin [symmetric] nown_def
      by (auto simp: min_def split: if_splits)
  qed (use n loop(1) own p1(1) in simp_all)
qed

lemma write_blocks_large:
  assumes inv: "bm_inv bm" and ok: "inode_ok bm x" and len: "length (iblocks x) = NDIRECT + 1"
    and n: "n \<le> MAXBYTES" and large: "NDIRECT < nblk n"
    and free: "nown (nblk n) \<le> nown (nblk (unat (isize x))) + free_count bm"
  obtains bm' ids' where "write_blocks (nblk n) (nblk (unat (isize x))) p bm (iblocks x) = Inr (bm', ids')"
    "written bm bm' x (x\<lparr>iblocks := ids', isize := of_nat n\<rparr>) p n"
proof -
  define cur where "cur = nblk n"
  define origin where "origin = nblk (unat (isize x))"
  have m: "min cur NDIRECT = NDIRECT" using large by (simp add: cur_def)
  have cur: "NDIRECT < cur" "cur < MAXFILE"
    using large file_size_bounds [OF n] by (simp_all add: cur_def)
  have free': "nown cur \<le> nown origin + free_count bm"
    using free by (simp add: cur_def origin_def)
  then have "NDIRECT \<le> origin + free_count bm"
    using cur by (auto simp: nown_def split: if_splits)
  then obtain bm1 bs news where
    run: "write_direct [0..<NDIRECT] cur origin p bm (iblocks x) = (bm1, bs @ drop NDIRECT (iblocks x))"
    and bs: "bs = take (min origin NDIRECT) (iblocks x) @ news"
    and pl: "placed bm bm1 (map (buf_block p) [0..<NDIRECT]) bs news"
    using direct_run [OF inv ok len origin_def refl, where cur = cur and p = p, unfolded m] by blast
  have lb: "length bs = NDIRECT" and pl': "bm_inv bm1" "used bm1 = used bm \<union> unat ` set news"
    "free_count bm1 = free_count bm - length news"
    using pl by (simp_all add: placed_def)
  have ln: "length news = NDIRECT - origin"
    using lb len by (simp add: bs min_def split: if_splits)
  have old: "set (take (min origin NDIRECT) (iblocks x)) \<subseteq> set (owned bm x)"
    "list_all (data_block bm) (take (min origin NDIRECT) (iblocks x))"
    using direct_ids [OF ok len, of "min origin NDIRECT"] by (auto simp: origin_def)
  have bs1: "list_all (data_block bm1) bs" "\<forall>b\<in>set bs. b \<in> set (owned bm x) \<or> unat b \<notin> used bm"
    using pl old by (auto simp: placed_def bs list_all_iff data_block_def)
  have "\<exists>ib bm2 ind. write_indirect_part cur origin p bm1 (bs @ drop NDIRECT (iblocks x)) =
      Inr (write_indirect [NDIRECT..<NINDIRECT + NDIRECT] cur origin p ib bm2 ind, bs @ [ib]) \<and>
    length ind = NINDIRECT \<and> indirect_ready bm bm1 x bs bm2 ib (take (min origin cur - NDIRECT) ind)"
  proof (cases "origin > NDIRECT")
    case True
    then have "news = []" "bs = take NDIRECT (iblocks x)"
      using ln bs by auto
    with indirect_setup_old [OF ok len origin_def True cur _ pl [unfolded \<open>news = []\<close>]] show ?thesis
      by (intro exI conjI) auto
  next
    case False
    have "0 < free_count bm1"
      using free' False cur ln unfolding pl'(3) by (auto simp: nown_def)
    moreover have "used bm \<subseteq> used bm1" "origin \<le> NDIRECT" using pl'(2) False by simp_all
    ultimately obtain bm2 ib where
      "write_indirect_part cur origin p bm1 (bs @ drop NDIRECT (iblocks x)) =
        Inr (write_indirect [NDIRECT..<NINDIRECT + NDIRECT] cur origin p ib bm2 (replicate NINDIRECT 0),
             bs @ [ib])" "indirect_ready bm bm1 x bs bm2 ib []"
      using indirect_setup_new [OF inv bs1(1) len lb origin_def _ cur(1) pl'(1), of p] by blast
    moreover have "take (min origin cur - NDIRECT) (replicate NINDIRECT 0) = []"
      using False by simp
    ultimately show ?thesis
      by (intro exI conjI) auto
  qed
  then obtain ib bm2 ind where
    ind: "write_indirect_part cur origin p bm1 (bs @ drop NDIRECT (iblocks x)) =
      Inr (write_indirect [NDIRECT..<NINDIRECT + NDIRECT] cur origin p ib bm2 ind, bs @ [ib])"
      "length ind = NINDIRECT" "indirect_ready bm bm1 x bs bm2 ib (take (min origin cur - NDIRECT) ind)"
    by blast
  have "set news \<subseteq> set bs" by (simp add: bs)
  note write_large_finish [OF ind(3) n cur_def cur(1) origin_def ind(2) refl pl bs1 ln this free' refl]
  moreover have "write_blocks cur origin p bm (iblocks x) =
      Inr (write_indirect [NDIRECT..<NINDIRECT + NDIRECT] cur origin p ib bm2 ind, bs @ [ib])"
    using run ind(1) by (simp add: write_blocks_def)
  ultimately show ?thesis
    using that unfolding cur_def origin_def by blast
qed

end
