(* ===== verification/File_System.thy ===== *)
theory File_System
  imports File_Blocks
begin

text \<open>
  Whole operations of \<open>inode_manager\<close>. The file system a client sees is the map \<open>abs_fs\<close> from inode
  numbers to a type and a byte string; each operation is shown to keep the invariant \<open>im_inv\<close> and to
  act on that map, and on nothing else, the way its name says.
\<close>

section \<open>The abstract file system\<close>

type_synonym fs = "nat \<rightharpoonup> u16 \<times> byte list"

definition abs_fs :: "block_manager \<Rightarrow> fs" where
  "abs_fs bm i =
     (if live bm i then Some (itype (inode_at bm i), file_data bm (inode_at bm i)) else None)"

lemma abs_fs_Some:
  "abs_fs bm i = Some (t, d) \<longleftrightarrow>
     live bm i \<and> t = itype (inode_at bm i) \<and> d = file_data bm (inode_at bm i)"
  by (auto simp: abs_fs_def)

lemma abs_fs_None: "abs_fs bm i = None \<longleftrightarrow> \<not> live bm i"
  by (simp add: abs_fs_def)

lemma live_size:
  assumes "im_inv bm" "live bm i"
  shows "unat (isize (inode_at bm i)) = length (file_data bm (inode_at bm i))"
    "unat (isize (inode_at bm i)) \<le> MAXBYTES" "inode_ok bm (inode_at bm i)" "bm_inv bm"
  using assms length_file_data [of bm "inode_at bm i"] by (auto simp: im_inv_def inode_ok_def)

lemma get_inode_live:
  assumes "im_inv (im_bm im)"
  shows "get_inode im inum =
    Inr (if live (im_bm im) (unat inum) then Some (inode_at (im_bm im) (unat inum)) else None)"
  using assms by (simp add: get_inode_eq im_inv_def live_def)

lemma commit_abs:
  assumes "im_inv bm" "unat inum < INODE_NUM"
    "if live bm (unat inum) then x = inode_at bm (unat inum) else owned bm x = []"
    "rewritten bm bm' x x'" "itype x' \<noteq> 0"
  obtains bm'' where "put_inode (im\<lparr>im_bm := bm'\<rparr>) inum (Some x') = Inr (im\<lparr>im_bm := bm''\<rparr>)"
    "im_inv bm''" "free_count bm'' = free_count bm'"
    "abs_fs bm'' = (abs_fs bm)(unat inum \<mapsto> (itype x', file_data bm' x'))"
proof -
  obtain bm'' where put: "put_inode (im\<lparr>im_bm := bm'\<rparr>) inum (Some x') = Inr (im\<lparr>im_bm := bm''\<rparr>)"
    "im_inv bm''" "block_bitmap bm'' = block_bitmap bm'"
    and at: "inode_at bm'' (unat inum) = x'" "file_data bm'' x' = file_data bm' x'"
    and other: "\<And>j. j < INODE_NUM \<Longrightarrow> j \<noteq> unat inum \<Longrightarrow> inode_at bm'' j = inode_at bm j"
    "\<And>j. live bm j \<Longrightarrow> j \<noteq> unat inum \<Longrightarrow> file_data bm'' (inode_at bm j) = file_data bm (inode_at bm j)"
    by (rule commit_inode [OF assms, of im]) (rule that)
  have "abs_fs bm'' j = ((abs_fs bm)(unat inum \<mapsto> (itype x', file_data bm' x'))) j" for j
  proof (cases "j = unat inum")
    case True
    then show ?thesis
      using at assms(2,5) by (simp add: abs_fs_def live_def)
  next
    case False
    then have "live bm'' j \<longleftrightarrow> live bm j"
      using other(1) [of j] by (auto simp: live_def)
    with False other [of j] show ?thesis
      by (auto simp: abs_fs_def live_def)
  qed
  with put that show ?thesis by (simp add: free_count_def fun_eq_iff)
qed

section \<open>Writing\<close>

lemma write_blocks_spec:
  assumes "bm_inv bm" "inode_ok bm x" "length (iblocks x) = NDIRECT + 1" "n \<le> MAXBYTES"
    "nown (nblk n) \<le> nown (nblk (unat (isize x))) + free_count bm"
  obtains bm' ids' where "write_blocks (nblk n) (nblk (unat (isize x))) p bm (iblocks x) = Inr (bm', ids')"
    "written bm bm' x (x\<lparr>iblocks := ids', isize := of_nat n\<rparr>) p n"
proof (cases "nblk n \<le> NDIRECT")
  case True
  then have "nblk n \<le> nblk (unat (isize x)) + free_count bm"
    using assms(5) by (auto simp: nown_def split: if_splits)
  with write_blocks_small [OF assms(1-4) True] that show ?thesis by blast
next
  case False
  then have "NDIRECT < nblk n" by simp
  with write_blocks_large [OF assms(1-4) _ assms(5)] that show ?thesis by blast
qed

lemma write_file_blocks:
  assumes "get_inode im inum = Inr (Some x)" "n \<le> MAXBYTES" "unat (isize x) \<le> MAXBYTES"
    "write_blocks (nblk n) (nblk (unat (isize x))) p (im_bm im) (iblocks x) = Inr (bm', ids')"
  shows "write_file im inum p (int n) =
    put_inode (im\<lparr>im_bm := bm'\<rparr>) inum (Some (x\<lparr>iblocks := ids', isize := of_nat n\<rparr>))"
proof -
  have "BLOCK_COUNT_int (int n) = Inr (of_nat (nblk n))"
    using assms(2) by (intro BLOCK_COUNT_int_nat) (simp add: MAXBYTES_value layout_values)
  moreover have "unat (of_nat (nblk n) :: u32) = nblk n"
    using file_size_bounds(1) [OF assms(2)] by (simp add: unat_of_nat_u32 layout_values)
  moreover have "unat (BLOCK_COUNT (isize x)) = nblk (unat (isize x))"
    using assms(3) by (intro unat_BLOCK_COUNT) (simp add: MAXBYTES_value)
  ultimately show ?thesis
    using assms(1,4) by (simp add: write_file_def write_blocks_def Let_def split: prod.splits)
qed

text \<open>Whether a file that holds \<open>old\<close> bytes can be given \<open>n\<close> bytes.\<close>

definition fits :: "block_manager \<Rightarrow> nat \<Rightarrow> nat \<Rightarrow> bool" where
  "fits bm old n \<longleftrightarrow> n \<le> MAXBYTES \<and> nown (nblk n) \<le> nown (nblk old) + free_count bm"

lemma write_file_ok:
  assumes inv: "im_inv (im_bm im)" and named: "abs_fs (im_bm im) (unat inum) = Some (t, d)"
    and fits: "fits (im_bm im) (length d) n"
  obtains im' where "write_file im inum p (int n) = Inr im'" "im_inv (im_bm im')"
    "abs_fs (im_bm im') = (abs_fs (im_bm im))(unat inum \<mapsto> (t, map p [0..<n]))"
    "free_count (im_bm im') = free_count (im_bm im) - (nown (nblk n) - nown (nblk (length d)))"
proof -
  define bm where "bm = im_bm im"
  define x where "x = inode_at bm (unat inum)"
  have l: "live bm (unat inum)" and t: "t = itype x" and d: "d = file_data bm x"
    using named by (simp_all add: abs_fs_Some bm_def x_def)
  note sz = live_size [OF inv [folded bm_def] l, folded x_def d]
  have fits': "n \<le> MAXBYTES" "nown (nblk n) \<le> nown (nblk (unat (isize x))) + free_count bm"
    using fits sz by (simp_all add: fits_def bm_def)
  have len: "length (iblocks x) = NDIRECT + 1" by (simp add: x_def)
  obtain bm' ids' where run: "write_blocks (nblk n) (nblk (unat (isize x))) p bm (iblocks x) = Inr (bm', ids')"
    and w: "written bm bm' x (x\<lparr>iblocks := ids', isize := of_nat n\<rparr>) p n"
    using write_blocks_spec [OF sz(4,3) len fits', of p] by blast
  define x' where "x' = x\<lparr>iblocks := ids', isize := of_nat n\<rparr>"
  have "get_inode im inum = Inr (Some x)"
    using get_inode_live [OF inv, of inum] l by (simp add: bm_def x_def)
  then have wf: "write_file im inum p (int n) = put_inode (im\<lparr>im_bm := bm'\<rparr>) inum (Some x')"
    unfolding x'_def using fits'(1) sz(2) run [unfolded bm_def] by (rule write_file_blocks)
  have rw: "rewritten bm bm' x x'" and data: "file_data bm' x' = map p [0..<n]"
    and count: "free_count bm' = free_count bm - (nown (nblk n) - nown (nblk (length d)))"
    using w sz(1) by (simp_all add: written_def x'_def)
  have x: "if live bm (unat inum) then x = inode_at bm (unat inum) else owned bm x = []"
    using l by (simp add: x_def)
  have live: "unat inum < INODE_NUM" "itype x' \<noteq> 0" "itype x' = t"
    using l t by (auto simp: live_def x'_def x_def)
  obtain bm'' where "put_inode (im\<lparr>im_bm := bm'\<rparr>) inum (Some x') = Inr (im\<lparr>im_bm := bm''\<rparr>)"
    "im_inv bm''" "free_count bm'' = free_count bm'"
    "abs_fs bm'' = (abs_fs bm)(unat inum \<mapsto> (itype x', file_data bm' x'))"
    by (rule commit_abs [OF inv [folded bm_def] live(1) x rw live(2), of im]) (rule that)
  then show ?thesis
    using that [of "im\<lparr>im_bm := bm''\<rparr>"] wf count data live(3) by (simp add: bm_def)
qed

lemma write_file_missing:
  assumes "im_inv (im_bm im)" "abs_fs (im_bm im) (unat inum) = None"
  shows "write_file im inum p sz = Inr im"
  using assms by (simp add: write_file_def get_inode_live abs_fs_None)

section \<open>Creating\<close>

lemma first_free_inode_eq:
  assumes "im_inv (im_bm im)" "\<forall>i\<in>set is. i < INODE_NUM"
  shows "first_free_inode im is = Inr (List.find (\<lambda>i. abs_fs (im_bm im) i = None) is)"
  using assms(2)
proof (induction "is")
  case (Cons i "is")
  have "unat (of_nat i :: u32) = i"
    using Cons.prems by (intro unat_of_nat_u32) (simp add: layout_values)
  with Cons show ?case
    by (simp add: get_inode_live [OF assms(1)] abs_fs_None)
qed simp

lemma find_upt_Some:
  assumes "List.find P [a..<b] = Some i"
  shows "a \<le> i" "i < b" "P i" "\<forall>j. a \<le> j \<and> j < i \<longrightarrow> \<not> P j"
proof -
  from assms obtain k where k: "k < length [a..<b]" "P ([a..<b] ! k)" "i = [a..<b] ! k"
    "\<forall>j<k. \<not> P ([a..<b] ! j)"
    by (auto simp: find_Some_iff)
  then have i: "i = a + k" "k < b - a" by auto
  show "a \<le> i" "i < b" "P i" using k i by auto
  show "\<forall>j. a \<le> j \<and> j < i \<longrightarrow> \<not> P j"
  proof (intro allI impI)
    fix j assume j: "a \<le> j \<and> j < i"
    then have "j - a < k" "[a..<b] ! (j - a) = j" using i by auto
    with k(4) show "\<not> P j" by metis
  qed
qed

lemma empty_file:
  assumes "length (iblocks x) = NDIRECT + 1" "isize x = 0"
  shows "owned bm x = []" "file_data bm x = []"
  using assms by (simp_all add: owned_def data_ids_def file_data_def)

lemma alloc_inode_ok:
  assumes inv: "im_inv (im_bm im)" and type: "(ucast type :: u16) \<noteq> 0"
    and free: "abs_fs (im_bm im) i = None" "1 \<le> i" "i < INODE_NUM"
  obtains inum im' where "alloc_inode im type = Inr (inum, im')"
    "abs_fs (im_bm im) (unat inum) = None" "1 \<le> unat inum" "unat inum \<le> i"
    "\<forall>j. 1 \<le> j \<and> j < unat inum \<longrightarrow> abs_fs (im_bm im) j \<noteq> None"
    "im_inv (im_bm im')" "abs_fs (im_bm im') = (abs_fs (im_bm im))(unat inum \<mapsto> (ucast type, []))"
    "free_count (im_bm im') = free_count (im_bm im)"
proof -
  let ?P = "\<lambda>i. abs_fs (im_bm im) i = None"
  define x' where "x' = inode_zero\<lparr>isize := 0, itype := ucast type\<rparr>"
  have "List.find ?P [1..<INODE_NUM] \<noteq> None"
    using free by (auto simp: find_None_iff)
  then obtain k where k: "List.find ?P [1..<INODE_NUM] = Some k" by auto
  note k' = find_upt_Some [OF k]
  have unat: "unat (of_nat k :: u32) = k"
    using k'(2) by (intro unat_of_nat_u32) (simp add: layout_values)
  have run: "first_free_inode im [1..<INODE_NUM] = Inr (Some k)"
    using first_free_inode_eq [OF inv, of "[1..<INODE_NUM]"] k by simp
  have x': "length (iblocks x') = NDIRECT + 1" "isize x' = 0" "itype x' = ucast type"
    by (simp_all add: x'_def)
  have bm: "bm_inv (im_bm im)" using inv by (simp add: im_inv_def)
  have rw: "rewritten (im_bm im) (im_bm im) x' x'"
    using bm x' empty_file [OF x'(1,2)] by (simp add: rewritten_def inode_ok_def)
  have live: "if live (im_bm im) (unat (of_nat k :: u32))
      then x' = inode_at (im_bm im) (unat (of_nat k :: u32)) else owned (im_bm im) x' = []"
    using k'(3) empty_file [OF x'(1,2)] by (simp add: unat abs_fs_None)
  have k_lt: "unat (of_nat k :: u32) < INODE_NUM" and t': "itype x' \<noteq> 0"
    using k'(2) type x'(3) by (simp_all add: unat)
  obtain bm'' where put: "put_inode (im\<lparr>im_bm := im_bm im\<rparr>) (of_nat k) (Some x') = Inr (im\<lparr>im_bm := bm''\<rparr>)"
    and bm'': "im_inv bm''" "free_count bm'' = free_count (im_bm im)"
    "abs_fs bm'' = (abs_fs (im_bm im))(unat (of_nat k :: u32) \<mapsto> (itype x', file_data (im_bm im) x'))"
    by (rule commit_abs [OF inv k_lt live rw t', of im]) (rule that)
  have "alloc_inode im type = Inr (of_nat k, im\<lparr>im_bm := bm''\<rparr>)"
    using put run by (simp add: alloc_inode_def flip: x'_def)
  moreover have "k \<le> i"
    using k'(4) free by (meson not_le)
  ultimately show ?thesis
    using that [of "of_nat k" "im\<lparr>im_bm := bm''\<rparr>"] bm'' k' x'(3) empty_file [OF x'(1,2)]
    by (simp add: unat)
qed

lemma alloc_inode_full:
  assumes "im_inv (im_bm im)" "\<forall>i. 1 \<le> i \<and> i < INODE_NUM \<longrightarrow> abs_fs (im_bm im) i \<noteq> None"
  shows "alloc_inode im type = Inr (0, im)"
proof -
  have "List.find (\<lambda>i. abs_fs (im_bm im) i = None) [1..<INODE_NUM] = None"
    using assms(2) by (auto simp: find_None_iff)
  then show ?thesis
    using first_free_inode_eq [OF assms(1), of "[1..<INODE_NUM]"] by (simp add: alloc_inode_def)
qed

lemma new_disk_empty: "im_inv block_manager_new" "abs_fs block_manager_new = Map.empty"
proof -
  have "\<not> live block_manager_new i" for i
  proof (cases "i < INODE_NUM")
    case True
    have "blk block_manager_new (iblk i) = replicate BLOCK_SIZE 0"
      using iblk_disk [OF True] by (simp add: block_manager_new_def disk_new_def Let_def)
    then show ?thesis
      using slot_bound [of i] by (simp add: live_def inode_at_def inode_of_def Let_def layout_values of_le16_def
          numeral_2_eq_2)
  qed (simp add: live_def)
  then show "im_inv block_manager_new" "abs_fs block_manager_new = Map.empty"
    using block_manager_new_inv by (auto simp: im_inv_def abs_fs_def)
qed

lemma inode_manager_new_ok:
  obtains im where "inode_manager_new = Inr (Some im)" "im_inv (im_bm im)"
    "abs_fs (im_bm im) = [1 \<mapsto> (1, [])]" "free_count (im_bm im) = BLOCK_NUM - DATA_START"
proof -
  define im0 where "im0 = \<lparr>im_bm = block_manager_new\<rparr>"
  have "(ucast T_DIR :: u16) = 1" by (simp add: T_DIR_def)
  moreover have "im_inv (im_bm im0)" "abs_fs (im_bm im0) = Map.empty"
    by (simp_all add: im0_def new_disk_empty)
  ultimately obtain inum im where run: "alloc_inode im0 T_DIR = Inr (inum, im)" "1 \<le> unat inum" "unat inum \<le> 1"
    "im_inv (im_bm im)" "abs_fs (im_bm im) = (abs_fs (im_bm im0))(unat inum \<mapsto> (ucast T_DIR, []))"
    "free_count (im_bm im) = free_count (im_bm im0)"
    using alloc_inode_ok [of im0 T_DIR 1] by (auto simp: layout_values)
  then have inum: "inum = 1" by (simp add: word_unat_eq_iff)
  have "nbits (block_bitmap block_manager_new) = BLOCK_NUM"
    using block_manager_new_inv by (simp add: bm_inv_def)
  then have "free_count (im_bm im0) = card {DATA_START..<BLOCK_NUM}"
    by (simp add: free_count_def im0_def block_manager_new_used)
  with run show ?thesis
    using that [of im] \<open>abs_fs (im_bm im0) = Map.empty\<close> \<open>(ucast T_DIR :: u16) = 1\<close>
    by (simp add: inode_manager_new_def inum flip: im0_def)
qed

section \<open>Attributes and removal\<close>

lemma getattr_ok:
  assumes inv: "im_inv (im_bm im)" and f: "abs_fs (im_bm im) (unat inum) = Some (t, d)"
  obtains a' where "im_getattr im inum a = Inr a'" "a_type a' = scast t" "unat (a_size a') = length d"
  using get_inode_live [OF inv, of inum] live_size [OF inv, of "unat inum"] f that
  by (auto simp: im_getattr_def abs_fs_Some)

lemma getattr_missing:
  assumes "im_inv (im_bm im)" "abs_fs (im_bm im) (unat inum) = None"
  shows "im_getattr im inum a = Inr a"
  using assms by (simp add: im_getattr_def get_inode_live abs_fs_None)

lemma free_all_simps [simp]:
  "free_all [] bm = bm" "free_all (b # bs) bm = free_all bs (free_block bm b)"
  "free_all (bs @ cs) bm = free_all cs (free_all bs bm)"
  by (simp_all add: free_all_def)

lemma free_all_disk [simp]: "bm_disk (free_all bs bm) = bm_disk bm" "sb (free_all bs bm) = sb bm"
  by (induction bs arbitrary: bm) (simp_all add: free_block_def)

lemma free_all_spec:
  assumes "bm_inv bm" "list_all (data_block bm) bs" "distinct bs"
  shows "used (free_all bs bm) = used bm - unat ` set bs \<and> bm_inv (free_all bs bm) \<and>
    free_count (free_all bs bm) = free_count bm + length bs"
  using assms
proof (induction bs arbitrary: bm)
  case (Cons b bs)
  have b: "data_block bm b" "b \<notin> set bs"
    using Cons.prems by simp_all
  have used: "used (free_block bm b) = used bm - {unat b}"
    using Cons.prems(1) b by (simp add: free_block_used data_block_def)
  have inv: "bm_inv (free_block bm b)"
    using Cons.prems(1) b by (auto simp: data_block_def intro: free_block_inv)
  have "list_all (data_block (free_block bm b)) bs"
    using Cons.prems(2) b(2) used by (auto simp: list_all_iff data_block_def simp flip: u32_eq_iff)
  from Cons.IH [OF inv this] Cons.prems(1,3) b show ?case
    by (auto simp: used free_block_count data_block_def)
qed simp

lemma remove_blocks:
  assumes inv: "im_inv (im_bm im)" and l: "live (im_bm im) (unat inum)"
  shows "remove_file im inum =
    free_inode (im\<lparr>im_bm := free_all (owned (im_bm im) (inode_at (im_bm im) (unat inum))) (im_bm im)\<rparr>) inum"
proof -
  define bm where "bm = im_bm im"
  define x where "x = inode_at bm (unat inum)"
  define n where "n = nblk (unat (isize x))"
  note sz = live_size [OF inv l, folded bm_def, folded x_def]
  have get: "get_inode im inum = Inr (Some x)"
    using get_inode_live [OF inv, of inum] l by (simp add: bm_def x_def)
  have n: "unat (BLOCK_COUNT (isize x)) = n"
    unfolding n_def using sz(2) by (intro unat_BLOCK_COUNT) (simp add: MAXBYTES_value)
  have "n < MAXFILE"
    using file_size_bounds(1) [OF sz(2)] by (simp add: n_def)
  then have n': "min (n - NDIRECT) NINDIRECT = n - NDIRECT"
    by (simp add: layout_values)
  have ib: "unat (iblocks x ! NDIRECT) < BLOCK_NUM" if "NDIRECT < n"
    using sz(3) that by (auto simp: inode_ok_def owned_def n_def data_block_def)
  have "take (min NDIRECT n) (iblocks x) = take n (take NDIRECT (iblocks x))"
    by (simp add: min.commute)
  then show ?thesis
    using get n ib n'
    by (auto simp: remove_file_def owned_def data_ids_def read_block_filled ind_ids_def Let_def
        simp flip: n_def bm_def x_def)
qed

lemma remove_file_ok:
  assumes inv: "im_inv (im_bm im)" and f: "abs_fs (im_bm im) (unat inum) = Some (t, d)"
  obtains im' where "remove_file im inum = Inr im'" "im_inv (im_bm im')"
    "abs_fs (im_bm im') = (abs_fs (im_bm im))(unat inum := None)"
    "free_count (im_bm im') = free_count (im_bm im) + nown (nblk (length d))"
proof -
  define bm where "bm = im_bm im"
  define i where "i = unat inum"
  define os where "os = owned bm (inode_at bm i)"
  define bm1 where "bm1 = free_all os bm"
  have inv': "im_inv bm" and l: "live bm i" and i: "i < INODE_NUM"
    using inv f by (auto simp: bm_def i_def abs_fs_Some live_def)
  note sz = live_size [OF inv' l]
  have os: "list_all (data_block bm) os" "distinct os"
    using sz(3) by (auto simp: inode_ok_def os_def)
  have bm1: "used bm1 = used bm - unat ` set os" "bm_inv bm1" "free_count bm1 = free_count bm + length os"
    and disk: "blk bm1 = blk bm"
    using free_all_spec [OF sz(4) os] by (simp_all add: bm1_def)
  have at1: "inode_at bm1 j = inode_at bm j" for j
    by (rule inode_at_cong) (simp add: disk)
  obtain bm2 where put: "put_inode (im\<lparr>im_bm := bm1\<rparr>) inum (Some (inode_zero\<lparr>itype := 0\<rparr>)) = Inr (im\<lparr>im_bm := bm2\<rparr>)"
    and bm2: "bm_inv bm2" and bitmap: "block_bitmap bm2 = block_bitmap bm1"
    and frame: "\<And>b. b \<noteq> iblk i \<Longrightarrow> blk bm2 b = blk bm1 b"
    and at_i: "inode_at bm2 i = inode_zero\<lparr>itype := 0\<rparr>"
    and at: "\<And>j. j < INODE_NUM \<Longrightarrow> j \<noteq> i \<Longrightarrow> inode_at bm2 j = inode_at bm1 j"
    using put_inode_spec [of "im\<lparr>im_bm := bm1\<rparr>" inum "inode_zero\<lparr>itype := 0\<rparr>"] bm1(2) i by (auto simp: i_def)
  have "get_inode (im\<lparr>im_bm := bm1\<rparr>) inum = Inr (Some (inode_at bm i))"
    using get_inode_eq [of "im\<lparr>im_bm := bm1\<rparr>" inum] bm1(2) l at1 by (simp add: live_def i_def)
  then have run: "remove_file im inum = Inr (im\<lparr>im_bm := bm2\<rparr>)"
    using remove_blocks [OF inv, of inum] l put
    by (simp add: free_inode_def bm1_def os_def bm_def i_def)
  have live2: "live bm2 j \<longleftrightarrow> j \<noteq> i \<and> live bm j" for j
    using at_i at [of j] at1 [of j] by (cases "j = i") (auto simp: live_def)
  have same: "inode_at bm2 j = inode_at bm j" "owned bm2 (inode_at bm j) = owned bm (inode_at bm j)"
    "file_data bm2 (inode_at bm j) = file_data bm (inode_at bm j)" "inode_ok bm2 (inode_at bm j)"
    if "live bm2 j" for j
  proof -
    have j: "live bm j" "j \<noteq> i" "j < INODE_NUM" using that live2 by (auto simp: live_def)
    then show "inode_at bm2 j = inode_at bm j" using at at1 by simp
    have ok: "inode_ok bm (inode_at bm j)" and dis: "set (owned bm (inode_at bm j)) \<inter> set os = {}"
      using inv' j l by (auto simp: im_inv_def os_def)
    have "blk bm2 (unat b) = blk bm (unat b)" if "b \<in> set (owned bm (inode_at bm j))" for b
    proof -
      have "DATA_START \<le> unat b" using ok that by (auto simp: inode_ok_def list_all_iff data_block_def)
      then show ?thesis using frame [of "unat b"] iblk_bound [OF i] disk by auto
    qed
    then show own: "owned bm2 (inode_at bm j) = owned bm (inode_at bm j)"
      "file_data bm2 (inode_at bm j) = file_data bm (inode_at bm j)"
      using owned_cong [of bm "inode_at bm j" bm2] by auto
    have "data_block bm2 b" if "b \<in> set (owned bm (inode_at bm j))" for b
      using ok dis that bm1(1) bitmap by (auto simp: inode_ok_def list_all_iff data_block_def simp flip: u32_eq_iff)
    then show "inode_ok bm2 (inode_at bm j)"
      using ok own by (auto simp: inode_ok_def list_all_iff)
  qed
  have "set (owned bm2 (inode_at bm2 j)) \<inter> set (owned bm2 (inode_at bm2 k)) = {}"
    if "live bm2 j" "live bm2 k" "j \<noteq> k" for j k
    using inv' that live2 by (simp add: same im_inv_def)
  then have "im_inv bm2"
    using bm2 same by (auto simp: im_inv_def)
  moreover have "abs_fs bm2 = (abs_fs bm)(i := None)"
    using live2 same by (auto simp: abs_fs_def fun_eq_iff)
  moreover have "length os = nown (nblk (length d))"
    using sz f by (auto simp: os_def owned_def length_data_ids nown_def abs_fs_Some bm_def i_def)
  then have "free_count bm2 = free_count bm + nown (nblk (length d))"
    using bm1(3) bitmap by (simp add: free_count_def)
  ultimately show ?thesis
    using that [OF run] by (simp add: bm_def i_def)
qed

lemma remove_file_missing:
  assumes "im_inv (im_bm im)" "abs_fs (im_bm im) (unat inum) = None"
  shows "remove_file im inum = Inr im"
  using assms by (simp add: remove_file_def get_inode_live abs_fs_None)

lemma read_file_ok:
  assumes "im_inv (im_bm im)" "abs_fs (im_bm im) (unat inum) = Some (t, d)"
  shows "read_file im inum (Some out) = Inr (Some (Some (d @ [0]), int (length d)))"
proof -
  have l: "live (im_bm im) (unat inum)" and d: "d = file_data (im_bm im) (inode_at (im_bm im) (unat inum))"
    using assms(2) by (simp_all add: abs_fs_Some)
  then show ?thesis
    using read_file_live [OF _ l] live_size [OF assms(1) l] by simp
qed

lemma read_file_missing:
  assumes "im_inv (im_bm im)" "abs_fs (im_bm im) (unat inum) = None"
  shows "read_file im inum (Some (buf0, s)) = Inr (Some (buf0, 0))"
  using assms by (intro read_file_dead) (simp_all add: im_inv_def abs_fs_None)

end
