(* ===== verification/Extent_Server.thy ===== *)
theory Extent_Server
  imports File_System
begin

text \<open>
  Classes \<open>extent_server\<close> and \<open>extent_client\<close> (\<open>extent_server.cc\<close>, \<open>extent_client.cc\<close>,
  \<open>extent_protocol.h\<close>): the byte-string store a client of the file system calls. The interface is the
  locale \<open>extent_store\<close>, with what a client may rely on; its interpretation at the end discharges the
  laws for the model of the code.
\<close>

section \<open>extent\_protocol\<close>

definition OK :: int where "OK = 0"
definition RPCERR :: int where "RPCERR = 1"
definition NOENT :: int where "NOENT = 2"
definition IOERR :: int where "IOERR = 3"

text \<open>The number of \<open>enum rpc_numbers\<close>; there is none for \<open>create\<close>.\<close>

definition PUT :: u32 where "PUT = 0x6001"
definition GET :: u32 where "GET = 0x6002"
definition GETATTR :: u32 where "GETATTR = 0x6003"
definition REMOVE :: u32 where "REMOVE = 0x6004"

section \<open>extent\_server\<close>

record extent_server =
  es_im :: inode_manager

definition attr_zero :: attr where
  "attr_zero = \<lparr>a_type = 0, a_atime = 0, a_mtime = 0, a_ctime = 0, a_size = 0\<rparr>"

text \<open>\<open>id &= 0x7fffffff\<close>, then the conversion of the 64-bit identifier to the \<open>uint32_t\<close> parameter of
  the inode layer.\<close>

definition mask_id :: "u64 \<Rightarrow> u32" where
  "mask_id eid = ucast (eid AND 0x7fffffff)"

text \<open>The bytes from \<open>c_str()\<close> on: the string, its terminating zero, then whatever memory follows
  (\<open>junk\<close>).\<close>

definition c_str :: "byte list \<Rightarrow> (nat \<Rightarrow> byte) \<Rightarrow> nat \<Rightarrow> byte" where
  "c_str buf junk k = (if k < length buf then buf ! k else if k = length buf then 0 else junk k)"

definition extent_server_new :: "extent_server option res" where
  "extent_server_new =
     bindE inode_manager_new (\<lambda>r. Inr (map_option (\<lambda>im. \<lparr>es_im = im\<rparr>) r))"

definition extent_server_create :: "extent_server \<Rightarrow> u32 \<Rightarrow> (int \<times> u64 \<times> extent_server) res" where
  "extent_server_create es type =
     bindE (alloc_inode (es_im es) type) (\<lambda>(inum, im). Inr (OK, ucast inum, es\<lparr>es_im := im\<rparr>))"

definition extent_server_put ::
  "(nat \<Rightarrow> byte) \<Rightarrow> extent_server \<Rightarrow> u64 \<Rightarrow> byte list \<Rightarrow> (int \<times> extent_server) res" where
  "extent_server_put junk es eid buf =
     (let sz = signed_take_bit 31 (int (length buf))
      in bindE (write_file (es_im es) (mask_id eid) (c_str buf junk) sz)
           (\<lambda>im. Inr (OK, es\<lparr>es_im := im\<rparr>)))"

text \<open>\<open>buf.assign(cbuf, size)\<close> with a null pointer is the fault \<open>NullDeref\<close>; a negative size is a huge
  \<open>size_t\<close> and beyond every buffer.\<close>

definition extent_server_get :: "extent_server \<Rightarrow> u64 \<Rightarrow> (int \<times> byte list) res" where
  "extent_server_get es eid =
     bindE (read_file (es_im es) (mask_id eid) (Some (None, 0)))
       (\<lambda>out. case out of
          Some (cbuf, sz) \<Rightarrow>
            (if sz = 0 then Inr (OK, [])
             else case cbuf of
                    None \<Rightarrow> Inl NullDeref
                  | Some bytes \<Rightarrow>
                      if sz < 0 \<or> sz > int (length bytes) then Inl OutOfBounds
                      else Inr (OK, take (nat sz) bytes))
        | None \<Rightarrow> Inr (OK, []))"

definition extent_server_getattr :: "extent_server \<Rightarrow> u64 \<Rightarrow> (int \<times> attr) res" where
  "extent_server_getattr es eid =
     bindE (im_getattr (es_im es) (mask_id eid) attr_zero) (\<lambda>a. Inr (OK, a))"

definition extent_server_remove :: "extent_server \<Rightarrow> u64 \<Rightarrow> (int \<times> extent_server) res" where
  "extent_server_remove es eid =
     bindE (remove_file (es_im es) (mask_id eid)) (\<lambda>im. Inr (OK, es\<lparr>es_im := im\<rparr>))"

section \<open>extent\_client\<close>

record extent_client =
  ec_es :: extent_server

definition extent_client_new :: "extent_client option res" where
  "extent_client_new =
     bindE extent_server_new (\<lambda>r. Inr (map_option (\<lambda>es. \<lparr>ec_es = es\<rparr>) r))"

definition extent_client_create :: "extent_client \<Rightarrow> u32 \<Rightarrow> (int \<times> u64 \<times> extent_client) res" where
  "extent_client_create ec type =
     bindE (extent_server_create (ec_es ec) type)
       (\<lambda>(ret, eid, es). Inr (ret, eid, ec\<lparr>ec_es := es\<rparr>))"

definition extent_client_get :: "extent_client \<Rightarrow> u64 \<Rightarrow> (int \<times> byte list) res" where
  "extent_client_get ec eid = bindE (extent_server_get (ec_es ec) eid) (\<lambda>(ret, buf). Inr (ret, buf))"

definition extent_client_getattr :: "extent_client \<Rightarrow> u64 \<Rightarrow> (int \<times> attr) res" where
  "extent_client_getattr ec eid =
     bindE (extent_server_getattr (ec_es ec) eid) (\<lambda>(ret, a). Inr (ret, a))"

definition extent_client_put ::
  "(nat \<Rightarrow> byte) \<Rightarrow> extent_client \<Rightarrow> u64 \<Rightarrow> byte list \<Rightarrow> (int \<times> extent_client) res" where
  "extent_client_put junk ec eid buf =
     bindE (extent_server_put junk (ec_es ec) eid buf) (\<lambda>(ret, es). Inr (ret, ec\<lparr>ec_es := es\<rparr>))"

definition extent_client_remove :: "extent_client \<Rightarrow> u64 \<Rightarrow> (int \<times> extent_client) res" where
  "extent_client_remove ec eid =
     bindE (extent_server_remove (ec_es ec) eid) (\<lambda>(ret, es). Inr (ret, ec\<lparr>ec_es := es\<rparr>))"

section \<open>What a client sees\<close>

text \<open>Invariant, abstract file system and free space of the whole store.\<close>

definition store_inv :: "extent_client \<Rightarrow> bool" where
  "store_inv ec \<longleftrightarrow> im_inv (im_bm (es_im (ec_es ec)))"

definition store_view :: "extent_client \<Rightarrow> fs" where
  "store_view ec = abs_fs (im_bm (es_im (ec_es ec)))"

definition store_free :: "extent_client \<Rightarrow> nat" where
  "store_free ec = free_count (im_bm (es_im (ec_es ec)))"

definition key :: "u64 \<Rightarrow> nat" where
  "key eid = unat (mask_id eid)"

lemmas store_defs = store_inv_def store_view_def store_free_def key_def

lemma key_small:
  assumes "unat (inum :: u32) < INODE_NUM"
  shows "key (ucast inum) = unat inum"
proof -
  have m: "(0x7fffffff :: u64) = mask 31" "(0x7fffffff :: u32) = mask 31"
    by (simp_all add: mask_eq_exp_minus_1)
  have "mask_id (ucast inum) = take_bit 31 inum"
    unfolding mask_id_def m
    by (rule bit_word_eqI) (auto simp: bit_simps)
  moreover have "take_bit 31 inum = inum"
    using assms by (simp add: word_unat_eq_iff unsigned_take_bit_eq take_bit_nat_eq_self layout_values)
  ultimately show ?thesis by (simp add: key_def)
qed

lemma c_str_prefix: "map (c_str buf junk) [0..<length buf] = buf"
  by (rule nth_equalityI) (simp_all add: c_str_def)

lemma put_size:
  assumes "length buf \<le> MAXBYTES"
  shows "signed_take_bit 31 (int (length buf)) = int (length buf)"
  using assms by (intro signed_take_bit_int_eq_self) (simp_all add: MAXBYTES_value)

section \<open>The interface\<close>

text \<open>What a client of an extent store relies on. \<open>view\<close> is the file system as a map, \<open>free\<close> the number
  of free blocks; \<open>junk\<close> is the memory behind the string of a \<open>put\<close>.\<close>

locale extent_store =
  fixes inv :: "'s \<Rightarrow> bool" and view :: "'s \<Rightarrow> fs" and free :: "'s \<Rightarrow> nat"
    and create :: "'s \<Rightarrow> u32 \<Rightarrow> (int \<times> u64 \<times> 's) res"
    and put :: "(nat \<Rightarrow> byte) \<Rightarrow> 's \<Rightarrow> u64 \<Rightarrow> byte list \<Rightarrow> (int \<times> 's) res"
    and get :: "'s \<Rightarrow> u64 \<Rightarrow> (int \<times> byte list) res"
    and getattr :: "'s \<Rightarrow> u64 \<Rightarrow> (int \<times> attr) res"
    and remove :: "'s \<Rightarrow> u64 \<Rightarrow> (int \<times> 's) res"
  assumes create_law: "\<lbrakk>inv s; (ucast type :: u16) \<noteq> 0; view s i = None; 1 \<le> i; i < INODE_NUM\<rbrakk> \<Longrightarrow>
      \<exists>eid s'. create s type = Inr (OK, eid, s') \<and> inv s' \<and> eid = of_nat (key eid) \<and>
        1 \<le> key eid \<and> key eid \<le> i \<and> view s (key eid) = None \<and>
        (\<forall>j. 1 \<le> j \<and> j < key eid \<longrightarrow> view s j \<noteq> None) \<and>
        view s' = (view s)(key eid \<mapsto> (ucast type, [])) \<and> free s' = free s"
    and create_full: "\<lbrakk>inv s; \<forall>i. 1 \<le> i \<and> i < INODE_NUM \<longrightarrow> view s i \<noteq> None\<rbrakk> \<Longrightarrow>
      create s type = Inr (OK, 0, s)"
    and put_law: "\<lbrakk>inv s; view s (key eid) = Some (t, d); length buf \<le> MAXBYTES;
        nown (nblk (length buf)) \<le> nown (nblk (length d)) + free s\<rbrakk> \<Longrightarrow>
      \<exists>s'. put junk s eid buf = Inr (OK, s') \<and> inv s' \<and> view s' = (view s)(key eid \<mapsto> (t, buf)) \<and>
        free s' = free s - (nown (nblk (length buf)) - nown (nblk (length d)))"
    and put_missing: "\<lbrakk>inv s; view s (key eid) = None\<rbrakk> \<Longrightarrow> put junk s eid buf = Inr (OK, s)"
    and get_law: "inv s \<Longrightarrow>
      get s eid = Inr (OK, case view s (key eid) of None \<Rightarrow> [] | Some (t, d) \<Rightarrow> d)"
    and getattr_law: "inv s \<Longrightarrow>
      \<exists>a. getattr s eid = Inr (OK, a) \<and>
        (case view s (key eid) of None \<Rightarrow> a = attr_zero
         | Some (t, d) \<Rightarrow> a_type a = scast t \<and> unat (a_size a) = length d)"
    and remove_law: "inv s \<Longrightarrow>
      \<exists>s'. remove s eid = Inr (OK, s') \<and> inv s' \<and> view s' = (view s)(key eid := None) \<and>
        free s' = free s + (case view s (key eid) of None \<Rightarrow> 0 | Some (t, d) \<Rightarrow> nown (nblk (length d)))"
begin

lemma put_then_get:
  assumes "inv s" "view s (key eid) = Some (t, d)" "length buf \<le> MAXBYTES"
    "nown (nblk (length buf)) \<le> nown (nblk (length d)) + free s"
  shows "\<exists>s'. put junk s eid buf = Inr (OK, s') \<and> inv s' \<and> get s' eid = Inr (OK, buf) \<and>
    (\<forall>eid'. key eid' \<noteq> key eid \<longrightarrow> get s' eid' = get s eid')"
proof -
  from put_law [OF assms, of junk] obtain s' where "put junk s eid buf = Inr (OK, s')" "inv s'"
    "view s' = (view s)(key eid \<mapsto> (t, buf))"
    by blast
  with assms(1) show ?thesis by (auto simp: get_law)
qed

lemma remove_then_absent:
  assumes "inv s"
  shows "\<exists>s'. remove s eid = Inr (OK, s') \<and> inv s' \<and> getattr s' eid = Inr (OK, attr_zero) \<and>
    get s' eid = Inr (OK, []) \<and> free s \<le> free s' \<and>
    (\<forall>eid'. key eid' \<noteq> key eid \<longrightarrow> get s' eid' = get s eid')"
proof -
  from remove_law [OF assms, of eid] obtain s' where "remove s eid = Inr (OK, s')" "inv s'"
    "view s' = (view s)(key eid := None)" "free s \<le> free s'"
    by (auto split: option.splits)
  with assms getattr_law [of s' eid] show ?thesis by (auto simp: get_law)
qed

lemma create_then_empty:
  assumes "inv s" "(ucast type :: u16) \<noteq> 0" "view s i = None" "1 \<le> i" "i < INODE_NUM"
  shows "\<exists>eid s' a. create s type = Inr (OK, eid, s') \<and> inv s' \<and> eid \<noteq> 0 \<and> view s (key eid) = None \<and>
    get s' eid = Inr (OK, []) \<and> getattr s' eid = Inr (OK, a) \<and> a_type a = scast (ucast type :: u16) \<and>
    a_size a = 0 \<and> (\<forall>eid'. key eid' \<noteq> key eid \<longrightarrow> get s' eid' = get s eid')"
proof -
  from create_law [OF assms] obtain eid s' where c: "create s type = Inr (OK, eid, s')" "inv s'"
    "eid = of_nat (key eid)" "1 \<le> key eid" "view s (key eid) = None"
    "view s' = (view s)(key eid \<mapsto> (ucast type, []))"
    by blast
  moreover have "key 0 = 0" by (simp add: key_def mask_id_def)
  with c(4) have "eid \<noteq> 0" by auto
  ultimately show ?thesis
    using assms(1) getattr_law [OF c(2), of eid] by (auto simp: get_law unat_eq_0)
qed

end

section \<open>The model provides it\<close>

lemma create_provides:
  assumes "store_inv ec" "(ucast type :: u16) \<noteq> 0" "store_view ec i = None" "1 \<le> i" "i < INODE_NUM"
  shows "\<exists>eid ec'. extent_client_create ec type = Inr (OK, eid, ec') \<and> store_inv ec' \<and>
    eid = of_nat (key eid) \<and> 1 \<le> key eid \<and> key eid \<le> i \<and> store_view ec (key eid) = None \<and>
    (\<forall>j. 1 \<le> j \<and> j < key eid \<longrightarrow> store_view ec j \<noteq> None) \<and>
    store_view ec' = (store_view ec)(key eid \<mapsto> (ucast type, [])) \<and> store_free ec' = store_free ec"
proof -
  let ?im = "es_im (ec_es ec)"
  obtain inum im where a: "alloc_inode ?im type = Inr (inum, im)"
    "abs_fs (im_bm ?im) (unat inum) = None" "1 \<le> unat inum" "unat inum \<le> i"
    "\<forall>j. 1 \<le> j \<and> j < unat inum \<longrightarrow> abs_fs (im_bm ?im) j \<noteq> None"
    "im_inv (im_bm im)" "abs_fs (im_bm im) = (abs_fs (im_bm ?im))(unat inum \<mapsto> (ucast type, []))"
    "free_count (im_bm im) = free_count (im_bm ?im)"
    by (rule alloc_inode_ok [OF assms(1,2,3) [unfolded store_defs] assms(4,5)]) (rule that)
  have k: "key (ucast inum) = unat inum"
    using a(4) assms(5) by (intro key_small) simp
  have "(ucast inum :: u64) = of_nat (unat inum)" by simp
  then show ?thesis
    using a k
    by (intro exI [of _ "ucast inum"] exI [of _ "ec\<lparr>ec_es := (ec_es ec)\<lparr>es_im := im\<rparr>\<rparr>"])
       (simp add: extent_client_create_def extent_server_create_def store_inv_def store_view_def store_free_def)
qed

lemma put_provides:
  assumes "store_inv ec" "store_view ec (key eid) = Some (t, d)" "length buf \<le> MAXBYTES"
    "nown (nblk (length buf)) \<le> nown (nblk (length d)) + store_free ec"
  shows "\<exists>ec'. extent_client_put junk ec eid buf = Inr (OK, ec') \<and> store_inv ec' \<and>
    store_view ec' = (store_view ec)(key eid \<mapsto> (t, buf)) \<and>
    store_free ec' = store_free ec - (nown (nblk (length buf)) - nown (nblk (length d)))"
proof -
  let ?im = "es_im (ec_es ec)"
  have "fits (im_bm ?im) (length d) (length buf)"
    using assms(3,4) by (simp add: fits_def store_free_def)
  then obtain im where "write_file ?im (mask_id eid) (c_str buf junk) (int (length buf)) = Inr im"
    "im_inv (im_bm im)"
    "abs_fs (im_bm im) = (abs_fs (im_bm ?im))(unat (mask_id eid) \<mapsto> (t, map (c_str buf junk) [0..<length buf]))"
    "free_count (im_bm im) = free_count (im_bm ?im) - (nown (nblk (length buf)) - nown (nblk (length d)))"
    using write_file_ok [OF assms(1,2) [unfolded store_defs]] by blast
  then show ?thesis
    using assms(3)
    by (intro exI [of _ "ec\<lparr>ec_es := (ec_es ec)\<lparr>es_im := im\<rparr>\<rparr>"])
       (simp add: extent_client_put_def extent_server_put_def put_size c_str_prefix store_defs)
qed

lemma get_provides:
  assumes "store_inv ec"
  shows "extent_client_get ec eid =
    Inr (OK, case store_view ec (key eid) of None \<Rightarrow> [] | Some (t, d) \<Rightarrow> d)"
proof (cases "store_view ec (key eid)")
  case None
  then show ?thesis
    using assms read_file_missing [of "es_im (ec_es ec)" "mask_id eid"]
    by (simp add: extent_client_get_def extent_server_get_def store_defs)
next
  case (Some f)
  then show ?thesis
    using assms read_file_ok [of "es_im (ec_es ec)" "mask_id eid"]
    by (cases f) (simp add: extent_client_get_def extent_server_get_def store_defs)
qed

lemma getattr_provides:
  assumes "store_inv ec"
  shows "\<exists>a. extent_client_getattr ec eid = Inr (OK, a) \<and>
    (case store_view ec (key eid) of None \<Rightarrow> a = attr_zero
     | Some (t, d) \<Rightarrow> a_type a = scast t \<and> unat (a_size a) = length d)"
proof (cases "store_view ec (key eid)")
  case None
  then show ?thesis
    using assms getattr_missing [of "es_im (ec_es ec)" "mask_id eid"]
    by (simp add: extent_client_getattr_def extent_server_getattr_def store_defs)
next
  case (Some f)
  obtain t d where f: "f = (t, d)" by (cases f)
  with Some have "abs_fs (im_bm (es_im (ec_es ec))) (unat (mask_id eid)) = Some (t, d)"
    by (simp add: store_defs)
  from getattr_ok [OF assms [unfolded store_inv_def] this] obtain a where
    "im_getattr (es_im (ec_es ec)) (mask_id eid) attr_zero = Inr a" "a_type a = scast t"
    "unat (a_size a) = length d"
    by blast
  with Some f show ?thesis
    by (simp add: extent_client_getattr_def extent_server_getattr_def)
qed

lemma remove_provides:
  assumes "store_inv ec"
  shows "\<exists>ec'. extent_client_remove ec eid = Inr (OK, ec') \<and> store_inv ec' \<and>
    store_view ec' = (store_view ec)(key eid := None) \<and>
    store_free ec' = store_free ec +
      (case store_view ec (key eid) of None \<Rightarrow> 0 | Some (t, d) \<Rightarrow> nown (nblk (length d)))"
proof -
  let ?im = "es_im (ec_es ec)" and ?v = "store_view ec (key eid)"
  have "\<exists>im. remove_file ?im (mask_id eid) = Inr im \<and> im_inv (im_bm im) \<and>
    abs_fs (im_bm im) = (abs_fs (im_bm ?im))(unat (mask_id eid) := None) \<and>
    free_count (im_bm im) = free_count (im_bm ?im) +
      (case ?v of None \<Rightarrow> 0 | Some (t, d) \<Rightarrow> nown (nblk (length d)))"
  proof (cases ?v)
    case None
    then show ?thesis
      using assms remove_file_missing [of ?im "mask_id eid"] by (auto simp: store_defs)
  next
    case (Some f)
    then obtain t d where f: "abs_fs (im_bm ?im) (unat (mask_id eid)) = Some (t, d)" "f = (t, d)"
      by (cases f) (auto simp: store_defs)
    from remove_file_ok [OF assms [unfolded store_inv_def] f(1)] obtain im where
      "remove_file ?im (mask_id eid) = Inr im" "im_inv (im_bm im)"
      "abs_fs (im_bm im) = (abs_fs (im_bm ?im))(unat (mask_id eid) := None)"
      "free_count (im_bm im) = free_count (im_bm ?im) + nown (nblk (length d))"
      by blast
    with Some f(2) show ?thesis by simp
  qed
  then obtain im where "remove_file ?im (mask_id eid) = Inr im" "im_inv (im_bm im)"
    "abs_fs (im_bm im) = (abs_fs (im_bm ?im))(unat (mask_id eid) := None)"
    "free_count (im_bm im) = free_count (im_bm ?im) +
      (case ?v of None \<Rightarrow> 0 | Some (t, d) \<Rightarrow> nown (nblk (length d)))"
    by blast
  then show ?thesis
    by (intro exI [of _ "ec\<lparr>ec_es := (ec_es ec)\<lparr>es_im := im\<rparr>\<rparr>"])
       (simp add: extent_client_remove_def extent_server_remove_def store_defs)
qed

interpretation ec: extent_store store_inv store_view store_free extent_client_create extent_client_put
  extent_client_get extent_client_getattr extent_client_remove
proof (unfold_locales, goal_cases)
  case (1 s type i) then show ?case by (rule create_provides)
next
  case (2 s type) then show ?case
    by (simp add: extent_client_create_def extent_server_create_def alloc_inode_full store_defs)
next
  case (3 s eid t d buf junk) then show ?case by (rule put_provides)
next
  case (4 s eid junk buf) then show ?case
    by (simp add: extent_client_put_def extent_server_put_def write_file_missing store_defs)
next
  case (5 s eid) then show ?case by (rule get_provides)
next
  case (6 s eid) then show ?case by (rule getattr_provides)
next
  case (7 s eid) then show ?case by (rule remove_provides)
qed

lemma extent_client_new_ok:
  obtains ec where "extent_client_new = Inr (Some ec)" "store_inv ec" "store_view ec = [1 \<mapsto> (1, [])]"
    "store_free ec = BLOCK_NUM - DATA_START"
proof -
  obtain im where im: "inode_manager_new = Inr (Some im)" "im_inv (im_bm im)"
    "abs_fs (im_bm im) = [1 \<mapsto> (1, [])]" "free_count (im_bm im) = BLOCK_NUM - DATA_START"
    by (rule inode_manager_new_ok)
  have "extent_client_new = Inr (Some \<lparr>ec_es = \<lparr>es_im = im\<rparr>\<rparr>)"
    by (simp add: extent_client_new_def extent_server_new_def im(1))
  then show ?thesis
    using im by (intro that [of "\<lparr>ec_es = \<lparr>es_im = im\<rparr>\<rparr>"]) (simp_all add: store_defs)
qed

section \<open>Small identifiers and files\<close>

lemma key_of_nat: "n < INODE_NUM \<Longrightarrow> key (of_nat n) = n"
proof -
  assume n: "n < INODE_NUM"
  then have u: "unat (of_nat n :: u32) = n"
    by (intro unat_of_nat_u32) (simp add: layout_values)
  moreover have "(ucast w :: u64) = of_nat (unat w)" for w :: u32
    by simp
  from this [of "of_nat n"] have "(ucast (of_nat n :: u32) :: u64) = of_nat n"
    by (simp only: u)
  ultimately show "key (of_nat n) = n"
    using key_small [of "of_nat n"] n by simp
qed

lemma nown_small: "n \<le> 4 \<Longrightarrow> nown (nblk n) \<le> 1"
proof -
  assume "n \<le> 4"
  then have "nblk n \<le> 1" by (intro nblk_le) (simp add: layout_values)
  then show ?thesis by (simp add: nown_def layout_values)
qed

end
