(* ===== verification/Lab1_Tester.thy ===== *)
theory Lab1_Tester
  imports Extent_Server
begin

text \<open>
  The program \<open>lab1_tester.cc\<close>, the only client of \<open>extent_client\<close> in the repository: it creates fifty
  files, writes and reads them back, does the same with two files that need the indirect block, and
  removes the fifty. The results of \<open>rand()\<close> after each \<open>srand\<close> are a parameter \<open>rnd\<close>. The two large
  buffers of \<open>test_indirect\<close> are not zero-terminated; the bytes up to the next zero in memory are the
  parameters \<open>after1\<close> and \<open>after2\<close>.
\<close>

definition FILE_NUM :: nat where "FILE_NUM = 50"
definition LARGE_FILE_SIZE :: nat where "LARGE_FILE_SIZE = 512 * 64"

text \<open>\<open>sprintf(temp, "%d", n)\<close> for a non-negative \<open>n\<close>.\<close>

fun dec :: "nat \<Rightarrow> byte list" where
  "dec n = (if n < 10 then [of_nat (48 + n)] else dec (n div 10) @ [of_nat (48 + n mod 10)])"

declare dec.simps [simp del]

section \<open>The tests\<close>

text \<open>One round of the first test, for a directory or a file; \<open>Inr (0, ec)\<close> continues the loop, any
  other number is the test's return value.\<close>

definition create_round :: "u32 \<Rightarrow> extent_client \<Rightarrow> (int \<times> extent_client) res" where
  "create_round type ec =
     bindE (extent_client_create ec type)
       (\<lambda>(_, eid, ec1).
          if (ucast eid :: u32) = 0 then Inr (1, ec1)
          else bindE (extent_client_getattr ec1 eid)
                 (\<lambda>(ret, a). if ret \<noteq> OK then Inr (2, ec1)
                            else if a_type a \<noteq> type then Inr (3, ec1) else Inr (0, ec1)))"

fun create_loop :: "nat list \<Rightarrow> (nat \<Rightarrow> nat) \<Rightarrow> extent_client \<Rightarrow> (int \<times> extent_client) res" where
  "create_loop [] rnd ec = Inr (0, ec)"
| "create_loop (i # is) rnd ec =
     bindE (create_round (if rnd i mod 10 < 3 then T_DIR else T_FILE) ec)
       (\<lambda>(r, ec1). if r \<noteq> 0 then Inr (r, ec1) else create_loop is rnd ec1)"

definition test_create_and_getattr ::
  "(nat \<Rightarrow> nat) \<Rightarrow> extent_client \<Rightarrow> nat \<Rightarrow> (int \<times> extent_client \<times> nat) res" where
  "test_create_and_getattr rnd ec total_score =
     bindE (create_loop [0..<FILE_NUM] rnd ec)
       (\<lambda>(r, ec1). Inr (r, ec1, if r = 0 then total_score + 40 else total_score))"

text \<open>The first loop of the second test; \<open>k\<close> counts the calls of \<open>rand()\<close>, \<open>cts\<close> is the array
  \<open>contents\<close> (\<open>None\<close>: not yet assigned).\<close>

fun put_loop ::
  "nat list \<Rightarrow> (nat \<Rightarrow> nat) \<Rightarrow> (nat \<Rightarrow> nat \<Rightarrow> byte) \<Rightarrow> nat \<Rightarrow> (nat \<rightharpoonup> nat) \<Rightarrow> extent_client \<Rightarrow>
     (int \<times> (nat \<rightharpoonup> nat) \<times> extent_client) res" where
  "put_loop [] rnd junk k cts ec = Inr (0, cts, ec)"
| "put_loop (i # is) rnd junk k cts ec =
     bindE (extent_client_getattr ec (of_nat (i + 2)))
       (\<lambda>(ret, a).
          if ret \<noteq> OK then Inr (1, cts, ec)
          else if a_type a = T_FILE then
            (let rnum = rnd k mod 10000
             in bindE (extent_client_put (junk i) ec (of_nat (i + 2)) (dec rnum))
                  (\<lambda>(ret, ec1). if ret \<noteq> OK then Inr (2, cts, ec1)
                               else put_loop is rnd junk (Suc k) (cts(i \<mapsto> rnum)) ec1))
          else put_loop is rnd junk k cts ec)"

fun get_loop :: "nat list \<Rightarrow> (nat \<rightharpoonup> nat) \<Rightarrow> extent_client \<Rightarrow> int res" where
  "get_loop [] cts ec = Inr 0"
| "get_loop (i # is) cts ec =
     bindE (extent_client_getattr ec (of_nat (i + 2)))
       (\<lambda>(ret, a).
          if ret \<noteq> OK then Inr 3
          else if a_type a = T_FILE then
            bindE (extent_client_get ec (of_nat (i + 2)))
              (\<lambda>(ret, buf).
                 if ret \<noteq> OK then Inr 4
                 else case cts i of
                        None \<Rightarrow> Inl UninitRead
                      | Some c \<Rightarrow> if buf \<noteq> dec c then Inr 5 else get_loop is cts ec)
          else get_loop is cts ec)"

definition large_buf :: "(nat \<Rightarrow> nat) \<Rightarrow> nat \<Rightarrow> byte list \<Rightarrow> byte list" where
  "large_buf rnd start after =
     map (\<lambda>i. of_nat (97 + rnd (start + i) mod 26)) [0..<LARGE_FILE_SIZE] @ after"

definition test_indirect ::
  "(nat \<Rightarrow> nat) \<Rightarrow> (nat \<Rightarrow> nat \<Rightarrow> byte) \<Rightarrow> byte list \<Rightarrow> byte list \<Rightarrow> extent_client \<Rightarrow> nat \<Rightarrow>
     (int \<times> extent_client \<times> nat) res" where
  "test_indirect rnd junk after1 after2 ec total_score =
     bindE (extent_client_create ec T_FILE) (\<lambda>(_, id1, ec1).
     (let buf = large_buf rnd 0 after1 in
     bindE (extent_client_put (junk 0) ec1 id1 buf) (\<lambda>(ret, ec2).
     if ret \<noteq> OK then Inr (1, ec2, total_score) else
     bindE (extent_client_create ec2 T_FILE) (\<lambda>(_, id2, ec3).
     (let buf2 = large_buf rnd LARGE_FILE_SIZE after2 in
     bindE (extent_client_put (junk 1) ec3 id2 buf2) (\<lambda>(ret, ec4).
     if ret \<noteq> OK then Inr (2, ec4, total_score) else
     bindE (extent_client_get ec4 id1) (\<lambda>(ret, buf_2).
     if ret \<noteq> OK then Inr (3, ec4, total_score) else
     if buf \<noteq> buf_2 then Inr (4, ec4, total_score) else
     bindE (extent_client_get ec4 id2) (\<lambda>(ret, buf2_2).
     if ret \<noteq> OK then Inr (5, ec4, total_score) else
     if buf2 \<noteq> buf2_2 then Inr (6, ec4, total_score) else
     Inr (0, ec4, total_score + 10)))))))))"

definition test_put_and_get ::
  "(nat \<Rightarrow> nat) \<Rightarrow> (nat \<Rightarrow> nat) \<Rightarrow> (nat \<Rightarrow> nat \<Rightarrow> byte) \<Rightarrow> byte list \<Rightarrow> byte list \<Rightarrow> extent_client \<Rightarrow> nat \<Rightarrow>
     (int \<times> extent_client \<times> nat) res" where
  "test_put_and_get rnd rnd' junk after1 after2 ec total_score =
     bindE (put_loop [0..<FILE_NUM] rnd junk 0 Map.empty ec)
       (\<lambda>(r, cts, ec1).
          if r \<noteq> 0 then Inr (r, ec1, total_score)
          else bindE (get_loop [0..<FILE_NUM] cts ec1)
                 (\<lambda>r. if r \<noteq> 0 then Inr (r, ec1, total_score)
                      else bindE (test_indirect rnd' junk after1 after2 ec1 (total_score + 30))
                             (\<lambda>(_, ec2, score). Inr (0, ec2, score))))"

fun remove_loop :: "nat list \<Rightarrow> extent_client \<Rightarrow> (int \<times> extent_client) res" where
  "remove_loop [] ec = Inr (0, ec)"
| "remove_loop (i # is) ec =
     bindE (extent_client_remove ec (of_nat (i + 2)))
       (\<lambda>(ret, ec1).
          if ret \<noteq> OK then Inr (1, ec1)
          else bindE (extent_client_getattr ec1 (of_nat (i + 2)))
                 (\<lambda>(_, a). if a_type a \<noteq> 0 then Inr (2, ec1) else remove_loop is ec1))"

definition test_remove :: "extent_client \<Rightarrow> nat \<Rightarrow> (int \<times> extent_client \<times> nat) res" where
  "test_remove ec total_score =
     bindE (remove_loop [0..<FILE_NUM] ec)
       (\<lambda>(r, ec1). Inr (r, ec1, if r = 0 then total_score + 20 else total_score))"

text \<open>\<open>main\<close> with no arguments: the final score; \<open>None\<close> is the exit in the constructor.\<close>

definition lab1_main ::
  "(nat \<Rightarrow> nat) \<Rightarrow> (nat \<Rightarrow> nat) \<Rightarrow> (nat \<Rightarrow> nat) \<Rightarrow> (nat \<Rightarrow> nat \<Rightarrow> byte) \<Rightarrow> byte list \<Rightarrow> byte list \<Rightarrow>
     nat option res" where
  "lab1_main rnd1 rnd2 rnd3 junk after1 after2 =
     bindE extent_client_new
       (\<lambda>r. case r of
          None \<Rightarrow> Inr None
        | Some ec \<Rightarrow>
            bindE (test_create_and_getattr rnd1 ec 0) (\<lambda>(r, ec1, s1).
            if r \<noteq> 0 then Inr (Some s1) else
            bindE (test_put_and_get rnd2 rnd3 junk after1 after2 ec1 s1) (\<lambda>(r, ec2, s2).
            if r \<noteq> 0 then Inr (Some s2) else
            bindE (test_remove ec2 s2) (\<lambda>(_, _, s3). Inr (Some s3)))))"

section \<open>Every test passes\<close>

lemma dec_length: "n < 10000 \<Longrightarrow> length (dec n) \<le> 4"
  by (simp add: dec.simps [of n] dec.simps [of "n div 10"] dec.simps [of "n div 10 div 10"]
      dec.simps [of "n div 10 div 10 div 10"])

text \<open>The files 1 to \<open>n\<close> exist, each a directory or a file; the next one gets number \<open>n + 1\<close>.\<close>

definition populated :: "nat \<Rightarrow> extent_client \<Rightarrow> bool" where
  "populated n ec \<longleftrightarrow> store_inv ec \<and> dom (store_view ec) = {1..n} \<and>
     (\<forall>k t d. store_view ec k = Some (t, d) \<longrightarrow> (t = 1 \<or> t = 2) \<and> length d \<le> 4)"

lemma types [simp]: "(ucast T_DIR :: u16) = 1" "(ucast T_FILE :: u16) = 2"
  "(scast (1 :: u16) :: u32) = 1" "(scast (2 :: u16) :: u32) = 2"
  by (simp_all add: T_DIR_def T_FILE_def)

lemma create_next:
  assumes "store_inv ec" "dom (store_view ec) = {1..n}" "n + 1 < INODE_NUM" "(ucast type :: u16) \<noteq> 0"
  obtains ec' where "extent_client_create ec type = Inr (OK, of_nat (n + 1), ec')" "store_inv ec'"
    "store_view ec' = (store_view ec)(n + 1 \<mapsto> (ucast type, []))" "store_free ec' = store_free ec"
proof -
  have "store_view ec (n + 1) = None"
  proof -
    have "n + 1 \<notin> dom (store_view ec)" unfolding assms(2) by simp
    then show ?thesis by (simp only: domIff not_not)
  qed
  from ec.create_law [OF assms(1,4) this] assms(3) obtain eid ec' where
    c: "extent_client_create ec type = Inr (OK, eid, ec')" "store_inv ec'" "eid = of_nat (key eid)"
    "1 \<le> key eid" "key eid \<le> n + 1" "store_view ec (key eid) = None"
    "store_view ec' = (store_view ec)(key eid \<mapsto> (ucast type, []))" "store_free ec' = store_free ec"
    by auto
  have "key eid \<notin> {1..n}"
    using c(6) unfolding assms(2) [symmetric] by (simp only: domIff simp_thms)
  then have "key eid = n + 1" using c(4,5) by auto
  with c that show ?thesis by metis
qed

lemma create_round_ok:
  assumes "populated n ec" "n + 1 < INODE_NUM" "type = T_DIR \<or> type = T_FILE"
  obtains ec' where "create_round type ec = Inr (0, ec')" "populated (n + 1) ec'"
    "store_free ec' = store_free ec"
proof -
  have t: "(ucast type :: u16) \<noteq> 0" "(scast (ucast type :: u16) :: u32) = type"
    using assms(3) by (auto simp: T_DIR_def T_FILE_def)
  obtain ec' where c: "extent_client_create ec type = Inr (OK, of_nat (n + 1), ec')" "store_inv ec'"
    "store_view ec' = (store_view ec)(n + 1 \<mapsto> (ucast type, []))" "store_free ec' = store_free ec"
    using create_next [of ec n type] assms(1,2) t(1) by (auto simp: populated_def)
  have k: "key (of_nat (n + 1)) = n + 1"
    using assms(2) by (rule key_of_nat)
  have "unat (of_nat (n + 1) :: u32) = n + 1"
    using assms(2) by (intro unat_of_nat_u32) (simp add: layout_values)
  moreover have "(ucast (of_nat (n + 1) :: u64) :: u32) = of_nat (n + 1)"
    using assms(2)
    by (simp add: unsigned_of_nat take_bit_nat_eq_self layout_values del: of_nat_Suc of_nat_add)
  ultimately have nz: "(ucast (of_nat (n + 1) :: u64) :: u32) \<noteq> 0"
    by (metis add_is_0 one_neq_zero unsigned_0)
  from ec.getattr_law [OF c(2), of "of_nat (n + 1)"] obtain a where
    "extent_client_getattr ec' (of_nat (n + 1)) = Inr (OK, a)" "a_type a = type"
    unfolding k c(3) using t(2) by auto
  with c(1) nz have "create_round type ec = Inr (0, ec')"
    by (simp add: create_round_def)
  moreover have "populated (n + 1) ec'"
    using assms(1,3) c(2,3) by (auto simp: populated_def)
  ultimately show ?thesis using that c(4) by blast
qed

lemma create_loop_ok:
  assumes "populated (a + 1) ec" "a \<le> FILE_NUM"
  obtains ec' where "create_loop [a..<FILE_NUM] rnd ec = Inr (0, ec')" "populated (FILE_NUM + 1) ec'"
    "store_free ec' = store_free ec"
proof -
  have "\<exists>ec'. create_loop [a..<FILE_NUM] rnd ec = Inr (0, ec') \<and> populated (FILE_NUM + 1) ec' \<and>
      store_free ec' = store_free ec"
    using assms
  proof (induction "FILE_NUM - a" arbitrary: a ec)
    case 0
    then show ?case by auto
  next
    case (Suc m)
    then have a: "a < FILE_NUM" by simp
    have "Suc a + 1 < INODE_NUM"
      using a by (simp add: FILE_NUM_def layout_values)
    then have next_lt: "a + 1 + 1 < INODE_NUM" by simp
    define type where "type = (if rnd a mod 10 < 3 then T_DIR else T_FILE)"
    then have "type = T_DIR \<or> type = T_FILE" by simp
    then obtain ec1 where r: "create_round type ec = Inr (0, ec1)" "populated (a + 1 + 1) ec1"
      "store_free ec1 = store_free ec"
      using create_round_ok [OF Suc.prems(1) next_lt] by blast
    moreover have "create_loop [a..<FILE_NUM] rnd ec = create_loop [Suc a..<FILE_NUM] rnd ec1"
      using a r(1) by (simp add: upt_conv_Cons type_def)
    ultimately show ?case
      using Suc.hyps(1) [of "Suc a" ec1] Suc.hyps(2) a by auto
  qed
  with that show ?thesis by blast
qed

text \<open>The loop invariant of the put loop: what was stored for the files below \<open>a\<close>.\<close>

definition recorded :: "nat \<Rightarrow> (nat \<rightharpoonup> nat) \<Rightarrow> extent_client \<Rightarrow> bool" where
  "recorded a cts ec \<longleftrightarrow>
     (\<forall>i<a. \<forall>d. store_view ec (i + 2) = Some (2, d) \<longrightarrow> (\<exists>c. cts i = Some c \<and> d = dec c))"

lemma populated_file:
  assumes "populated (FILE_NUM + 1) ec" "i < FILE_NUM"
  obtains t d a where "store_view ec (i + 2) = Some (t, d)" "t = 1 \<or> t = 2" "length d \<le> 4"
    "key (of_nat (i + 2)) = i + 2" "extent_client_getattr ec (of_nat (i + 2)) = Inr (OK, a)"
    "a_type a = T_FILE \<longleftrightarrow> t = 2"
proof -
  have k: "key (of_nat (i + 2)) = i + 2"
    using assms(2) by (intro key_of_nat) (simp add: FILE_NUM_def layout_values)
  have "i + 2 \<in> dom (store_view ec)"
    using assms by (simp add: populated_def)
  then obtain t d where v: "store_view ec (i + 2) = Some (t, d)" by auto
  moreover from this assms(1) have t: "t = 1 \<or> t = 2" "length d \<le> 4"
    by (auto simp: populated_def)
  moreover obtain a where "extent_client_getattr ec (of_nat (i + 2)) = Inr (OK, a)" "a_type a = scast t"
    using ec.getattr_law [of ec "of_nat (i + 2)"] assms(1) v unfolding k by (auto simp: populated_def)
  moreover have "(scast t :: u32) = T_FILE \<longleftrightarrow> t = 2"
    using t by (auto simp: T_FILE_def)
  ultimately show ?thesis using that k by metis
qed

lemma put_round_ok:
  assumes "populated (FILE_NUM + 1) ec" "recorded a cts ec" "a < FILE_NUM" "0 < store_free ec"
    "store_view ec (a + 2) = Some (2, d)" "c < 10000"
  obtains ec' where "extent_client_put junk ec (of_nat (a + 2)) (dec c) = Inr (OK, ec')"
    "populated (FILE_NUM + 1) ec'" "recorded (Suc a) (cts(a \<mapsto> c)) ec'" "store_free ec \<le> Suc (store_free ec')"
proof -
  have k: "key (of_nat (a + 2)) = a + 2"
    using assms(3) by (intro key_of_nat) (simp add: FILE_NUM_def layout_values)
  have c: "length (dec c) \<le> 4" using assms(6) by (rule dec_length)
  then have n: "nown (nblk (length (dec c))) \<le> 1" by (rule nown_small)
  have inv: "store_inv ec" using assms(1) by (simp add: populated_def)
  have "length (dec c) \<le> MAXBYTES" using c by (simp add: MAXBYTES_value)
  then obtain ec' where p: "extent_client_put junk ec (of_nat (a + 2)) (dec c) = Inr (OK, ec')" "store_inv ec'"
    "store_view ec' = (store_view ec)(a + 2 \<mapsto> (2, dec c))"
    "store_free ec' = store_free ec - (nown (nblk (length (dec c))) - nown (nblk (length d)))"
    using ec.put_law [OF inv, of "of_nat (a + 2)" 2 d "dec c" junk] assms(4,5) n unfolding k by auto
  have "populated (FILE_NUM + 1) ec'"
    using assms(1,5) p(2,3) c by (auto simp: populated_def)
  moreover have "recorded (Suc a) (cts(a \<mapsto> c)) ec'"
    using assms(2) p(3) by (auto simp: recorded_def less_Suc_eq)
  ultimately show ?thesis
    using that p(1,4) n by simp
qed

lemma put_loop_ok:
  assumes "populated (FILE_NUM + 1) ec" "recorded a cts ec" "a \<le> FILE_NUM" "FILE_NUM - a \<le> store_free ec"
  shows "\<exists>ec' cts'. put_loop [a..<FILE_NUM] rnd junk k cts ec = Inr (0, cts', ec') \<and>
    populated (FILE_NUM + 1) ec' \<and> recorded FILE_NUM cts' ec' \<and>
    store_free ec \<le> store_free ec' + (FILE_NUM - a)"
  using assms
proof (induction "FILE_NUM - a" arbitrary: a cts ec k)
  case 0
  then show ?case by auto
next
  case (Suc m)
  then have a: "a < FILE_NUM" "0 < store_free ec" by auto
  obtain t d at where f: "store_view ec (a + 2) = Some (t, d)"
    "extent_client_getattr ec (of_nat (a + 2)) = Inr (OK, at)" "a_type at = T_FILE \<longleftrightarrow> t = 2"
    using populated_file [OF Suc.prems(1) a(1)] by metis
  show ?case
  proof (cases "t = 2")
    case True
    let ?c = "rnd k mod 10000"
    obtain ec1 where p: "extent_client_put (junk a) ec (of_nat (a + 2)) (dec ?c) = Inr (OK, ec1)"
      "populated (FILE_NUM + 1) ec1" "recorded (Suc a) (cts(a \<mapsto> ?c)) ec1" "store_free ec \<le> Suc (store_free ec1)"
      using put_round_ok [OF Suc.prems(1,2) a, of d ?c "junk a"] f(1) True by auto
    have "put_loop [a..<FILE_NUM] rnd junk k cts ec =
        put_loop [Suc a..<FILE_NUM] rnd junk (Suc k) (cts(a \<mapsto> ?c)) ec1"
      using a(1) f p(1) True by (simp add: upt_conv_Cons Let_def)
    moreover have "\<exists>ec' cts'. put_loop [Suc a..<FILE_NUM] rnd junk (Suc k) (cts(a \<mapsto> ?c)) ec1 = Inr (0, cts', ec')
        \<and> populated (FILE_NUM + 1) ec' \<and> recorded FILE_NUM cts' ec' \<and>
        store_free ec1 \<le> store_free ec' + (FILE_NUM - Suc a)"
      using Suc.hyps(2) Suc.prems(4) a(1) p by (intro Suc.hyps(1)) auto
    ultimately show ?thesis
      using p(4) a(1) by auto
  next
    case False
    have "put_loop [a..<FILE_NUM] rnd junk k cts ec = put_loop [Suc a..<FILE_NUM] rnd junk k cts ec"
      using a(1) f False by (simp add: upt_conv_Cons)
    moreover have "recorded (Suc a) cts ec"
      using Suc.prems(2) f(1) False by (auto simp: recorded_def less_Suc_eq)
    then have "\<exists>ec' cts'. put_loop [Suc a..<FILE_NUM] rnd junk k cts ec = Inr (0, cts', ec')
        \<and> populated (FILE_NUM + 1) ec' \<and> recorded FILE_NUM cts' ec' \<and>
        store_free ec \<le> store_free ec' + (FILE_NUM - Suc a)"
      using Suc.hyps(2) Suc.prems(1,4) a(1) by (intro Suc.hyps(1)) auto
    ultimately show ?thesis
      using a(1) by auto
  qed
qed

lemma get_loop_ok:
  assumes "populated (FILE_NUM + 1) ec" "recorded FILE_NUM cts ec" "a \<le> FILE_NUM"
  shows "get_loop [a..<FILE_NUM] cts ec = Inr 0"
  using assms(3)
proof (induction "FILE_NUM - a" arbitrary: a)
  case (Suc m)
  then have a: "a < FILE_NUM" by simp
  obtain t d at where f: "store_view ec (a + 2) = Some (t, d)" "key (of_nat (a + 2)) = a + 2"
    "extent_client_getattr ec (of_nat (a + 2)) = Inr (OK, at)" "a_type at = T_FILE \<longleftrightarrow> t = 2"
    using populated_file [OF assms(1) a] by blast
  have "extent_client_get ec (of_nat (a + 2)) = Inr (OK, d)"
    using ec.get_law [of ec "of_nat (a + 2)"] assms(1) f(1) unfolding f(2) by (simp add: populated_def)
  moreover have "\<exists>c. cts a = Some c \<and> d = dec c" if "t = 2"
    using assms(2) a f(1) that by (auto simp: recorded_def)
  ultimately show ?case
    using Suc.hyps a f by (cases "t = 2") (auto simp: upt_conv_Cons)
qed simp

text \<open>A large file is created under the next number and holds what was put.\<close>

lemma create_and_put:
  assumes "store_inv ec" "dom (store_view ec) = {1..n}" "n + 1 < INODE_NUM"
    "length buf \<le> MAXBYTES" "160 \<le> store_free ec"
  obtains ec1 ec2 where "extent_client_create ec T_FILE = Inr (OK, of_nat (n + 1), ec1)"
    "extent_client_put junk ec1 (of_nat (n + 1)) buf = Inr (OK, ec2)" "store_inv ec2"
    "store_view ec2 = (store_view ec)(n + 1 \<mapsto> (2, buf))" "store_free ec \<le> store_free ec2 + 160"
proof -
  obtain ec1 where c: "extent_client_create ec T_FILE = Inr (OK, of_nat (n + 1), ec1)" "store_inv ec1"
    "store_view ec1 = (store_view ec)(n + 1 \<mapsto> (ucast T_FILE, []))" "store_free ec1 = store_free ec"
    using create_next [OF assms(1-3), of T_FILE] by auto
  have k: "key (of_nat (n + 1)) = n + 1"
    using assms(3) by (rule key_of_nat)
  have small: "nown (nblk (length buf)) \<le> 160"
    using file_size_bounds(1) [OF assms(4)] by (simp add: nown_def layout_values)
  have "store_view ec1 (key (of_nat (n + 1))) = Some (2, [])"
    unfolding k c(3) by simp
  from ec.put_law [OF c(2) this assms(4), of junk] small assms(5) c(4) obtain ec2 where
    "extent_client_put junk ec1 (of_nat (n + 1)) buf = Inr (OK, ec2)" "store_inv ec2"
    "store_view ec2 = (store_view ec1)(n + 1 \<mapsto> (2, buf))"
    "store_free ec2 = store_free ec1 - (nown (nblk (length buf)) - nown (nblk 0))"
    unfolding k by auto
  then show ?thesis
    using that c small by simp
qed

lemma get_view:
  assumes "store_inv ec" "store_view ec n = Some (t, d)" "n < INODE_NUM"
  shows "extent_client_get ec (of_nat n) = Inr (OK, d)"
  using ec.get_law [OF assms(1), of "of_nat n"] assms(2) unfolding key_of_nat [OF assms(3)] by simp

lemma test_indirect_ok:
  assumes "store_inv ec" "dom (store_view ec) = {1..n}" "n + 2 < INODE_NUM" "320 \<le> store_free ec"
    "LARGE_FILE_SIZE + length after1 \<le> MAXBYTES" "LARGE_FILE_SIZE + length after2 \<le> MAXBYTES"
  obtains ec' where "test_indirect rnd junk after1 after2 ec score = Inr (0, ec', score + 10)"
    "store_inv ec'"
proof -
  define buf where "buf = large_buf rnd 0 after1"
  define buf2 where "buf2 = large_buf rnd LARGE_FILE_SIZE after2"
  have len: "length buf \<le> MAXBYTES" "length buf2 \<le> MAXBYTES"
    using assms(5,6) by (simp_all add: buf_def buf2_def large_buf_def)
  have n: "n + 1 < INODE_NUM" "n + 1 + 1 < INODE_NUM" and f: "160 \<le> store_free ec"
    using assms(3,4) by simp_all
  obtain ec1 ec2 where a: "extent_client_create ec T_FILE = Inr (OK, of_nat (n + 1), ec1)"
    "extent_client_put (junk 0) ec1 (of_nat (n + 1)) buf = Inr (OK, ec2)" "store_inv ec2"
    "store_view ec2 = (store_view ec)(n + 1 \<mapsto> (2, buf))" "store_free ec \<le> store_free ec2 + 160"
    by (rule create_and_put [OF assms(1,2) n(1) len(1) f, of "junk 0"]) (rule that)
  have d: "dom (store_view ec2) = {1..n + 1}" and f2: "160 \<le> store_free ec2"
    using a(4,5) assms(2,4) by auto
  obtain ec3 ec4 where b: "extent_client_create ec2 T_FILE = Inr (OK, of_nat (n + 1 + 1), ec3)"
    "extent_client_put (junk 1) ec3 (of_nat (n + 1 + 1)) buf2 = Inr (OK, ec4)" "store_inv ec4"
    "store_view ec4 = (store_view ec2)(n + 1 + 1 \<mapsto> (2, buf2))"
    by (rule create_and_put [OF a(3) d n(2) len(2) f2, of "junk 1"]) (rule that)
  have g: "extent_client_get ec4 (of_nat (n + 1)) = Inr (OK, buf)"
    "extent_client_get ec4 (of_nat (n + 1 + 1)) = Inr (OK, buf2)"
    using a(4) b(4) get_view [OF b(3) _ n(1), of 2 buf] get_view [OF b(3) _ n(2), of 2 buf2]
    by (simp_all del: of_nat_add of_nat_Suc)
  have "test_indirect rnd junk after1 after2 ec score = Inr (0, ec4, score + 10)"
    unfolding test_indirect_def Let_def buf_def [symmetric] buf2_def [symmetric]
    using a(1,2) b(1,2) g by (simp del: of_nat_add of_nat_Suc)
  with that b(3) show ?thesis by blast
qed

lemma remove_loop_ok:
  assumes "store_inv ec" "a \<le> FILE_NUM"
  shows "\<exists>ec'. remove_loop [a..<FILE_NUM] ec = Inr (0, ec')"
  using assms
proof (induction "FILE_NUM - a" arbitrary: a ec)
  case (Suc m)
  then have a: "a < FILE_NUM" by simp
  obtain ec1 where "extent_client_remove ec (of_nat (a + 2)) = Inr (OK, ec1)" "store_inv ec1"
    "extent_client_getattr ec1 (of_nat (a + 2)) = Inr (OK, attr_zero)"
    using ec.remove_then_absent [OF Suc.prems(1), of "of_nat (a + 2)"] by blast
  with Suc.hyps a show ?case
    by (auto simp: upt_conv_Cons attr_zero_def)
qed simp

lemma lab1_main_full_score:
  assumes "LARGE_FILE_SIZE + length after1 \<le> MAXBYTES" "LARGE_FILE_SIZE + length after2 \<le> MAXBYTES"
  shows "lab1_main rnd1 rnd2 rnd3 junk after1 after2 = Inr (Some 100)"
proof -
  obtain ec where new: "extent_client_new = Inr (Some ec)" "store_inv ec" "store_view ec = [1 \<mapsto> (1, [])]"
    "store_free ec = BLOCK_NUM - DATA_START"
    by (rule extent_client_new_ok)
  then have "populated (0 + 1) ec" "store_free ec = 32415"
    by (auto simp: populated_def layout_values DATA_START_def)
  moreover obtain ec1 where 1: "create_loop [0..<FILE_NUM] rnd1 ec = Inr (0, ec1)"
    "populated (FILE_NUM + 1) ec1" "store_free ec1 = store_free ec"
    using create_loop_ok [OF calculation(1), of rnd1] by auto
  moreover have "recorded 0 Map.empty ec1" by (simp add: recorded_def)
  ultimately obtain ec2 cts where 2: "put_loop [0..<FILE_NUM] rnd2 junk 0 Map.empty ec1 = Inr (0, cts, ec2)"
    "populated (FILE_NUM + 1) ec2" "recorded FILE_NUM cts ec2" "32415 \<le> store_free ec2 + FILE_NUM"
    using put_loop_ok [of ec1 0 Map.empty rnd2 junk 0] by (auto simp: FILE_NUM_def)
  have "store_inv ec2" "dom (store_view ec2) = {1..FILE_NUM + 1}" "FILE_NUM + 1 + 2 < INODE_NUM"
    "320 \<le> store_free ec2"
    using 2(2,4) by (auto simp: populated_def FILE_NUM_def layout_values)
  then obtain ec3 where 3: "test_indirect rnd3 junk after1 after2 ec2 70 = Inr (0, ec3, 80)" "store_inv ec3"
    using test_indirect_ok [OF _ _ _ _ assms, of ec2 "FILE_NUM + 1" rnd3 junk 70] by auto
  obtain ec4 where "remove_loop [0..<FILE_NUM] ec3 = Inr (0, ec4)"
    using remove_loop_ok [OF 3(2), of 0] by auto
  then show ?thesis
    using 1(1) 2(1) 3(1) get_loop_ok [OF 2(2,3), of 0]
    by (simp add: new(1) lab1_main_def test_create_and_getattr_def test_put_and_get_def test_remove_def)
qed

end
