(* ===== verification/Extent_Trace.thy ===== *)
theory Extent_Trace
  imports Lab1_Tester
begin

text \<open>
  Whole sessions with the extent store. \<open>handle\<close> performs one client call on the model of the code,
  \<open>spec\<close> says on the abstract file system what the call is to do, and \<open>serve_refines\<close> shows that
  a sequence of calls gives exactly the replies of the specification, as long as no file exceeds
  \<open>MAXBYTES\<close> and the disk has room for everything written.
\<close>

section \<open>Calls and replies\<close>

datatype request = Create u32 | Put u64 "byte list" | Get u64 | Getattr u64 | Remove u64

datatype reply = Created u64 | Done | Data "byte list" | Attr u32 nat

definition handle ::
  "(nat \<Rightarrow> byte) \<Rightarrow> extent_client \<Rightarrow> request \<Rightarrow> (int \<times> reply \<times> extent_client) res" where
  "handle junk ec req =
     (case req of
        Create type \<Rightarrow> bindE (extent_client_create ec type) (\<lambda>(r, eid, ec'). Inr (r, Created eid, ec'))
      | Put eid buf \<Rightarrow> bindE (extent_client_put junk ec eid buf) (\<lambda>(r, ec'). Inr (r, Done, ec'))
      | Get eid \<Rightarrow> bindE (extent_client_get ec eid) (\<lambda>(r, buf). Inr (r, Data buf, ec))
      | Getattr eid \<Rightarrow>
          bindE (extent_client_getattr ec eid)
            (\<lambda>(r, a). Inr (r, Attr (a_type a) (unat (a_size a)), ec))
      | Remove eid \<Rightarrow> bindE (extent_client_remove ec eid) (\<lambda>(r, ec'). Inr (r, Done, ec')))"

fun serve ::
  "extent_client \<Rightarrow> (request \<times> (nat \<Rightarrow> byte)) list \<Rightarrow> ((int \<times> reply) list \<times> extent_client) res" where
  "serve ec [] = Inr ([], ec)"
| "serve ec ((req, junk) # reqs) =
     bindE (handle junk ec req)
       (\<lambda>(r, rep, ec1). bindE (serve ec1 reqs) (\<lambda>(reps, ec2). Inr ((r, rep) # reps, ec2)))"

section \<open>The specification\<close>

fun spec :: "fs \<Rightarrow> request \<Rightarrow> reply \<times> fs" where
  "spec v (Create type) =
     (case List.find (\<lambda>i. v i = None) [1..<INODE_NUM] of
        Some i \<Rightarrow> (Created (of_nat i), v(i \<mapsto> (ucast type, [])))
      | None \<Rightarrow> (Created 0, v))"
| "spec v (Put eid buf) =
     (Done, case v (key eid) of None \<Rightarrow> v | Some (t, _) \<Rightarrow> v(key eid \<mapsto> (t, buf)))"
| "spec v (Get eid) = (Data (case v (key eid) of None \<Rightarrow> [] | Some (_, d) \<Rightarrow> d), v)"
| "spec v (Getattr eid) =
     ((case v (key eid) of None \<Rightarrow> Attr 0 0 | Some (t, d) \<Rightarrow> Attr (scast t) (length d)), v)"
| "spec v (Remove eid) = (Done, v(key eid := None))"

fun spec_serve :: "fs \<Rightarrow> request list \<Rightarrow> reply list \<times> fs" where
  "spec_serve v [] = ([], v)"
| "spec_serve v (req # reqs) =
     (let (rep, v1) = spec v req; (reps, v2) = spec_serve v1 reqs in (rep # reps, v2))"

text \<open>Requests the code is meant to handle: types whose low 16 bits are not all zero (the type field of an
  inode is a \<open>short\<close>), strings that fit in a file. \<open>demand\<close> bounds the blocks a request takes.\<close>

fun admissible :: "request \<Rightarrow> bool" where
  "admissible (Create type) \<longleftrightarrow> (ucast type :: u16) \<noteq> 0"
| "admissible (Put eid buf) \<longleftrightarrow> length buf \<le> MAXBYTES"
| "admissible _ \<longleftrightarrow> True"

fun demand :: "request \<Rightarrow> nat" where
  "demand (Put eid buf) = nown (nblk (length buf))"
| "demand _ = 0"

section \<open>Refinement\<close>

lemma find_upt_iff:
  "List.find P [a..<b] = Some i \<longleftrightarrow> a \<le> i \<and> i < b \<and> P i \<and> (\<forall>j. a \<le> j \<and> j < i \<longrightarrow> \<not> P j)"
proof
  assume i: "a \<le> i \<and> i < b \<and> P i \<and> (\<forall>j. a \<le> j \<and> j < i \<longrightarrow> \<not> P j)"
  then have "[a..<b] ! (i - a) = i" "i - a < length [a..<b]" by auto
  then have "List.find P [a..<b] \<noteq> None"
    using i by (auto simp: find_None_iff)
  then obtain k where k: "List.find P [a..<b] = Some k" by auto
  from find_upt_Some [OF k] i have "k = i" by (meson not_less_iff_gr_or_eq)
  with k show "List.find P [a..<b] = Some i" by simp
qed (use find_upt_Some [of P a b i] in blast)

lemma create_refines:
  assumes inv: "store_inv ec" and t: "(ucast type :: u16) \<noteq> 0"
  shows "\<exists>ec'. handle junk ec (Create type) = Inr (OK, fst (spec (store_view ec) (Create type)), ec') \<and>
    store_inv ec' \<and> store_view ec' = snd (spec (store_view ec) (Create type)) \<and>
    store_free ec' = store_free ec"
proof (cases "List.find (\<lambda>i. store_view ec i = None) [1..<INODE_NUM]")
  case None
  then have "extent_client_create ec type = Inr (OK, 0, ec)"
    by (intro ec.create_full [OF inv]) (auto simp: find_None_iff)
  with None inv show ?thesis by (simp add: handle_def)
next
  case (Some i)
  note i = find_upt_Some [OF Some]
  from ec.create_law [OF inv t i(3,1,2)] obtain eid ec' where
    c: "extent_client_create ec type = Inr (OK, eid, ec')" "store_inv ec'" "eid = of_nat (key eid)"
    "1 \<le> key eid" "key eid \<le> i" "store_view ec (key eid) = None"
    "store_view ec' = (store_view ec)(key eid \<mapsto> (ucast type, []))" "store_free ec' = store_free ec"
    by blast
  have "key eid = i"
    using i(4) c(4-6) by (meson not_less_iff_gr_or_eq order_le_less)
  then have "eid = of_nat i"
    using c(3) by simp
  with c(1,2,7,8) \<open>key eid = i\<close> Some show ?thesis by (simp add: handle_def)
qed

lemma put_refines:
  assumes inv: "store_inv ec" and len: "length buf \<le> MAXBYTES"
    and free: "nown (nblk (length buf)) \<le> store_free ec"
  shows "\<exists>ec'. handle junk ec (Put eid buf) = Inr (OK, Done, ec') \<and> store_inv ec' \<and>
    store_view ec' = snd (spec (store_view ec) (Put eid buf)) \<and>
    store_free ec \<le> store_free ec' + nown (nblk (length buf))"
proof (cases "store_view ec (key eid)")
  case None
  with inv ec.put_missing [OF inv None] show ?thesis by (simp add: handle_def)
next
  case (Some f)
  obtain t d where f: "f = (t, d)" by (cases f)
  with Some ec.put_law [OF inv _ len, of eid t d junk] free show ?thesis
    by (auto simp: handle_def)
qed

lemma handle_refines:
  assumes inv: "store_inv ec" and "admissible req" "demand req \<le> store_free ec"
  shows "\<exists>ec'. handle junk ec req = Inr (OK, fst (spec (store_view ec) req), ec') \<and> store_inv ec' \<and>
    store_view ec' = snd (spec (store_view ec) req) \<and> store_free ec \<le> store_free ec' + demand req"
proof (cases req)
  case (Create type)
  with assms create_refines [OF inv, of type junk] show ?thesis by auto
next
  case (Put eid buf)
  with assms put_refines [OF inv, of buf junk eid] show ?thesis by auto
next
  case (Get eid)
  with inv ec.get_law [OF inv, of eid] show ?thesis by (simp add: handle_def)
next
  case (Getattr eid)
  with inv ec.getattr_law [OF inv, of eid] show ?thesis
    by (auto simp: handle_def attr_zero_def split: option.splits)
next
  case (Remove eid)
  with inv ec.remove_law [OF inv, of eid] show ?thesis
    by (auto simp: handle_def split: option.splits)
qed

lemma serve_refines:
  assumes "store_inv ec" "\<forall>(req, junk)\<in>set reqs. admissible req"
    "sum_list (map (demand \<circ> fst) reqs) \<le> store_free ec"
  shows "\<exists>ec'. serve ec reqs = Inr (map (Pair OK) (fst (spec_serve (store_view ec) (map fst reqs))), ec') \<and>
    store_inv ec' \<and> store_view ec' = snd (spec_serve (store_view ec) (map fst reqs))"
  using assms
proof (induction reqs arbitrary: ec)
  case (Cons rj reqs)
  obtain req junk where rj: "rj = (req, junk)" by (cases rj)
  have "admissible req" "demand req \<le> store_free ec"
    using Cons.prems(2,3) by (auto simp: rj)
  from handle_refines [OF Cons.prems(1) this, of junk] obtain ec1 where
    h: "handle junk ec req = Inr (OK, fst (spec (store_view ec) req), ec1)" "store_inv ec1"
    "store_view ec1 = snd (spec (store_view ec) req)" "store_free ec \<le> store_free ec1 + demand req"
    by blast
  from Cons.IH [OF h(2)] Cons.prems(2,3) h(4) obtain ec' where
    "serve ec1 reqs = Inr (map (Pair OK) (fst (spec_serve (store_view ec1) (map fst reqs))), ec')"
    "store_inv ec'" "store_view ec' = snd (spec_serve (store_view ec1) (map fst reqs))"
    by (auto simp: rj)
  then show ?case
    using h(1,3) by (simp add: rj split: prod.splits)
qed simp

end
