(* ===== verification/File_Limits.thy ===== *)
theory File_Limits
  imports Extent_Trace
begin

text \<open>
  What the file layer does outside the range its correctness theorems cover: files of \<open>MAXFILE\<close> blocks,
  whose indirect block \<open>write_file\<close> never stores, and larger ones, which it accepts and \<open>read_file\<close>
  then reads past the indirect block for.
\<close>

section \<open>Writing MAXFILE blocks or more\<close>

lemma write_indirect_full:
  assumes inv: "bm_inv bm" and ib: "unat ib \<in> used bm" and cur: "MAXFILE \<le> cur" and free: "NINDIRECT \<le> free_count bm"
    and ind: "length ind = NINDIRECT"
  obtains bm' where "write_indirect [NDIRECT..<NINDIRECT + NDIRECT] cur 0 p ib bm ind = bm'"
    "bm_inv bm'" "blk bm' (unat ib) = blk bm (unat ib)" "\<forall>b\<in>used bm. blk bm' b = blk bm b"
proof -
  let ?cs = "map (buf_block p) [NDIRECT..<NINDIRECT + NDIRECT]"
  obtain bm' bs where pl: "place bm ?cs [] = (bm', bs)" by (cases "place bm ?cs []")
  have lo: "NDIRECT \<le> cur" using cur by (simp add: MAXFILE_def)
  have m: "NINDIRECT + NDIRECT = min cur (NINDIRECT + NDIRECT)" "\<not> cur < NINDIRECT + NDIRECT"
    using cur by (simp_all add: layout_values)
  have "write_indirect [NDIRECT..<NINDIRECT + NDIRECT] cur 0 p ib bm ind =
      (if cur < NINDIRECT + NDIRECT then write_block bm' ib (Some (\<lambda>k. bytes_of_u32s
        (take (NDIRECT - NDIRECT) ind @ bs @ drop (max NDIRECT (NINDIRECT + NDIRECT) - NDIRECT) ind) ! k)) else bm')"
    using pl ind lo by (intro write_indirect_place [OF _ _ _ _ m(1) _ refl]) simp_all
  then have run: "write_indirect [NDIRECT..<NINDIRECT + NDIRECT] cur 0 p ib bm ind = bm'"
    using m(2) by simp
  have "\<exists>news. bs = take (length ?cs) [] @ news \<and> placed bm bm' ?cs bs news"
    by (rule place_spec [OF pl inv]) (use free in simp_all)
  then have p: "placed bm bm' ?cs bs bs" by simp
  then have inv': "bm_inv bm'" unfolding placed_def by blast
  have keep: "blk bm' b = blk bm b" if "b \<in> used bm" for b
  proof -
    have "b \<notin> unat ` set bs" using p that unfolding placed_def by blast
    then show ?thesis using p unfolding placed_def by blast
  qed
  show ?thesis by (rule that [OF run inv' keep [OF ib]]) (simp add: keep)
qed

lemma write_blocks_full:
  assumes inv: "bm_inv bm" and ok: "inode_ok bm x" and len: "length (iblocks x) = NDIRECT + 1"
    and x: "isize x = 0" and cur: "MAXFILE \<le> cur" and free: "MAXFILE < free_count bm"
  obtains bm' bs ib where "write_blocks cur 0 p bm (iblocks x) = Inr (bm', bs @ [ib])"
    "bm_inv bm'" "length bs = NDIRECT" "\<forall>b\<in>set (ib # bs). DATA_START \<le> unat b \<and> unat b < BLOCK_NUM"
    "unat ib \<notin> used bm" "blk bm' (unat ib) = blk bm (unat ib)"
proof -
  have m: "min cur NDIRECT = NDIRECT" using cur by (simp add: MAXFILE_def)
  have curN: "NDIRECT < cur" using cur by (simp add: MAXFILE_def layout_values(4,9))
  have z: "(0::nat) = nblk (unat (isize x))" by (simp add: x)
  have fr: "NDIRECT \<le> 0 + free_count bm" using free by (simp add: MAXFILE_def)
  obtain bm1 bs news where
    run: "write_direct [0..<NDIRECT] cur 0 p bm (iblocks x) = (bm1, bs @ drop NDIRECT (iblocks x))"
    and bs: "bs = take (min 0 NDIRECT) (iblocks x) @ news"
    and pl: "placed bm bm1 (map (buf_block p) [0..<NDIRECT]) bs news"
    using direct_run [OF inv ok len z refl, where cur = cur and p = p, unfolded m] fr by blast
  have p: "bm_inv bm1" "length bs = NDIRECT" "used bm1 = used bm \<union> unat ` set bs"
    "\<forall>b\<in>set bs. unat b \<notin> used bm \<and> DATA_START \<le> unat b \<and> unat b < BLOCK_NUM"
    "free_count bm1 = free_count bm - NDIRECT"
    "\<And>k. k \<notin> unat ` set bs \<Longrightarrow> blk bm1 k = blk bm k"
    using pl bs by (auto simp: placed_def)
  have bs1: "list_all (data_block bm1) bs"
    using p(3,4) by (auto simp: list_all_iff data_block_def)
  have "0 < free_count bm1" "used bm \<subseteq> used bm1" "(0::nat) \<le> NDIRECT"
    using free p(3,5) by (auto simp: MAXFILE_def)
  then obtain bm2 ib where
    part: "write_indirect_part cur 0 p bm1 (bs @ drop NDIRECT (iblocks x)) =
      Inr (write_indirect [NDIRECT..<NINDIRECT + NDIRECT] cur 0 p ib bm2 (replicate NINDIRECT 0), bs @ [ib])"
    and rd: "indirect_ready bm bm1 x bs bm2 ib []"
    using indirect_setup_new [OF inv bs1 len p(2) z _ curN p(1), of p] by blast
  have r: "bm_inv bm2" "data_block bm2 ib" "ib \<notin> set bs" "unat ib \<notin> used bm" "blk bm2 = blk bm1"
    "free_count bm2 = free_count bm1 - 1"
    using rd x by (auto simp: indirect_ready_def owned_def data_ids_def)
  have "NINDIRECT \<le> free_count bm2"
    using free r(6) p(5) by (simp add: MAXFILE_def)
  moreover have "unat ib \<in> used bm2" using r(2) by (simp add: data_block_def)
  ultimately obtain bm' where w: "write_indirect [NDIRECT..<NINDIRECT + NDIRECT] cur 0 p ib bm2 (replicate NINDIRECT 0) = bm'"
    "bm_inv bm'" "blk bm' (unat ib) = blk bm2 (unat ib)"
    using write_indirect_full [OF r(1) _ cur, of ib "replicate NINDIRECT 0" p] by auto
  have "unat ib \<notin> unat ` set bs" using r(3) by simp
  then have "blk bm' (unat ib) = blk bm (unat ib)"
    using p(6) w(3) r(5) by simp
  moreover have "write_blocks cur 0 p bm (iblocks x) = Inr (bm', bs @ [ib])"
    using run part w(1) by (simp add: write_blocks_def)
  moreover have "\<forall>b\<in>set (ib # bs). DATA_START \<le> unat b \<and> unat b < BLOCK_NUM"
    using p(4) r(2) by (auto simp: data_block_def)
  ultimately show ?thesis
    using that w(2) p(2) r(4) by blast
qed

text \<open>After a write of at least \<open>MAXFILE\<close> blocks to an empty file, the inode names an indirect block whose
  bytes on disk are still the old ones.\<close>

lemma write_file_full:
  assumes inv: "im_inv (im_bm im)" and f: "abs_fs (im_bm im) (unat inum) = Some (t, [])"
    and n: "MAXBYTES < n" "n + BLOCK_SIZE < 2 ^ 31" and free: "MAXFILE < free_count (im_bm im)"
  obtains im' bs ib where "write_file im inum p (int n) = Inr im'" "bm_inv (im_bm im')"
    "inode_at (im_bm im') (unat inum) =
       (inode_at (im_bm im) (unat inum))\<lparr>iblocks := bs @ [ib], isize := of_nat n\<rparr>"
    "length bs = NDIRECT" "\<forall>b\<in>set (ib # bs). unat b < BLOCK_NUM" "unat ib \<notin> used (im_bm im)"
    "blk (im_bm im') (unat ib) = blk (im_bm im) (unat ib)"
proof -
  define bm where "bm = im_bm im"
  define x where "x = inode_at bm (unat inum)"
  have l: "live bm (unat inum)" using f by (simp add: abs_fs_Some bm_def)
  note sz = live_size [OF inv [folded bm_def] l, folded x_def]
  have "file_data bm x = []" using f by (simp add: abs_fs_Some bm_def x_def)
  then have x0: "isize x = 0" using sz(1) by (simp add: unat_eq_0)
  have len: "length (iblocks x) = NDIRECT + 1" by (simp add: x_def)
  have cur: "MAXFILE \<le> nblk n"
    using nblk_gt [of 159 n] n(1) by (simp add: MAXBYTES_value layout_values)
  obtain bm1 bs ib where w: "write_blocks (nblk n) 0 p bm (iblocks x) = Inr (bm1, bs @ [ib])"
    "bm_inv bm1" "length bs = NDIRECT" "\<forall>b\<in>set (ib # bs). DATA_START \<le> unat b \<and> unat b < BLOCK_NUM"
    "unat ib \<notin> used bm" "blk bm1 (unat ib) = blk bm (unat ib)"
    by (rule write_blocks_full [OF sz(4,3) len x0 cur free [folded bm_def], of p]) (rule that)
  define x' where "x' = x\<lparr>iblocks := bs @ [ib], isize := of_nat n\<rparr>"
  have i: "unat inum < INODE_NUM" using l by (simp add: live_def)
  have len': "length (iblocks x') = NDIRECT + 1" using w(3) by (simp add: x'_def)
  have inv1: "bm_inv (im_bm (im\<lparr>im_bm := bm1\<rparr>))" using w(2) by simp
  obtain bm2 where put: "put_inode (im\<lparr>im_bm := bm1\<rparr>) inum (Some x') = Inr (im\<lparr>im_bm := bm2\<rparr>)" "bm_inv bm2"
    "\<And>b. b \<noteq> iblk (unat inum) \<Longrightarrow> blk bm2 b = blk bm1 b" "inode_at bm2 (unat inum) = x'"
    using put_inode_spec [OF inv1 i len'] by (metis inode_manager.select_convs(1) inode_manager.surjective
        inode_manager.update_convs(1))
  have get: "get_inode im inum = Inr (Some x)"
    using get_inode_live [OF inv, of inum] l by (simp add: bm_def x_def)
  have cnt: "BLOCK_COUNT_int (int n) = Inr (of_nat (nblk n))"
    by (rule BLOCK_COUNT_int_nat [OF n(2)])
  have "nblk n < 4294967296"
    using n(2) by (simp add: nblk_def layout_values)
  then have u: "unat (of_nat (nblk n) :: u32) = nblk n"
    by (rule unat_of_nat_u32)
  have o: "unat (BLOCK_COUNT (isize x)) = 0"
    using unat_BLOCK_COUNT [of "isize x"] by (simp add: x0)
  have "write_file im inum p (int n) = Inr (im\<lparr>im_bm := bm2\<rparr>)"
    using get cnt u o w(1) put(1)
    by (simp add: write_file_def write_blocks_def Let_def bm_def x'_def split: prod.splits)
  moreover have "blk bm2 (unat ib) = blk bm (unat ib)"
    using put(3) [of "unat ib"] w(4,6) iblk_bound [OF i] by auto
  ultimately show ?thesis
    using that [of "im\<lparr>im_bm := bm2\<rparr>" bs ib] put w by (simp add: bm_def x_def x'_def)
qed

section \<open>Reading past the indirect block\<close>

lemma read_indirect_overrun:
  assumes "unat rs + length bs * BLOCK_SIZE < unat sz"
  shows "read_indirect bm sz bs rs (Filled d) out = Inl OutOfBounds"
  using assms
proof (induction bs arbitrary: rs d out)
  case (Cons b bs)
  have "unat rs + BLOCK_SIZE < 2 ^ 32"
    using Cons.prems unat_u32_bound [of sz] by simp
  then have rs: "unat (rs + of_nat BLOCK_SIZE) = unat rs + BLOCK_SIZE"
    by (rule unat_next)
  then have lt: "rs + of_nat BLOCK_SIZE < sz" "unat (rs + of_nat BLOCK_SIZE) + length bs * BLOCK_SIZE < unat sz"
    using Cons.prems by (simp_all add: word_less_nat_alt)
  obtain d' where "read_block bm b (Filled d) = Filled d'"
    by (cases "BLOCK_NUM \<le> unat b") (auto simp: read_block_def disk_read_block_def)
  with lt Cons.IH [OF lt(2)] show ?case by (simp add: Let_def)
qed simp

lemma read_direct_filled:
  assumes "read_direct bm sz bs rs buf out = Inr (False, rs', buf', out')"
  shows "(bs = [] \<and> buf' = buf) \<or> (\<exists>d. buf' = Filled d)"
  using assms
  by (induction bm sz bs rs buf out rule: read_direct.induct) (auto split: if_splits cbuf.splits)

lemma read_file_overrun:
  assumes inv: "bm_inv (im_bm im)" and i: "unat inum < INODE_NUM"
    and x: "x = inode_at (im_bm im) (unat inum)" "itype x \<noteq> 0"
    and ids: "\<forall>b\<in>set (iblocks x). unat b < BLOCK_NUM" and sz: "MAXFILE * BLOCK_SIZE < unat (isize x)"
  shows "read_file im inum (Some out) = Inl OutOfBounds"
proof -
  define bm where "bm = im_bm im"
  let ?n = "unat (isize x)"
  have get: "get_inode im inum = Inr (Some x)"
    using get_inode_eq [OF inv, of inum] i x by simp
  have len: "length (iblocks x) = 33" by (simp add: x layout_values)
  have big: "32 < nblk ?n"
    using nblk_gt [of 32 ?n] sz by (simp add: layout_values)
  have "\<forall>b\<in>set (take (nblk ?n) (take NDIRECT (iblocks x))). unat b < BLOCK_NUM"
    using ids by (auto dest!: in_set_takeD)
  then have "\<exists>buf'. buf' \<noteq> NullBuf \<and> read_direct bm (isize x) (take NDIRECT (iblocks x)) 0 Uninit [] =
    Inr (nblk ?n < 32, of_nat (min (nblk ?n) 32 * 512), buf',
         take ?n (contents bm (take (nblk ?n) (take NDIRECT (iblocks x)))))"
    using read_direct_spec [of 0 "take NDIRECT (iblocks x)" bm Uninit "isize x" "[]"] inv len
    by (simp add: layout_values bm_def)
  then obtain buf' out' where direct: "read_direct bm (isize x) (take NDIRECT (iblocks x)) 0 Uninit [] =
      Inr (False, 16384, buf', out')"
    using big by auto
  obtain d where d: "buf' = Filled d"
    using read_direct_filled [OF direct] len by (auto simp: layout_values)
  have lt: "(16384 :: u32) < isize x"
    using sz by (simp add: word_less_nat_alt layout_values)
  have ib: "unat (iblocks x ! NDIRECT) < BLOCK_NUM"
    using ids len by (simp add: layout_values)
  have ind: "length (u32s_of_bytes NINDIRECT (blk bm (unat (iblocks x ! NDIRECT)))) = 128"
    by (simp add: layout_values)
  have "unat (16384 :: u32) + 128 * BLOCK_SIZE < unat (isize x)"
    using sz by (simp add: layout_values)
  then have "read_indirect bm (isize x) (u32s_of_bytes NINDIRECT (blk bm (unat (iblocks x ! NDIRECT)))) 16384 buf' out' =
      Inl OutOfBounds"
    unfolding d by (intro read_indirect_overrun) (simp only: ind)
  then show ?thesis
    using get direct lt ib by (simp add: read_file_def read_block_filled flip: bm_def)
qed

end
