(* ===== verification/File_Properties.thy ===== *)
theory File_Properties
  imports File_Limits
begin

text \<open>
  The properties of the storage side of the system: bitmap, blocks, inodes, files, extent server and
  tester. Each is a short consequence of the lemmas of its component; witnesses start from the state
  the constructors build.
\<close>

section \<open>The tester and the extent store\<close>

text \<open>C3: The program \<open>lab1_tester\<close> ends with the full score of 100 for all results of \<open>rand()\<close> and whatever
  memory lies behind the strings it stores, provided that its two unterminated buffers are followed by a
  zero byte before the largest file size is exceeded.\<close>

theorem lab1_tester_scores_100:
  assumes "LARGE_FILE_SIZE + length after1 \<le> MAXBYTES" "LARGE_FILE_SIZE + length after2 \<le> MAXBYTES"
  shows "lab1_main rnd1 rnd2 rnd3 junk after1 after2 = Inr (Some 100)"
  using assms by (rule lab1_main_full_score)

theorem lab1_tester_scores_100_witness:
  "lab1_main (\<lambda>i. 7 * i) (\<lambda>i. i) (\<lambda>i. i * i) (\<lambda>_ _. 255) [] [65] = Inr (Some 100)"
  by (rule lab1_tester_scores_100) (simp_all add: LARGE_FILE_SIZE_def MAXBYTES_value)

text \<open>C4: A session with the extent server gives, call by call, the replies of the specification on the
  abstract file system, leaves the store in the state the specification computes and keeps its
  invariant, when every stored string fits a file and the disk has room for what is written.\<close>

theorem session_refines_spec:
  assumes "store_inv ec" "\<forall>(req, junk)\<in>set reqs. admissible req"
    "sum_list (map (demand \<circ> fst) reqs) \<le> store_free ec"
  shows "\<exists>ec'. serve ec reqs = Inr (map (Pair OK) (fst (spec_serve (store_view ec) (map fst reqs))), ec') \<and>
    store_inv ec' \<and> store_view ec' = snd (spec_serve (store_view ec) (map fst reqs))"
  using assms by (rule serve_refines)

theorem session_refines_spec_witness:
  "\<exists>ec ec'. extent_client_new = Inr (Some ec) \<and>
     serve ec [(Put 1 [1, 2, 3], \<lambda>_. 9), (Get 1, \<lambda>_. 0)] = Inr ([(OK, Done), (OK, Data [1, 2, 3])], ec') \<and>
     store_inv ec'"
proof -
  obtain ec where new: "extent_client_new = Inr (Some ec)" "store_inv ec" "store_view ec = [1 \<mapsto> (1, [])]"
    "store_free ec = BLOCK_NUM - DATA_START"
    by (rule extent_client_new_ok)
  have k: "key 1 = 1" using key_of_nat [of 1] by (simp add: layout_values)
  have "nown (nblk (length [1, 2, 3 :: byte])) \<le> 1" by (rule nown_small) simp
  then have "sum_list (map (demand \<circ> fst) [(Put 1 [1, 2, 3], \<lambda>_. 9 :: byte), (Get 1, \<lambda>_. 0)]) \<le> store_free ec"
    using new(4) by (simp add: layout_values DATA_START_def)
  with session_refines_spec [OF new(2), of "[(Put 1 [1, 2, 3], \<lambda>_. 9), (Get 1, \<lambda>_. 0)]"] new(1,3)
  show ?thesis by (auto simp: k MAXBYTES_value)
qed

text \<open>C5: What is put under an identifier is what the next get of it returns, every other identifier keeps its
  contents, and the bytes in memory behind the string have no influence.\<close>

theorem put_get_round_trip:
  assumes "store_inv ec" "store_view ec (key eid) = Some (t, d)" "length buf \<le> MAXBYTES"
    "nown (nblk (length buf)) \<le> nown (nblk (length d)) + store_free ec"
  shows "\<exists>ec'. extent_client_put junk ec eid buf = Inr (OK, ec') \<and> store_inv ec' \<and>
    extent_client_get ec' eid = Inr (OK, buf) \<and>
    (\<forall>eid'. key eid' \<noteq> key eid \<longrightarrow> extent_client_get ec' eid' = extent_client_get ec eid')"
  using assms by (rule ec.put_then_get)

theorem put_get_round_trip_witness:
  "\<exists>ec ec'. extent_client_new = Inr (Some ec) \<and>
     extent_client_put (\<lambda>_. 255) ec 1 (replicate 40000 7) = Inr (OK, ec') \<and>
     extent_client_get ec' 1 = Inr (OK, replicate 40000 7)"
proof -
  obtain ec where new: "extent_client_new = Inr (Some ec)" "store_inv ec" "store_view ec = [1 \<mapsto> (1, [])]"
    "store_free ec = BLOCK_NUM - DATA_START"
    by (rule extent_client_new_ok)
  have k: "key 1 = 1" using key_of_nat [of 1] by (simp add: layout_values)
  have len: "length (replicate 40000 (7 :: byte)) \<le> MAXBYTES"
    by (simp add: MAXBYTES_value)
  have "nblk 40000 < MAXFILE"
    by (rule file_size_bounds) (simp add: MAXBYTES_value)
  then have "nown (nblk (length (replicate 40000 (7 :: byte)))) \<le> nown (nblk (length ([] :: byte list))) + store_free ec"
    using new(4) by (simp add: nown_def layout_values DATA_START_def)
  from put_get_round_trip [OF new(2) _ len this, of 1 1 "\<lambda>_. 255"] new show ?thesis by (auto simp: k)
qed

text \<open>After a remove the identifier reads as absent (type 0, empty contents), its blocks are free again
  and every other file keeps its contents.\<close>

lemma remove_forgets_file:
  assumes "store_inv ec"
  shows "\<exists>ec'. extent_client_remove ec eid = Inr (OK, ec') \<and> store_inv ec' \<and>
    extent_client_getattr ec' eid = Inr (OK, attr_zero) \<and> extent_client_get ec' eid = Inr (OK, []) \<and>
    store_free ec \<le> store_free ec' \<and>
    (\<forall>eid'. key eid' \<noteq> key eid \<longrightarrow> extent_client_get ec' eid' = extent_client_get ec eid')"
  using assms by (rule ec.remove_then_absent)

text \<open>C10: Creating a file returns a non-zero identifier that was not in use; the file has the given type and
  is empty, and no other file changes.\<close>

theorem create_makes_empty_file:
  assumes "store_inv ec" "(ucast type :: u16) \<noteq> 0" "store_view ec i = None" "1 \<le> i" "i < INODE_NUM"
  shows "\<exists>eid ec' a. extent_client_create ec type = Inr (OK, eid, ec') \<and> store_inv ec' \<and> eid \<noteq> 0 \<and>
    store_view ec (key eid) = None \<and> extent_client_get ec' eid = Inr (OK, []) \<and>
    extent_client_getattr ec' eid = Inr (OK, a) \<and> a_type a = scast (ucast type :: u16) \<and> a_size a = 0 \<and>
    (\<forall>eid'. key eid' \<noteq> key eid \<longrightarrow> extent_client_get ec' eid' = extent_client_get ec eid')"
  using assms by (rule ec.create_then_empty)

theorem create_makes_empty_file_witness:
  "\<exists>ec ec' eid a. extent_client_new = Inr (Some ec) \<and>
     extent_client_create ec T_FILE = Inr (OK, eid, ec') \<and> eid \<noteq> 0 \<and>
     extent_client_getattr ec' eid = Inr (OK, a) \<and> a_type a = T_FILE"
proof -
  obtain ec where "extent_client_new = Inr (Some ec)" "store_inv ec" "store_view ec = [1 \<mapsto> (1, [])]"
    by (rule extent_client_new_ok)
  with create_makes_empty_file [of ec T_FILE 2] show ?thesis
    by (auto simp: layout_values T_FILE_def)
qed

section \<open>The inode manager\<close>

text \<open>C6: Writing \<open>n\<close> bytes to an existing file succeeds when they fit, keeps the invariant, changes the
  abstract file system at that file only, to the first \<open>n\<close> bytes behind the source pointer, and takes
  exactly the additional blocks the larger file needs.\<close>

theorem write_file_refines:
  assumes "im_inv (im_bm im)" "abs_fs (im_bm im) (unat inum) = Some (t, d)" "fits (im_bm im) (length d) n"
  shows "\<exists>im'. write_file im inum p (int n) = Inr im' \<and> im_inv (im_bm im') \<and>
    abs_fs (im_bm im') = (abs_fs (im_bm im))(unat inum \<mapsto> (t, map p [0..<n])) \<and>
    free_count (im_bm im') = free_count (im_bm im) - (nown (nblk n) - nown (nblk (length d)))"
  by (rule write_file_ok [OF assms, of p]) blast

theorem write_file_refines_witness:
  "\<exists>im im'. inode_manager_new = Inr (Some im) \<and> write_file im 1 (\<lambda>k. of_nat k) (int 20000) = Inr im' \<and>
     abs_fs (im_bm im') = [1 \<mapsto> (1, map (\<lambda>k. of_nat k) [0..<20000])]"
proof -
  obtain im where new: "inode_manager_new = Inr (Some im)" "im_inv (im_bm im)"
    "abs_fs (im_bm im) = [1 \<mapsto> (1, [])]" "free_count (im_bm im) = BLOCK_NUM - DATA_START"
    by (rule inode_manager_new_ok)
  have "nblk 20000 < MAXFILE"
    by (rule file_size_bounds) (simp add: MAXBYTES_value)
  then have "fits (im_bm im) (length ([] :: byte list)) 20000"
    using new(4) by (simp add: fits_def nown_def layout_values DATA_START_def MAXBYTES_value)
  from write_file_refines [OF new(2) _ this, of 1 1 "\<lambda>k. of_nat k"] new show ?thesis by fastforce
qed

text \<open>C8: Reading an existing file returns its contents, a terminating zero byte behind them, and its size.\<close>

theorem read_file_refines:
  assumes "im_inv (im_bm im)" "abs_fs (im_bm im) (unat inum) = Some (t, d)"
  shows "read_file im inum (Some out) = Inr (Some (Some (d @ [0]), int (length d)))"
  using assms by (rule read_file_ok)

theorem read_file_refines_witness:
  "\<exists>im. inode_manager_new = Inr (Some im) \<and> read_file im 1 (Some (None, 5)) = Inr (Some (Some [0], 0))"
proof -
  obtain im where "inode_manager_new = Inr (Some im)" "im_inv (im_bm im)"
    "abs_fs (im_bm im) = [1 \<mapsto> (1, [])]"
    by (rule inode_manager_new_ok)
  with read_file_refines [of im 1 1 "[]" "(None, 5)"] show ?thesis by auto
qed

text \<open>C7: Removing an existing file deletes it from the abstract file system, frees exactly the blocks it
  occupied, its indirect block included, keeps the invariant and changes no other file.\<close>

theorem remove_file_refines:
  assumes "im_inv (im_bm im)" "abs_fs (im_bm im) (unat inum) = Some (t, d)"
  shows "\<exists>im'. remove_file im inum = Inr im' \<and> im_inv (im_bm im') \<and>
    abs_fs (im_bm im') = (abs_fs (im_bm im))(unat inum := None) \<and>
    free_count (im_bm im') = free_count (im_bm im) + nown (nblk (length d))"
  by (rule remove_file_ok [OF assms]) blast

theorem remove_file_refines_witness:
  "\<exists>im im'. inode_manager_new = Inr (Some im) \<and> remove_file im 1 = Inr im' \<and> abs_fs (im_bm im') = Map.empty"
proof -
  obtain im where new: "inode_manager_new = Inr (Some im)" "im_inv (im_bm im)"
    "abs_fs (im_bm im) = [1 \<mapsto> (1, [])]"
    by (rule inode_manager_new_ok)
  with remove_file_refines [of im 1 1 "[]"] obtain im' where "remove_file im 1 = Inr im'"
    "abs_fs (im_bm im') = (abs_fs (im_bm im))(1 := None)"
    by auto
  with new show ?thesis by auto
qed

text \<open>C9: \<open>alloc_inode\<close> hands out the least free inode number from 1 on, with an empty file of the given type,
  and changes nothing else.\<close>

theorem alloc_inode_least:
  assumes "im_inv (im_bm im)" "(ucast type :: u16) \<noteq> 0" "abs_fs (im_bm im) i = None" "1 \<le> i" "i < INODE_NUM"
  shows "\<exists>inum im'. alloc_inode im type = Inr (inum, im') \<and> im_inv (im_bm im') \<and>
    abs_fs (im_bm im) (unat inum) = None \<and> 1 \<le> unat inum \<and>
    (\<forall>j. 1 \<le> j \<and> j < unat inum \<longrightarrow> abs_fs (im_bm im) j \<noteq> None) \<and>
    abs_fs (im_bm im') = (abs_fs (im_bm im))(unat inum \<mapsto> (ucast type, []))"
  by (rule alloc_inode_ok [OF assms]) blast

theorem alloc_inode_least_witness:
  "\<exists>im inum im'. inode_manager_new = Inr (Some im) \<and> alloc_inode im T_FILE = Inr (inum, im') \<and>
     abs_fs (im_bm im') = [1 \<mapsto> (1, []), 2 \<mapsto> (2, [])]"
proof -
  obtain im where new: "inode_manager_new = Inr (Some im)" "im_inv (im_bm im)"
    "abs_fs (im_bm im) = [1 \<mapsto> (1, [])]"
    by (rule inode_manager_new_ok)
  then obtain inum im' where a: "alloc_inode im T_FILE = Inr (inum, im')" "abs_fs (im_bm im) (unat inum) = None"
    "1 \<le> unat inum" "\<forall>j. 1 \<le> j \<and> j < unat inum \<longrightarrow> abs_fs (im_bm im) j \<noteq> None"
    "abs_fs (im_bm im') = (abs_fs (im_bm im))(unat inum \<mapsto> (ucast T_FILE, []))"
    using alloc_inode_least [of im T_FILE 2] by (auto simp: layout_values)
  have "unat inum \<noteq> 1" "\<not> 2 < unat inum"
    using a(2) spec [OF a(4), of 2] new(3) by auto
  then have "unat inum = 2" using a(3) by linarith
  with a(1,5) new show ?thesis by auto
qed

text \<open>C13: The constructor succeeds: inode 1 is the empty root directory, no other file exists, the invariant
  holds and every block behind the inode table is free.\<close>

theorem inode_manager_new_establishes:
  "\<exists>im. inode_manager_new = Inr (Some im) \<and> im_inv (im_bm im) \<and> abs_fs (im_bm im) = [1 \<mapsto> (1, [])] \<and>
     free_count (im_bm im) = BLOCK_NUM - DATA_START"
  by (rule inode_manager_new_ok) blast





section \<open>Inode table, blocks and bitmap\<close>

text \<open>C14: Storing an inode and reading it back gives the same inode (or none, when its type is 0), every other
  slot of the table is left alone, although three inodes share a block, and so is every other block.\<close>

theorem put_get_inode:
  assumes "bm_inv (im_bm im)" "unat inum < INODE_NUM" "length (iblocks x) = NDIRECT + 1"
  shows "\<exists>im'. put_inode im inum (Some x) = Inr im' \<and> bm_inv (im_bm im') \<and>
    get_inode im' inum = Inr (if itype x = 0 then None else Some x) \<and>
    (\<forall>jnum. jnum \<noteq> inum \<longrightarrow> get_inode im' jnum = get_inode im jnum) \<and>
    (\<forall>b. b \<noteq> iblk (unat inum) \<longrightarrow> blk (im_bm im') b = blk (im_bm im) b)"
proof -
  obtain bm' where p: "put_inode im inum (Some x) = Inr (im\<lparr>im_bm := bm'\<rparr>)" "bm_inv bm'"
    "block_bitmap bm' = block_bitmap (im_bm im)"
    "\<And>b. b \<noteq> iblk (unat inum) \<Longrightarrow> blk bm' b = blk (im_bm im) b" "inode_at bm' (unat inum) = x"
    "\<And>j. j < INODE_NUM \<Longrightarrow> j \<noteq> unat inum \<Longrightarrow> inode_at bm' j = inode_at (im_bm im) j"
    by (rule put_inode_spec [OF assms]) (rule that)
  have "get_inode (im\<lparr>im_bm := bm'\<rparr>) jnum = get_inode im jnum" if "jnum \<noteq> inum" for jnum
    using p(2) p(6) [of "unat jnum"] that assms(1) by (auto simp: get_inode_eq simp flip: u32_eq_iff)
  with p assms(2) show ?thesis by (simp add: get_inode_eq)
qed

theorem put_get_inode_witness:
  "\<exists>im'. put_inode \<lparr>im_bm = block_manager_new\<rparr> 7 (Some (inode_zero\<lparr>itype := 2, isize := 5\<rparr>)) = Inr im' \<and>
     get_inode im' 7 = Inr (Some (inode_zero\<lparr>itype := 2, isize := 5\<rparr>))"
  using put_get_inode [of "\<lparr>im_bm = block_manager_new\<rparr>" 7 "inode_zero\<lparr>itype := 2, isize := 5\<rparr>"]
  by (auto simp: block_manager_new_inv layout_values(3) simp del: length_inode_zero)
     (auto simp: inode_zero_def layout_values)

text \<open>C15: Allocating a block on a disk that has a free one returns a data block that was free and marks exactly
  that one; on a full disk it returns block 0 and changes nothing.\<close>

theorem alloc_block_correct:
  assumes "bm_inv bm"
  shows "\<exists>i bm'. alloc_block bm = (i, bm') \<and> bm_inv bm' \<and> bm_disk bm' = bm_disk bm \<and>
    (if free_count bm = 0 then i = 0 \<and> used bm' = used bm
     else DATA_START \<le> unat i \<and> unat i < BLOCK_NUM \<and> unat i \<notin> used bm \<and>
       used bm' = insert (unat i) (used bm) \<and> Suc (free_count bm') = free_count bm)"
proof -
  obtain i bm' where a: "alloc_block bm = (i, bm')" by (cases "alloc_block bm")
  show ?thesis
  proof (cases "free_count bm = 0")
    case True
    have "bm_inv bm'"
      using alloc_block_full [OF assms True a] a assms
      by (auto simp: bm_inv_def alloc_block_def Let_def)
    with True alloc_block_full [OF assms True a] a show ?thesis by auto
  next
    case False
    then have "0 < free_count bm" by simp
    from alloc_block_fresh [OF assms this a] False a show ?thesis by auto
  qed
qed

theorem alloc_block_correct_witness:
  "\<exists>i bm'. alloc_block block_manager_new = (i, bm') \<and> bm_inv bm'"
  using alloc_block_correct [OF block_manager_new_inv] by blast

text \<open>\<open>Bitmap::find\<close> returns the least bit that is not set.\<close>

lemma find_least_clear:
  assumes "bitmap_inv b" "i < nbits b" "\<not> Bitmap_test b (of_nat i)"
  shows "unat (Bitmap_find b) < nbits b \<and> \<not> Bitmap_test b (Bitmap_find b) \<and>
    (\<forall>w. w < Bitmap_find b \<longrightarrow> Bitmap_test b w)"
proof -
  have "unat (of_nat i :: u32) = i"
    using assms(2) unat_u32_bound [of "numBits b"] by (intro unat_of_nat_u32) (simp add: nbits_def)
  then have "i \<notin> marked b" using assms(3) by (simp add: test_iff_marked)
  from find_free [OF assms(1,2) this] show ?thesis
    by (auto simp: test_iff_marked word_less_nat_alt)
qed

end
