(* ===== verification/Marshall.thy ===== *)
theory Marshall
  imports Prelude
begin

text \<open>
  Classes \<open>marshall\<close> and \<open>unmarshall\<close> (\<open>rpc/marshall.h\<close>, and their member functions and operators in
  \<open>rpc/rpc.cc\<close>). A buffer is the memory behind \<open>_buf\<close> (\<open>None\<close>: null) together with its capacity; an
  access outside the capacity is the fault \<open>OutOfBounds\<close>. What fresh memory contains is a parameter.
  A C++ \<open>int\<close> that is only copied is its 32-bit pattern; the positions \<open>_ind\<close>, \<open>_capa\<close> and \<open>_sz\<close> are
  integers with their overflow written out.
\<close>

section \<open>Headers and sizes\<close>

record req_header =
  rq_xid :: u32
  rq_proc :: u32
  rq_clt_nonce :: u32
  rq_srv_nonce :: u32
  rq_xid_rep :: u32

record reply_header =
  rp_xid :: u32
  rp_ret :: u32

definition static_max :: "int \<Rightarrow> int \<Rightarrow> int" where "static_max a b = (if a > b then a else b)"
definition sizeof_req_header :: int where "sizeof_req_header = 5 * 4"
definition sizeof_reply_header :: int where "sizeof_reply_header = 2 * 4"
definition sizeof_rpc_sz :: int where "sizeof_rpc_sz = 4"
definition DEFAULT_RPC_SZ :: int where "DEFAULT_RPC_SZ = 1024"
definition RPC_HEADER_SZ :: int where
  "RPC_HEADER_SZ = static_max sizeof_req_header sizeof_reply_header + sizeof_rpc_sz"

lemma rpc_sizes [layout_simps]: "RPC_HEADER_SZ = 24" "DEFAULT_RPC_SZ = 1024" "sizeof_rpc_sz = 4"
  by (simp_all add: RPC_HEADER_SZ_def static_max_def sizeof_req_header_def sizeof_reply_header_def
      sizeof_rpc_sz_def DEFAULT_RPC_SZ_def)

section \<open>marshall\<close>

record marshall =
  m_buf :: "(nat \<Rightarrow> byte) option"
  m_capa :: int
  m_ind :: int

definition marshall_new :: "(nat \<Rightarrow> byte) \<Rightarrow> marshall" where
  "marshall_new mem = \<lparr>m_buf = Some mem, m_capa = DEFAULT_RPC_SZ, m_ind = RPC_HEADER_SZ\<rparr>"

text \<open>\<open>_buf = realloc(_buf, _capa)\<close> with the new capacity, behind its check; the allocation succeeds.\<close>

definition m_grow :: "marshall \<Rightarrow> int \<Rightarrow> marshall res" where
  "m_grow m capa =
     (if capa \<ge> 2 ^ 31 then Inl SignedOverflow
      else bindE (VERIFY (m_buf m \<noteq> None)) (\<lambda>_. Inr (m\<lparr>m_capa := capa\<rparr>)))"

definition m_store :: "marshall \<Rightarrow> byte list \<Rightarrow> marshall res" where
  "m_store m bs =
     (case m_buf m of
        None \<Rightarrow> Inl NullDeref
      | Some b \<Rightarrow>
          if m_ind m < 0 \<or> m_ind m + int (length bs) > m_capa m then Inl OutOfBounds
          else Inr (m\<lparr>m_buf := Some (\<lambda>k. if nat (m_ind m) \<le> k \<and> k < nat (m_ind m) + length bs
                                       then bs ! (k - nat (m_ind m)) else b k),
                      m_ind := m_ind m + int (length bs)\<rparr>))"

definition m_rawbyte :: "marshall \<Rightarrow> byte \<Rightarrow> marshall res" where
  "m_rawbyte m x =
     bindE (if m_ind m \<ge> m_capa m then m_grow m (m_capa m * 2) else Inr m) (\<lambda>m. m_store m [x])"

text \<open>\<open>rawbytes(p, n)\<close>; a negative \<open>n\<close> is a huge \<open>size_t\<close> for \<open>memcpy\<close>.\<close>

definition m_rawbytes :: "marshall \<Rightarrow> byte list \<Rightarrow> int \<Rightarrow> marshall res" where
  "m_rawbytes m p n =
     (if m_ind m + n \<ge> 2 ^ 31 then Inl SignedOverflow
      else bindE
        (if m_ind m + n > m_capa m
         then m_grow m (if m_capa m > n then 2 * m_capa m else m_capa m + n) else Inr m)
        (\<lambda>m. if n < 0 \<or> n > int (length p) then Inl OutOfBounds else m_store m (take (nat n) p)))"

definition get_content :: "marshall \<Rightarrow> byte list" where
  "get_content m = map (the (m_buf m)) [nat RPC_HEADER_SZ..<nat (m_ind m)]"

definition m_take_buf :: "marshall \<Rightarrow> (nat \<Rightarrow> byte) option \<times> int \<times> marshall" where
  "m_take_buf m = (m_buf m, m_ind m, m\<lparr>m_buf := None, m_ind := 0\<rparr>)"

section \<open>Writing values\<close>

text \<open>A sequence of calls of \<open>rawbyte\<close>.\<close>

fun m_rawbyte_seq :: "marshall \<Rightarrow> byte list \<Rightarrow> marshall res" where
  "m_rawbyte_seq m [] = Inr m"
| "m_rawbyte_seq m (b # bs) = bindE (m_rawbyte m b) (\<lambda>m. m_rawbyte_seq m bs)"

definition put_bool :: "marshall \<Rightarrow> bool \<Rightarrow> marshall res" where
  "put_bool m x = m_rawbyte m (if x then 1 else 0)"

definition put_u8 :: "marshall \<Rightarrow> byte \<Rightarrow> marshall res" where
  "put_u8 m x = m_rawbyte m x"

definition put_u16 :: "marshall \<Rightarrow> u16 \<Rightarrow> marshall res" where
  "put_u16 m x = m_rawbyte_seq m [ucast (drop_bit 8 x AND 0xff), ucast (x AND 0xff)]"

definition put_u32 :: "marshall \<Rightarrow> u32 \<Rightarrow> marshall res" where
  "put_u32 m x =
     m_rawbyte_seq m [ucast (drop_bit 24 x AND 0xff), ucast (drop_bit 16 x AND 0xff),
       ucast (drop_bit 8 x AND 0xff), ucast (x AND 0xff)]"

definition put_string :: "marshall \<Rightarrow> byte list \<Rightarrow> marshall res" where
  "put_string m s =
     bindE (put_u32 m (of_nat (length s)))
       (\<lambda>m. m_rawbytes m s (signed_take_bit 31 (int (length s))))"

definition put_u64 :: "marshall \<Rightarrow> u64 \<Rightarrow> marshall res" where
  "put_u64 m x = bindE (put_u32 m (ucast (drop_bit 32 x))) (\<lambda>m. put_u32 m (ucast x))"

definition m_pack :: "marshall \<Rightarrow> u32 \<Rightarrow> marshall res" where
  "m_pack m x =
     m_rawbyte_seq m [ucast (drop_bit 24 x AND 0xff), ucast (drop_bit 16 x AND 0xff),
       ucast (drop_bit 8 x AND 0xff), ucast (x AND 0xff)]"

fun m_pack_seq :: "marshall \<Rightarrow> u32 list \<Rightarrow> marshall res" where
  "m_pack_seq m [] = Inr m"
| "m_pack_seq m (x # xs) = bindE (m_pack m x) (\<lambda>m. m_pack_seq m xs)"

definition pack_req_header :: "marshall \<Rightarrow> req_header \<Rightarrow> marshall res" where
  "pack_req_header m h =
     bindE (m_pack_seq (m\<lparr>m_ind := sizeof_rpc_sz\<rparr>)
              [rq_xid h, rq_proc h, rq_clt_nonce h, rq_srv_nonce h, rq_xid_rep h])
       (\<lambda>m'. Inr (m'\<lparr>m_ind := m_ind m\<rparr>))"

definition pack_reply_header :: "marshall \<Rightarrow> reply_header \<Rightarrow> marshall res" where
  "pack_reply_header m h =
     bindE (m_pack_seq (m\<lparr>m_ind := sizeof_rpc_sz\<rparr>) [rp_xid h, rp_ret h])
       (\<lambda>m'. Inr (m'\<lparr>m_ind := m_ind m\<rparr>))"

text \<open>The templates for \<open>std::vector\<close> and \<open>std::map\<close> (a map is the list of its pairs in the order of
  iteration), for any element operators.\<close>

fun put_all :: "(marshall \<Rightarrow> 'a \<Rightarrow> marshall res) \<Rightarrow> marshall \<Rightarrow> 'a list \<Rightarrow> marshall res" where
  "put_all put m [] = Inr m"
| "put_all put m (x # xs) = bindE (put m x) (\<lambda>m. put_all put m xs)"

definition put_vector :: "(marshall \<Rightarrow> 'a \<Rightarrow> marshall res) \<Rightarrow> marshall \<Rightarrow> 'a list \<Rightarrow> marshall res" where
  "put_vector put m v = bindE (put_u32 m (of_nat (length v))) (\<lambda>m. put_all put m v)"

definition put_pair ::
  "(marshall \<Rightarrow> 'a \<Rightarrow> marshall res) \<Rightarrow> (marshall \<Rightarrow> 'b \<Rightarrow> marshall res) \<Rightarrow> marshall \<Rightarrow> 'a \<times> 'b \<Rightarrow> marshall res"
  where
  "put_pair put_a put_b m = (\<lambda>(a, b). bindE (put_a m a) (\<lambda>m. put_b m b))"

definition put_map ::
  "(marshall \<Rightarrow> 'a \<Rightarrow> marshall res) \<Rightarrow> (marshall \<Rightarrow> 'b \<Rightarrow> marshall res) \<Rightarrow> marshall \<Rightarrow> ('a \<times> 'b) list \<Rightarrow> marshall res"
  where
  "put_map put_a put_b m d =
     bindE (put_u32 m (of_nat (length d))) (\<lambda>m. put_all (put_pair put_a put_b) m d)"

section \<open>unmarshall\<close>

record unmarshall =
  u_buf :: "(nat \<Rightarrow> byte) option"
  u_sz :: int
  u_ind :: int
  u_ok :: bool

definition unmarshall_empty :: unmarshall where
  "unmarshall_empty = \<lparr>u_buf = None, u_sz = 0, u_ind = 0, u_ok = False\<rparr>"

definition unmarshall_new :: "(nat \<Rightarrow> byte) \<Rightarrow> int \<Rightarrow> unmarshall" where
  "unmarshall_new b sz = \<lparr>u_buf = Some b, u_sz = sz, u_ind = 0, u_ok = True\<rparr>"

text \<open>\<open>take_content\<close>: the string behind a header whose bytes are those of the allocated memory.\<close>

definition take_content :: "(nat \<Rightarrow> byte) \<Rightarrow> unmarshall \<Rightarrow> byte list \<Rightarrow> unmarshall" where
  "take_content mem u s =
     u\<lparr>u_buf := Some (\<lambda>k. if nat RPC_HEADER_SZ \<le> k \<and> k < nat RPC_HEADER_SZ + length s
                       then s ! (k - nat RPC_HEADER_SZ) else mem k),
       u_sz := int (length s) + RPC_HEADER_SZ, u_ind := RPC_HEADER_SZ, u_ok := True\<rparr>"

definition unmarshall_of_string :: "(nat \<Rightarrow> byte) \<Rightarrow> byte list \<Rightarrow> unmarshall" where
  "unmarshall_of_string mem s = take_content mem unmarshall_empty s"

definition u_take_buf :: "unmarshall \<Rightarrow> (nat \<Rightarrow> byte) option \<times> int \<times> unmarshall" where
  "u_take_buf u = (u_buf u, u_sz u, u\<lparr>u_sz := 0, u_ind := 0, u_buf := None\<rparr>)"

definition take_in :: "unmarshall \<Rightarrow> unmarshall \<Rightarrow> unmarshall \<times> unmarshall" where
  "take_in u another =
     (case u_take_buf another of
        (b, sz, another') \<Rightarrow>
          (u\<lparr>u_buf := b, u_sz := sz, u_ind := RPC_HEADER_SZ, u_ok := (sz \<ge> RPC_HEADER_SZ)\<rparr>, another'))"

definition okdone :: "unmarshall \<Rightarrow> bool" where
  "okdone u \<longleftrightarrow> u_ok u \<and> u_ind u = u_sz u"

text \<open>\<open>rawbyte\<close> returns a \<open>char\<close> as an \<open>unsigned int\<close>, so it is sign-extended.\<close>

definition u_rawbyte :: "unmarshall \<Rightarrow> (u32 \<times> unmarshall) res" where
  "u_rawbyte u =
     (if u_ind u \<ge> u_sz u then Inr (0, u\<lparr>u_ok := False\<rparr>)
      else case u_buf u of
             None \<Rightarrow> Inl NullDeref
           | Some b \<Rightarrow> Inr (scast (b (nat (u_ind u))), u\<lparr>u_ind := u_ind u + 1\<rparr>))"

text \<open>\<open>rawbytes\<close>: the bounds check adds in \<open>unsigned\<close> arithmetic, so a huge \<open>n\<close> wraps around.\<close>

definition u_rawbytes :: "unmarshall \<Rightarrow> byte list \<Rightarrow> u32 \<Rightarrow> (byte list \<times> unmarshall) res" where
  "u_rawbytes u ss n =
     (if word_of_int (u_ind u) + n > (word_of_int (u_sz u) :: u32) then Inr (ss, u\<lparr>u_ok := False\<rparr>)
      else case u_buf u of
             None \<Rightarrow> Inl NullDeref
           | Some b \<Rightarrow>
               if u_ind u + int (unat n) > u_sz u then Inl OutOfBounds
               else Inr (map b [nat (u_ind u)..<nat (u_ind u) + unat n],
                         u\<lparr>u_ind := u_ind u + int (unat n)\<rparr>))"

section \<open>Reading values\<close>

text \<open>\<open>rawbyte() & 0xff\<close>.\<close>

definition u_byte :: "unmarshall \<Rightarrow> (u32 \<times> unmarshall) res" where
  "u_byte u = bindE (u_rawbyte u) (\<lambda>(c, u). Inr (c AND 0xff, u))"

definition get_bool :: "unmarshall \<Rightarrow> (bool \<times> unmarshall) res" where
  "get_bool u = bindE (u_rawbyte u) (\<lambda>(c, u). Inr (c \<noteq> 0, u))"

definition get_u8 :: "unmarshall \<Rightarrow> (byte \<times> unmarshall) res" where
  "get_u8 u = bindE (u_rawbyte u) (\<lambda>(c, u). Inr (ucast c, u))"

definition get_u16 :: "unmarshall \<Rightarrow> (u16 \<times> unmarshall) res" where
  "get_u16 u =
     bindE (u_byte u) (\<lambda>(a, u). bindE (u_byte u) (\<lambda>(b, u).
       Inr (ucast (push_bit 8 a) OR ucast b, u)))"

definition get_u32 :: "unmarshall \<Rightarrow> (u32 \<times> unmarshall) res" where
  "get_u32 u =
     bindE (u_byte u) (\<lambda>(a, u). bindE (u_byte u) (\<lambda>(b, u).
     bindE (u_byte u) (\<lambda>(c, u). bindE (u_byte u) (\<lambda>(d, u).
       Inr (push_bit 24 a OR push_bit 16 b OR push_bit 8 c OR d, u)))))"

definition get_u64 :: "unmarshall \<Rightarrow> (u64 \<times> unmarshall) res" where
  "get_u64 u =
     bindE (get_u32 u) (\<lambda>(h, u). bindE (get_u32 u) (\<lambda>(l, u).
       Inr (ucast l OR push_bit 32 (ucast h), u)))"

definition get_string :: "unmarshall \<Rightarrow> byte list \<Rightarrow> (byte list \<times> unmarshall) res" where
  "get_string u s =
     bindE (get_u32 u) (\<lambda>(sz, u). if u_ok u then u_rawbytes u s sz else Inr (s, u))"

definition u_unpack :: "unmarshall \<Rightarrow> (u32 \<times> unmarshall) res" where
  "u_unpack u =
     bindE (u_byte u) (\<lambda>(a, u). bindE (u_byte u) (\<lambda>(b, u).
     bindE (u_byte u) (\<lambda>(c, u). bindE (u_byte u) (\<lambda>(d, u).
       Inr (push_bit 24 a OR push_bit 16 b OR push_bit 8 c OR d, u)))))"

definition unpack_req_header :: "unmarshall \<Rightarrow> (req_header \<times> unmarshall) res" where
  "unpack_req_header u =
     bindE (u_unpack (u\<lparr>u_ind := sizeof_rpc_sz\<rparr>)) (\<lambda>(xid, u).
     bindE (u_unpack u) (\<lambda>(proc, u).
     bindE (u_unpack u) (\<lambda>(clt, u).
     bindE (u_unpack u) (\<lambda>(srv, u).
     bindE (u_unpack u) (\<lambda>(rep, u).
       Inr (\<lparr>rq_xid = xid, rq_proc = proc, rq_clt_nonce = clt, rq_srv_nonce = srv, rq_xid_rep = rep\<rparr>,
            u\<lparr>u_ind := RPC_HEADER_SZ\<rparr>))))))"

definition unpack_reply_header :: "unmarshall \<Rightarrow> (reply_header \<times> unmarshall) res" where
  "unpack_reply_header u =
     bindE (u_unpack (u\<lparr>u_ind := sizeof_rpc_sz\<rparr>)) (\<lambda>(xid, u).
     bindE (u_unpack u) (\<lambda>(ret, u).
       Inr (\<lparr>rp_xid = xid, rp_ret = ret\<rparr>, u\<lparr>u_ind := RPC_HEADER_SZ\<rparr>)))"

fun get_all :: "nat \<Rightarrow> (unmarshall \<Rightarrow> ('a \<times> unmarshall) res) \<Rightarrow> unmarshall \<Rightarrow> 'a list \<Rightarrow>
    ('a list \<times> unmarshall) res" where
  "get_all 0 get u v = Inr (v, u)"
| "get_all (Suc n) get u v = bindE (get u) (\<lambda>(z, u). get_all n get u (v @ [z]))"

definition get_vector ::
  "(unmarshall \<Rightarrow> ('a \<times> unmarshall) res) \<Rightarrow> unmarshall \<Rightarrow> 'a list \<Rightarrow> ('a list \<times> unmarshall) res" where
  "get_vector get u v = bindE (get_u32 u) (\<lambda>(n, u). get_all (unat n) get u v)"

definition get_pair ::
  "(unmarshall \<Rightarrow> ('a \<times> unmarshall) res) \<Rightarrow> (unmarshall \<Rightarrow> ('b \<times> unmarshall) res) \<Rightarrow> unmarshall \<Rightarrow>
     (('a \<times> 'b) \<times> unmarshall) res" where
  "get_pair get_a get_b u =
     bindE (get_a u) (\<lambda>(a, u). bindE (get_b u) (\<lambda>(b, u). Inr ((a, b), u)))"

fun get_entries :: "nat \<Rightarrow> (unmarshall \<Rightarrow> (('a \<times> 'b) \<times> unmarshall) res) \<Rightarrow> unmarshall \<Rightarrow> ('a \<rightharpoonup> 'b) \<Rightarrow>
    (('a \<rightharpoonup> 'b) \<times> unmarshall) res" where
  "get_entries 0 get u d = Inr (d, u)"
| "get_entries (Suc n) get u d =
     bindE (get u) (\<lambda>((a, b), u). get_entries n get u (d(a \<mapsto> b)))"

definition get_map ::
  "(unmarshall \<Rightarrow> ('a \<times> unmarshall) res) \<Rightarrow> (unmarshall \<Rightarrow> ('b \<times> unmarshall) res) \<Rightarrow> unmarshall \<Rightarrow>
     (('a \<rightharpoonup> 'b) \<times> unmarshall) res" where
  "get_map get_a get_b u =
     bindE (get_u32 u) (\<lambda>(n, u). get_entries (unat n) (get_pair get_a get_b) u Map.empty)"

end
