(* ===== verification/Codecs.thy ===== *)
theory Codecs
  imports Codec Extent_Server
begin

text \<open>
  The interpretations of \<open>codec\<close>: every \<open>operator<<\<close>/\<open>operator>>\<close> pair of \<open>rpc.cc\<close>, the attribute record of
  \<open>extent_protocol.h\<close>, vectors, pairs and maps; and the two packet headers.
\<close>

section \<open>Fixed-width values\<close>

lemma single_put: "m_inv m \<Longrightarrow> m_ind m + int (length [b]) \<le> MAX_MSG \<Longrightarrow>
    \<exists>m'. m_rawbyte m b = Inr m' \<and> appended m m' [b]"
  by (rule rawbyte_appends) simp_all

interpretation c_bool: fixed_codec put_bool get_bool "\<lambda>x. [if x then 1 else 0]" 1
proof (unfold_locales, goal_cases)
  case (1 m x) then show ?case unfolding put_bool_def by (rule single_put)
next
  case (2 u x r)
  then have "u_rest u = (if x then 1 else 0) # r" by simp
  from rawbyte_some [OF 2(1) this] show ?case by (auto simp: get_bool_def split: if_splits)
next
  case (5 u) from rawbyte_total [OF 5] show ?case by (auto simp: get_bool_def)
qed simp_all

interpretation c_u8: fixed_codec put_u8 get_u8 "\<lambda>x. [x]" 1
proof (unfold_locales, goal_cases)
  case (1 m x) then show ?case unfolding put_u8_def by (rule single_put)
next
  case (2 u x r)
  then have "u_rest u = x # r" by simp
  from rawbyte_some [OF 2(1) this] show ?case by (auto simp: get_u8_def ucast_scast_byte)
next
  case (5 u) from rawbyte_total [OF 5] show ?case by (auto simp: get_u8_def)
qed simp_all

interpretation c_u16: fixed_codec put_u16 get_u16 be16 2
proof (unfold_locales, goal_cases)
  case (1 m x) then show ?case unfolding put_u16_be by (rule rawbyte_seq_appends)
next
  case (2 u x r) then show ?case by (intro get_u16_be)
next
  case (5 u) then show ?case by (rule get_u16_total)
qed (simp_all add: be16_def)

interpretation c_u32: fixed_codec put_u32 get_u32 be32 4
proof (unfold_locales, goal_cases)
  case (1 m x) then show ?case unfolding put_u32_be by (rule rawbyte_seq_appends)
next
  case (2 u x r) then show ?case by (intro get_u32_be)
next
  case (5 u) then show ?case by (rule get_u32_total)
qed (simp_all add: be32_def)

lemma put_u64_law:
  assumes "m_inv m" "m_ind m + int (length (be64 x)) \<le> MAX_MSG"
  shows "\<exists>m'. put_u64 m x = Inr m' \<and> appended m m' (be64 x)"
proof -
  obtain m1 where 1: "put_u32 m (ucast (drop_bit 32 x)) = Inr m1" "appended m m1 (be32 (ucast (drop_bit 32 x)))"
    using c_u32.put_law [OF assms(1), of "ucast (drop_bit 32 x)"] assms(2) by auto
  obtain m2 where 2: "put_u32 m1 (ucast x) = Inr m2" "appended m1 m2 (be32 (ucast x))"
    using c_u32.put_law [OF appended_inv [OF 1(2)], of "ucast x"] appended_ind [OF 1(2)] assms(2) by auto
  show ?thesis using 1 2 appended_trans [OF 1(2) 2(2)] by (simp add: put_u64_def be64_def)
qed

lemma get_u64_law:
  assumes "u_inv u" "u_rest u = be64 x @ r"
  shows "\<exists>u'. get_u64 u = Inr (x, u') \<and> advanced u u' r"
proof -
  obtain u1 where 1: "get_u32 u = Inr (ucast (drop_bit 32 x), u1)" "advanced u u1 (be32 (ucast x) @ r)"
    using get_u32_be [OF assms(1), of "ucast (drop_bit 32 x)" "be32 (ucast x) @ r"] assms(2)
    by (auto simp: be64_def)
  obtain u2 where 2: "get_u32 u1 = Inr (ucast x, u2)" "advanced u1 u2 r"
    using get_u32_be [OF advanced_inv [OF 1(2)]] by blast
  show ?thesis using 1 2 advanced_trans [OF 1(2) 2(2)] by (simp add: get_u64_def of_be64)
qed

lemma get_u64_total: "u_inv u \<Longrightarrow> \<exists>y u'. get_u64 u = Inr (y, u') \<and> consumed u u' 8"
proof -
  assume "u_inv u"
  then obtain a u1 where 1: "get_u32 u = Inr (a, u1)" "consumed u u1 4" using get_u32_total by blast
  then obtain b u2 where 2: "get_u32 u1 = Inr (b, u2)" "consumed u1 u2 4"
    using get_u32_total consumed_inv by blast
  show ?thesis using 1 2 consumed_trans [OF 1(2) 2(2)] by (simp add: get_u64_def)
qed

interpretation c_u64: fixed_codec put_u64 get_u64 be64 8
proof (unfold_locales, goal_cases)
  case (1 m x) then show ?case by (rule put_u64_law)
next
  case (2 u x r) then show ?case by (intro get_u64_law)
next
  case (5 u) then show ?case by (rule get_u64_total)
qed (simp_all add: be64_def be32_def)

section \<open>Strings\<close>

lemma put_string_law:
  assumes "m_inv m" "m_ind m + int (length (enc_string s)) \<le> MAX_MSG"
  shows "\<exists>m'. put_string m s = Inr m' \<and> appended m m' (enc_string s)"
proof -
  have "24 \<le> m_ind m" using assms(1) by (simp add: m_inv_def rpc_sizes)
  then have "signed_take_bit 31 (int (length s)) = int (length s)"
    using assms(2) by (intro signed_take_bit_int_eq_self) (simp_all add: enc_string_def MAX_MSG_def)
  moreover obtain m1 where 1: "put_u32 m (of_nat (length s)) = Inr m1" "appended m m1 (be32 (of_nat (length s)))"
    using c_u32.put_law [OF assms(1), of "of_nat (length s)"] assms(2) by (auto simp: enc_string_def)
  moreover obtain m2 where 2: "m_rawbytes m1 s (int (length s)) = Inr m2" "appended m1 m2 s"
    using rawbytes_appends [OF appended_inv [OF 1(2)], of s] appended_ind [OF 1(2)] assms(2)
    by (auto simp: enc_string_def)
  ultimately show ?thesis
    using appended_trans [OF 1(2) 2(2)] by (simp add: put_string_def enc_string_def)
qed

text \<open>Reading a string whose announced length is below \<open>MAX_MSG\<close>.\<close>

lemma rawbytes_law:
  assumes "u_inv u" "u_rest u = s @ r" "int (length s) \<le> MAX_MSG"
  shows "\<exists>u'. u_rawbytes u s0 (of_nat (length s)) = Inr (s, u') \<and> advanced u u' r"
proof -
  obtain b where b: "u_buf u = Some b" using assms(1) by (auto simp: u_inv_def)
  define i where "i = nat (u_ind u)"
  define z where "z = nat (u_sz u)"
  have iz: "u_ind u = int i" "u_sz u = int z" "i \<le> z" "z < 2 ^ 31"
    using assms(1) by (auto simp: u_inv_def i_def z_def)
  have n: "unat (of_nat (length s) :: u32) = length s"
    using assms(3) by (intro unat_of_nat_u32) (simp add: MAX_MSG_def)
  have fit: "i + length s \<le> z"
    using u_rest_length [OF assms(1)] assms(2) iz by simp
  have "unat (word_of_int (u_ind u) + of_nat (length s) :: u32) = i + length s"
    using fit iz by (simp add: unat_of_nat_u32 flip: of_nat_add)
  moreover have "unat (word_of_int (u_sz u) :: u32) = z"
    using iz by (simp add: unat_of_nat_u32)
  ultimately have le: "\<not> word_of_int (u_ind u) + of_nat (length s) > (word_of_int (u_sz u) :: u32)"
    using fit by (simp add: word_less_nat_alt)
  have split: "[i..<z] = [i..<i + length s] @ [i + length s..<z]"
    using fit by (metis le_add1 le_add_diff_inverse upt_add_eq_append)
  then have "map b [i..<i + length s] @ map b [i + length s..<z] = s @ r"
    using assms(2) b iz by (simp add: u_rest_def)
  then have "map b [i..<i + length s] = s" "map b [i + length s..<z] = r"
    by (simp_all add: append_eq_append_conv)
  moreover have "advanced u (u\<lparr>u_ind := int (i + length s)\<rparr>) (map b [i + length s..<z])"
    using assms(1) b iz fit by (simp add: advanced_def u_inv_def u_rest_def flip: of_nat_add)
  ultimately show ?thesis
    using le b n iz fit by (simp add: u_rawbytes_def)
qed

lemma get_string_law:
  assumes "u_inv u" "u_ok u" "u_rest u = enc_string s @ r" "int (length (enc_string s)) \<le> MAX_MSG"
  shows "\<exists>u'. get_string u s0 = Inr (s, u') \<and> advanced u u' r"
proof -
  obtain u1 where 1: "get_u32 u = Inr (of_nat (length s), u1)" "advanced u u1 (s @ r)"
    using get_u32_be [OF assms(1), of "of_nat (length s)" "s @ r"] assms(3) by (auto simp: enc_string_def)
  have "u_ok u1" using 1(2) assms(2) by (simp add: advanced_def)
  moreover obtain u2 where 2: "u_rawbytes u1 s0 (of_nat (length s)) = Inr (s, u2)" "advanced u1 u2 r"
    using rawbytes_law [OF advanced_inv [OF 1(2)], of s0] assms(4) by (auto simp: enc_string_def)
  ultimately show ?thesis
    using 1(1) advanced_trans [OF 1(2) 2(2)] by (simp add: get_string_def)
qed

lemma string_codec: "codec put_string (\<lambda>u. get_string u s0) enc_string"
proof (unfold_locales, goal_cases)
  case (1 m s) then show ?case by (rule put_string_law)
next
  case (2 u s r) then show ?case by (rule get_string_law)
qed (simp add: enc_string_def be32_def)

interpretation c_string: codec put_string "\<lambda>u. get_string u []" enc_string
  by (rule string_codec)

text \<open>The wrap-around of the bounds check: a length close to \<open>2 ^ 32\<close> passes it.\<close>

lemma get_string_wraps:
  assumes "u_inv u" "u_ok u" "u_rest u = be32 n @ r" "2 ^ 32 \<le> u_ind u + 4 + int (unat n)"
  shows "get_string u s0 = Inl OutOfBounds"
proof -
  obtain u1 where 1: "get_u32 u = Inr (n, u1)" "advanced u u1 r"
    using get_u32_be [OF assms(1,3)] by blast
  have ok1: "u_ok u1" "u_inv u1" "u_sz u1 = u_sz u" "u_rest u1 = r"
    using 1(2) assms(2) by (simp_all add: advanced_def)
  have ind: "u_ind u1 = u_ind u + 4"
    using u_rest_length [OF assms(1)] u_rest_length [OF ok1(2)] ok1 assms(3) by simp
  obtain b where b: "u_buf u1 = Some b" using ok1(2) by (auto simp: u_inv_def)
  define i where "i = nat (u_ind u1)"
  define z where "z = nat (u_sz u1)"
  have iz: "u_ind u1 = int i" "u_sz u1 = int z" "i \<le> z" "z < 2 ^ 31"
    using ok1(2) by (auto simp: u_inv_def i_def z_def)
  have k: "2 ^ 32 \<le> i + unat n" "unat n < 2 ^ 32"
    using assms(4) ind iz(1) unat_u32_bound [of n] by (simp_all del: of_nat_unat)
  have "unat (word_of_int (u_ind u1) + n :: u32) = (i + unat n) mod 2 ^ 32"
    using iz by (simp add: unat_word_ariths unat_of_nat_u32)
  also have "\<dots> = i + unat n - 2 ^ 32"
    using k iz by (simp add: mod_if [of "i + unat n"])
  finally have "\<not> word_of_int (u_ind u1) + n > (word_of_int (u_sz u1) :: u32)"
    using k iz by (simp add: word_less_nat_alt unat_of_nat_u32)
  moreover have "u_ind u1 + int (unat n) > u_sz u1"
    using k iz by (simp del: of_nat_unat)
  ultimately show ?thesis
    using 1(1) ok1(1) b by (simp add: get_string_def u_rawbytes_def)
qed

section \<open>Vectors, pairs and maps\<close>

lemma vector_codec:
  assumes "codec put get enc"
  shows "codec (put_vector put) (\<lambda>u. get_vector get u []) (enc_vector enc)"
proof (unfold_locales, goal_cases)
  case (1 m v)
  obtain m1 where m1: "put_u32 m (of_nat (length v)) = Inr m1" "appended m m1 (be32 (of_nat (length v)))"
    using c_u32.put_law [OF 1(1), of "of_nat (length v)"] 1(2) by (auto simp: enc_vector_def)
  obtain m2 where "put_all put m1 v = Inr m2" "appended m1 m2 (concat (map enc v))"
    using codec.put_all_law [OF assms appended_inv [OF m1(2)], of v] appended_ind [OF m1(2)] 1(2)
    by (auto simp: enc_vector_def)
  with m1 appended_trans [OF m1(2)] show ?case by (simp add: put_vector_def enc_vector_def)
next
  case (2 u v r)
  obtain u1 where u1: "get_u32 u = Inr (of_nat (length v), u1)" "advanced u u1 (concat (map enc v) @ r)"
    using get_u32_be [OF 2(1), of "of_nat (length v)"] 2(3) by (auto simp: enc_vector_def)
  have "int (length v) \<le> MAX_MSG"
    using codec.length_le_enc [OF assms, of v] 2(4) by (simp add: enc_vector_def)
  then have n: "unat (of_nat (length v) :: u32) = length v"
    by (intro unat_of_nat_u32) (simp add: MAX_MSG_def)
  obtain u2 where "get_all (length v) get u1 [] = Inr (v, u2)" "advanced u1 u2 r"
    using codec.get_all_law [OF assms, of u1 v r "[]"] u1(2) 2(2,4) by (auto simp: advanced_def enc_vector_def)
  with u1 n advanced_trans [OF u1(2)] show ?case by (simp add: get_vector_def)
qed (simp add: enc_vector_def be32_def)

lemma pair_codec:
  assumes a: "codec put_a get_a enc_a" and b: "codec put_b get_b enc_b"
  shows "codec (put_pair put_a put_b) (get_pair get_a get_b) (\<lambda>(x, y). enc_a x @ enc_b y)"
proof (unfold_locales, goal_cases)
  case (1 m p)
  obtain x y where p: "p = (x, y)" by (cases p)
  obtain m1 where m1: "put_a m x = Inr m1" "appended m m1 (enc_a x)"
    using codec.put_law [OF a 1(1), of x] 1(2) by (auto simp: p)
  obtain m2 where "put_b m1 y = Inr m2" "appended m1 m2 (enc_b y)"
    using codec.put_law [OF b appended_inv [OF m1(2)], of y] appended_ind [OF m1(2)] 1(2) by (auto simp: p)
  with m1 appended_trans [OF m1(2)] show ?case by (simp add: put_pair_def p)
next
  case (2 u p r)
  obtain x y where p: "p = (x, y)" by (cases p)
  obtain u1 where u1: "get_a u = Inr (x, u1)" "advanced u u1 (enc_b y @ r)"
    using codec.get_law [OF a 2(1,2), of x "enc_b y @ r"] 2(3,4) by (auto simp: p)
  obtain u2 where "get_b u1 = Inr (y, u2)" "advanced u1 u2 r"
    using codec.get_law [OF b, of u1 y r] u1(2) 2(2,4) by (auto simp: p advanced_def)
  with u1 advanced_trans [OF u1(2)] show ?case by (simp add: get_pair_def p)
next
  case (3 p) then show ?case using codec.enc_pos [OF a] by (cases p) simp
qed

lemma get_all_extends:
  assumes "get_all n get u acc = Inr (v, u')"
  shows "\<exists>es. v = acc @ es \<and> length es = n"
  using assms
proof (induction n arbitrary: u acc)
  case (Suc n)
  then obtain z u1 where "get u = Inr (z, u1)" "get_all n get u1 (acc @ [z]) = Inr (v, u')"
    by (auto simp: fault_simps)
  with Suc.IH [of u1 "acc @ [z]"] show ?case by auto
qed simp

lemma get_entries_all:
  assumes "get_all n get u acc = Inr (acc @ es, u')"
  shows "get_entries n get u d = Inr (d ++ map_of (rev es), u')"
  using assms
proof (induction n arbitrary: u acc es d)
  case (Suc n)
  then obtain a b u1 where g: "get u = Inr ((a, b), u1)" "get_all n get u1 (acc @ [(a, b)]) = Inr (acc @ es, u')"
    by (auto simp: fault_simps)
  obtain es' where es: "es = (a, b) # es'"
    using get_all_extends [OF g(2)] by auto
  have "get_entries n get u1 (d(a \<mapsto> b)) = Inr (d(a \<mapsto> b) ++ map_of (rev es'), u')"
    using Suc.IH [of u1 "acc @ [(a, b)]" es'] g(2) es by simp
  then show ?case
    using g(1) by (simp add: es map_add_assoc [symmetric])
qed simp

lemma map_of_rev_distinct: "distinct (map fst d) \<Longrightarrow> map_of (rev d) = map_of d"
  by (simp add: map_of_inject_set flip: rev_map)

lemma map_round_trip:
  assumes a: "codec put_a get_a enc_a" and b: "codec put_b get_b enc_b" and d: "distinct (map fst d)"
    and len: "int (length (enc_vector (\<lambda>(x, y). enc_a x @ enc_b y) d)) + RPC_HEADER_SZ \<le> MAX_MSG"
  shows "\<exists>m u'. put_map put_a put_b (marshall_new mem) d = Inr m \<and>
    get_map get_a get_b (unmarshall_of_string mem' (get_content m)) = Inr (map_of d, u') \<and> okdone u'"
proof -
  let ?enc = "\<lambda>(x, y). enc_a x @ enc_b y"
  note c = vector_codec [OF pair_codec [OF a b]]
  have "put_map put_a put_b = put_vector (put_pair put_a put_b)"
    by (simp add: fun_eq_iff put_map_def put_vector_def)
  then obtain m u' where m: "put_map put_a put_b (marshall_new mem) d = Inr m"
    and g: "get_vector (get_pair get_a get_b) (unmarshall_of_string mem' (get_content m)) [] = Inr (d, u')" "okdone u'"
    using codec.round_trip [OF c len, of mem mem'] by auto
  let ?u = "unmarshall_of_string mem' (get_content m)"
  from g(1) obtain n u1 where n: "get_u32 ?u = Inr (n, u1)"
    "get_all (unat n) (get_pair get_a get_b) u1 [] = Inr (d, u')"
    by (auto simp: get_vector_def fault_simps)
  have "get_entries (unat n) (get_pair get_a get_b) u1 Map.empty = Inr (map_of d, u')"
    using get_entries_all [of _ _ _ "[]" d] n(2) map_of_rev_distinct [OF d] by fastforce
  with n(1) m g(2) show ?thesis by (auto simp: get_map_def)
qed

section \<open>The attributes of a file\<close>

definition put_attr :: "marshall \<Rightarrow> attr \<Rightarrow> marshall res" where
  "put_attr m a =
     bindE (put_u32 m (a_type a)) (\<lambda>m. bindE (put_u32 m (a_atime a)) (\<lambda>m.
     bindE (put_u32 m (a_mtime a)) (\<lambda>m. bindE (put_u32 m (a_ctime a)) (\<lambda>m. put_u32 m (a_size a)))))"

definition get_attr :: "unmarshall \<Rightarrow> (attr \<times> unmarshall) res" where
  "get_attr u =
     bindE (get_u32 u) (\<lambda>(t, u). bindE (get_u32 u) (\<lambda>(at, u). bindE (get_u32 u) (\<lambda>(mt, u).
     bindE (get_u32 u) (\<lambda>(ct, u). bindE (get_u32 u) (\<lambda>(sz, u).
       Inr (\<lparr>a_type = t, a_atime = at, a_mtime = mt, a_ctime = ct, a_size = sz\<rparr>, u))))))"

definition attr_words :: "attr \<Rightarrow> u32 list" where
  "attr_words a = [a_type a, a_atime a, a_mtime a, a_ctime a, a_size a]"

lemma put_attr_all: "put_attr m a = put_all put_u32 m (attr_words a)"
proof -
  have "bindE x Inr = x" for x :: "marshall res" by (cases x) simp_all
  then show ?thesis by (simp add: put_attr_def attr_words_def)
qed

lemma get_attr_all:
  "get_all 5 get_u32 u [] = Inr (v, u') \<Longrightarrow> v = attr_words a \<Longrightarrow> get_attr u = Inr (a, u')"
  by (auto simp: get_attr_def attr_words_def eval_nat_numeral fault_simps)

interpretation c_attr: codec put_attr get_attr "\<lambda>a. concat (map be32 (attr_words a))"
proof (unfold_locales, goal_cases)
  case (1 m a) then show ?case unfolding put_attr_all by (rule c_u32.put_all_law)
next
  case (2 u a r)
  have "length (attr_words a) = 5" by (simp add: attr_words_def)
  with c_u32.get_all_law [OF 2, of "[]"] get_attr_all [of u _ _ a] show ?case by auto
qed (simp add: attr_words_def be32_def)

section \<open>Packet headers\<close>

lemma rawbyte_seq_store:
  assumes "0 \<le> m_ind m" "m_ind m + int (length bs) \<le> m_capa m" "m_buf m = Some b"
  shows "m_rawbyte_seq m bs =
    Inr (m\<lparr>m_buf := Some (\<lambda>k. if nat (m_ind m) \<le> k \<and> k < nat (m_ind m) + length bs
                          then bs ! (k - nat (m_ind m)) else b k),
           m_ind := m_ind m + int (length bs)\<rparr>)"
  using assms
proof (induction bs arbitrary: m b)
  case Nil
  have "(\<lambda>k. if nat (m_ind m) \<le> k \<and> k < nat (m_ind m) + length ([] :: byte list)
      then ([] :: byte list) ! (k - nat (m_ind m)) else b k) = b"
    by (auto simp: fun_eq_iff)
  with Nil show ?case by (cases m) (simp cong: if_cong)
next
  case (Cons c bs)
  define i where "i = nat (m_ind m)"
  have i: "m_ind m = int i" using Cons.prems(1) by (simp add: i_def)
  let ?b1 = "\<lambda>k. if i \<le> k \<and> k < Suc i then [c] ! (k - i) else b k"
  let ?m1 = "m\<lparr>m_buf := Some ?b1, m_ind := int i + 1\<rparr>"
  have "m_rawbyte m c = Inr ?m1"
    using Cons.prems by (simp add: m_rawbyte_def m_store_def i cong: if_cong)
  moreover have "m_rawbyte_seq ?m1 bs = Inr (?m1\<lparr>m_buf := Some (\<lambda>k. if Suc i \<le> k \<and> k < Suc i + length bs
      then bs ! (k - Suc i) else ?b1 k), m_ind := int i + 1 + int (length bs)\<rparr>)"
    using Cons.IH [of ?m1 ?b1] Cons.prems by (simp add: i nat_add_distrib cong: if_cong)
  moreover have "(\<lambda>k. if Suc i \<le> k \<and> k < Suc i + length bs then bs ! (k - Suc i) else ?b1 k) =
      (\<lambda>k. if i \<le> k \<and> k < i + length (c # bs) then (c # bs) ! (k - i) else b k)"
    by (auto simp: fun_eq_iff nth_Cons' Suc_diff_le split: nat.split)
  ultimately show ?case by (simp add: i cong: if_cong)
qed

lemma pack_seq_bytes: "m_pack_seq m xs = m_rawbyte_seq m (concat (map be32 xs))"
proof -
  have app: "m_rawbyte_seq m (bs @ cs) = bindE (m_rawbyte_seq m bs) (\<lambda>m. m_rawbyte_seq m cs)" for m bs cs
    by (induction bs arbitrary: m) (simp_all add: bindE_def split: sum.splits)
  show ?thesis
    by (induction xs arbitrary: m) (simp_all add: app m_pack_be)
qed

lemma unpack_get: "u_unpack = get_u32"
  by (simp add: fun_eq_iff u_unpack_def get_u32_def)

text \<open>Header words written at offset 4 leave position and content alone and are found there by a reader of
  the finished packet.\<close>

lemma pack_words:
  assumes inv: "m_inv m" and n: "length ws \<le> 5"
  obtains m' b where "m_pack_seq (m\<lparr>m_ind := sizeof_rpc_sz\<rparr>) ws = Inr m'" "m_buf m' = Some b"
    "m_inv (m'\<lparr>m_ind := m_ind m\<rparr>)" "get_content (m'\<lparr>m_ind := m_ind m\<rparr>) = get_content m"
    "map b [4..<4 + 4 * length ws] = concat (map be32 ws)"
proof -
  obtain b0 where b0: "m_buf m = Some b0" using inv by (auto simp: m_inv_def)
  let ?bs = "concat (map be32 ws)" and ?m = "m\<lparr>m_ind := sizeof_rpc_sz\<rparr>"
  have len: "length ?bs = 4 * length ws" by (induction ws) simp_all
  define b where "b = (\<lambda>k. if 4 \<le> k \<and> k < 4 + length ?bs then ?bs ! (k - 4) else b0 k)"
  have fit: "4 + int (length ?bs) \<le> m_capa m"
    using inv n len by (simp add: m_inv_def rpc_sizes)
  have run: "m_pack_seq ?m ws = Inr (?m\<lparr>m_buf := Some b, m_ind := 4 + int (length ?bs)\<rparr>)"
    unfolding pack_seq_bytes b_def using rawbyte_seq_store [of ?m ?bs b0] fit b0
    by (simp add: rpc_sizes cong: if_cong)
  have "map b [24..<nat (m_ind m)] = map b0 [24..<nat (m_ind m)]"
    using n len by (auto simp: b_def)
  moreover have "map b [4..<4 + 4 * length ws] = ?bs"
    using len by (intro nth_equalityI) (simp_all add: b_def)
  ultimately show ?thesis
    using inv b0 run by (intro that [OF run]) (simp_all add: m_inv_def get_content_def rpc_sizes)
qed

lemma read_words:
  assumes "u_buf u = Some b" "u_ok u" "4 + 4 * int (length ws) \<le> u_sz u" "u_sz u < 2 ^ 31" "length ws \<le> 5"
    "map b [4..<4 + 4 * length ws] = concat (map be32 ws)"
  shows "\<exists>u'. get_all (length ws) get_u32 (u\<lparr>u_ind := sizeof_rpc_sz\<rparr>) [] = Inr (ws, u') \<and>
    u_ok u' \<and> u_buf u' = u_buf u \<and> u_sz u' = u_sz u"
proof -
  let ?u = "u\<lparr>u_ind := sizeof_rpc_sz\<rparr>"
  have "[4..<nat (u_sz u)] = [4..<4 + 4 * length ws] @ [4 + 4 * length ws..<nat (u_sz u)]"
    using assms(3) upt_add_eq_append [of 4 "4 + 4 * length ws" "nat (u_sz u) - (4 + 4 * length ws)"] by simp
  then have "u_rest ?u = concat (map be32 ws) @ map b [4 + 4 * length ws..<nat (u_sz u)]"
    using assms(1,6) by (simp add: u_rest_def rpc_sizes)
  moreover have "u_inv ?u"
    using assms by (simp add: u_inv_def rpc_sizes)
  moreover have "length (concat (map be32 ws)) = 4 * length ws" by (induction ws) simp_all
  ultimately obtain u' where "get_all (length ws) get_u32 ?u [] = Inr ([] @ ws, u')"
    "advanced ?u u' (map b [4 + 4 * length ws..<nat (u_sz u)])"
    using c_u32.get_all_law [of ?u ws _ "[]"] assms(2,5) by (auto simp: MAX_MSG_def)
  then show ?thesis using assms(2) by (auto simp: advanced_def)
qed

lemma req_header_round_trip:
  assumes inv: "m_inv m" and max: "m_ind m < 2 ^ 31"
  shows "\<exists>m' u'. pack_req_header m h = Inr m' \<and> m_inv m' \<and> m_ind m' = m_ind m \<and> get_content m' = get_content m \<and>
    unpack_req_header (unmarshall_new (the (m_buf m')) (m_ind m')) = Inr (h, u') \<and> u_ok u' \<and>
    u_ind u' = RPC_HEADER_SZ \<and> u_rest u' = get_content m"
proof -
  define ws where "ws = [rq_xid h, rq_proc h, rq_clt_nonce h, rq_srv_nonce h, rq_xid_rep h]"
  have len: "length ws \<le> 5" "length ws = 5" by (simp_all add: ws_def)
  obtain m1 b where m1: "m_pack_seq (m\<lparr>m_ind := sizeof_rpc_sz\<rparr>) ws = Inr m1" "m_buf m1 = Some b"
    "m_inv (m1\<lparr>m_ind := m_ind m\<rparr>)" "get_content (m1\<lparr>m_ind := m_ind m\<rparr>) = get_content m"
    "map b [4..<4 + 4 * length ws] = concat (map be32 ws)"
    by (rule pack_words [OF inv len(1)]) (rule that)
  define m' where "m' = m1\<lparr>m_ind := m_ind m\<rparr>"
  let ?u = "unmarshall_new b (m_ind m)"
  have "24 \<le> m_ind m" using inv by (simp add: m_inv_def rpc_sizes)
  then obtain u1 where u1: "get_all (length ws) get_u32 (?u\<lparr>u_ind := sizeof_rpc_sz\<rparr>) [] = Inr (ws, u1)"
    "u_ok u1" "u_buf u1 = Some b" "u_sz u1 = m_ind m"
    using read_words [of ?u b ws] max len m1(5) by (auto simp: unmarshall_new_def)
  have "unpack_req_header ?u = Inr (h, u1\<lparr>u_ind := RPC_HEADER_SZ\<rparr>)"
    using u1(1) unfolding len(2)
    by (auto simp: unpack_req_header_def unpack_get ws_def eval_nat_numeral fault_simps)
  moreover have "u_rest (u1\<lparr>u_ind := RPC_HEADER_SZ\<rparr>) = get_content m"
    using u1(3,4) m1(2,4) by (simp add: u_rest_def get_content_def)
  moreover have "pack_req_header m h = Inr m'"
    using m1(1) by (simp add: pack_req_header_def m'_def ws_def)
  ultimately show ?thesis
    using m1 u1 by (intro exI [of _ m'] exI [of _ "u1\<lparr>u_ind := RPC_HEADER_SZ\<rparr>"]) (simp add: m'_def)
qed

lemma reply_header_round_trip:
  assumes inv: "m_inv m" and max: "m_ind m < 2 ^ 31"
  shows "\<exists>m' u'. pack_reply_header m h = Inr m' \<and> m_inv m' \<and> m_ind m' = m_ind m \<and> get_content m' = get_content m \<and>
    unpack_reply_header (unmarshall_new (the (m_buf m')) (m_ind m')) = Inr (h, u') \<and> u_ok u' \<and>
    u_ind u' = RPC_HEADER_SZ \<and> u_rest u' = get_content m"
proof -
  define ws where "ws = [rp_xid h, rp_ret h]"
  have len: "length ws \<le> 5" "length ws = 2" by (simp_all add: ws_def)
  obtain m1 b where m1: "m_pack_seq (m\<lparr>m_ind := sizeof_rpc_sz\<rparr>) ws = Inr m1" "m_buf m1 = Some b"
    "m_inv (m1\<lparr>m_ind := m_ind m\<rparr>)" "get_content (m1\<lparr>m_ind := m_ind m\<rparr>) = get_content m"
    "map b [4..<4 + 4 * length ws] = concat (map be32 ws)"
    by (rule pack_words [OF inv len(1)]) (rule that)
  define m' where "m' = m1\<lparr>m_ind := m_ind m\<rparr>"
  let ?u = "unmarshall_new b (m_ind m)"
  have "24 \<le> m_ind m" using inv by (simp add: m_inv_def rpc_sizes)
  then obtain u1 where u1: "get_all (length ws) get_u32 (?u\<lparr>u_ind := sizeof_rpc_sz\<rparr>) [] = Inr (ws, u1)"
    "u_ok u1" "u_buf u1 = Some b" "u_sz u1 = m_ind m"
    using read_words [of ?u b ws] max len m1(5) by (auto simp: unmarshall_new_def)
  have "unpack_reply_header ?u = Inr (h, u1\<lparr>u_ind := RPC_HEADER_SZ\<rparr>)"
    using u1(1) unfolding len(2)
    by (auto simp: unpack_reply_header_def unpack_get ws_def eval_nat_numeral fault_simps)
  moreover have "u_rest (u1\<lparr>u_ind := RPC_HEADER_SZ\<rparr>) = get_content m"
    using u1(3,4) m1(2,4) by (simp add: u_rest_def get_content_def)
  moreover have "pack_reply_header m h = Inr m'"
    using m1(1) by (simp add: pack_reply_header_def m'_def ws_def)
  ultimately show ?thesis
    using m1 u1 by (intro exI [of _ m'] exI [of _ "u1\<lparr>u_ind := RPC_HEADER_SZ\<rparr>"]) (simp add: m'_def)
qed

end
