(* ===== verification/Connection.thy ===== *)
theory Connection
  imports Codecs
begin

text \<open>
  Class \<open>connection\<close> (\<open>rpc/connection.h\<close>, \<open>rpc/connection.cc\<close>): framing of packets on a byte stream,
  reference counting and the dead flag. The results of the system calls \<open>read\<close> and \<open>write\<close> are inputs;
  the poll manager's callbacks are explicit steps. \<open>receive_ok\<close> and \<open>transmit_ok\<close> show that a packet
  arrives whole and unchanged however the stream cuts it.
\<close>

section \<open>State\<close>

definition MAX_PDU :: int where "MAX_PDU = 10485760"

text \<open>\<open>struct charbuf\<close> with the size of the allocation behind \<open>buf\<close>.\<close>

record charbuf =
  cb_buf :: "(nat \<Rightarrow> byte) option"
  cb_alloc :: int
  cb_sz :: int
  cb_solong :: int

definition charbuf_empty :: charbuf where
  "charbuf_empty = \<lparr>cb_buf = None, cb_alloc = 0, cb_sz = 0, cb_solong = 0\<rparr>"

record connection =
  c_dead :: bool
  c_wpdu :: charbuf
  c_rpdu :: charbuf
  c_sec :: int
  c_usec :: int
  c_waiters :: int
  c_refno :: int
  c_lossy :: int

definition connection_new :: "int \<Rightarrow> int \<Rightarrow> int \<Rightarrow> connection" where
  "connection_new sec usec lossy =
     \<lparr>c_dead = False, c_wpdu = charbuf_empty, c_rpdu = charbuf_empty, c_sec = sec, c_usec = usec,
      c_waiters = 0, c_refno = 1, c_lossy = lossy\<rparr>"

section \<open>References\<close>

definition incref :: "connection \<Rightarrow> connection" where
  "incref c = c\<lparr>c_refno := c_refno c + 1\<rparr>"

text \<open>The destructor's checks.\<close>

definition connection_delete :: "connection \<Rightarrow> unit res" where
  "connection_delete c = bindE (VERIFY (c_dead c)) (\<lambda>_. VERIFY (cb_buf (c_wpdu c) = None))"

text \<open>\<open>decref\<close>; the result is \<open>None\<close> when the object is deleted.\<close>

definition decref :: "connection \<Rightarrow> connection option res" where
  "decref c =
     (let c1 = c\<lparr>c_refno := c_refno c - 1\<rparr>
      in bindE (VERIFY (c_refno c1 \<ge> 0))
           (\<lambda>_. if c_refno c1 = 0 \<and> c_dead c1 then bindE (connection_delete c1) (\<lambda>_. Inr None)
                else Inr (Some c1)))"

definition closeconn :: "connection \<Rightarrow> connection" where
  "closeconn c = (if \<not> c_dead c then c\<lparr>c_dead := True\<rparr> else c)"

definition compare_conn :: "connection \<Rightarrow> connection \<Rightarrow> int" where
  "compare_conn c another =
     (if c_sec c > c_sec another then 1
      else if c_sec c < c_sec another then -1
      else if c_usec c > c_usec another then 1
      else if c_usec c < c_usec another then -1
      else 0)"

section \<open>Writing a packet\<close>

text \<open>The result of \<open>write\<close>: a count, or an error with its \<open>errno\<close> (\<open>True\<close>: \<open>EAGAIN\<close>).\<close>

datatype wr = Wrote nat | WrErr bool

text \<open>\<open>writepdu\<close> returns its result, the buffer and the bytes that left for the network. A kernel never
  writes more than it was given.\<close>

definition writepdu :: "charbuf \<Rightarrow> wr \<Rightarrow> (bool \<times> charbuf \<times> byte list) res" where
  "writepdu w r =
     bindE (VERIFY (cb_solong w \<ge> 0))
       (\<lambda>_. if cb_solong w = cb_sz w then Inr (True, w, [])
            else case cb_buf w of
                   None \<Rightarrow> Inl NullDeref
                 | Some b0 \<Rightarrow>
                     if cb_solong w = 0 \<and> cb_alloc w < 4 then Inl OutOfBounds
                     else
                     (let b = if cb_solong w = 0
                              then (\<lambda>k. if k < 4 then be32 (word_of_int (cb_sz w)) ! k else b0 k) else b0;
                          w1 = w\<lparr>cb_buf := Some b\<rparr>
                      in case r of
                           WrErr again \<Rightarrow>
                             if again then Inr (True, w1, [])
                             else Inr (False, w1\<lparr>cb_solong := -1, cb_sz := 0\<rparr>, [])
                         | Wrote n \<Rightarrow>
                             Inr (True, w1\<lparr>cb_solong := cb_solong w1 + int n\<rparr>,
                                  map b [nat (cb_solong w)..<nat (cb_solong w) + n])))"

text \<open>\<open>send\<close> from the point where the connection is free: put the packet in place, then the first write;
  the flag tells whether the whole packet is written already. The later writes are those of \<open>write_cb\<close>.\<close>

definition send_start :: "connection \<Rightarrow> (nat \<Rightarrow> byte) \<Rightarrow> int \<Rightarrow> wr \<Rightarrow> (connection \<times> byte list) res" where
  "send_start c b sz r =
     (if c_dead c then Inr (c, [])
      else bindE (writepdu \<lparr>cb_buf = Some b, cb_alloc = sz, cb_sz = sz, cb_solong = 0\<rparr> r)
             (\<lambda>(ok, w, out). Inr (c\<lparr>c_wpdu := w, c_dead := (\<not> ok)\<rparr>, out)))"

definition send_pending :: "connection \<Rightarrow> bool" where
  "send_pending c \<longleftrightarrow>
     \<not> c_dead c \<and> cb_solong (c_wpdu c) \<ge> 0 \<and> cb_solong (c_wpdu c) < cb_sz (c_wpdu c)"

definition send_finish :: "connection \<Rightarrow> bool \<times> connection" where
  "send_finish c =
     (\<not> c_dead c \<and> cb_solong (c_wpdu c) = cb_sz (c_wpdu c),
      c\<lparr>c_wpdu := (c_wpdu c)\<lparr>cb_solong := 0, cb_sz := 0, cb_buf := None\<rparr>\<rparr>)"

definition write_cb :: "connection \<Rightarrow> wr \<Rightarrow> (connection \<times> byte list) res" where
  "write_cb c r =
     bindE (VERIFY (\<not> c_dead c))
       (\<lambda>_. if cb_sz (c_wpdu c) = 0 then Inr (c, [])
            else bindE (writepdu (c_wpdu c) r)
                   (\<lambda>(ok, w, out).
                      if \<not> ok then Inr (c\<lparr>c_wpdu := w, c_dead := True\<rparr>, out)
                      else bindE (VERIFY (cb_solong w \<ge> 0)) (\<lambda>_. Inr (c\<lparr>c_wpdu := w\<rparr>, out))))"

section \<open>Reading a packet\<close>

text \<open>The result of \<open>read\<close>: bytes, end of file with the value \<open>errno\<close> happens to have, or an error
  (\<open>True\<close>: \<open>EAGAIN\<close>).\<close>

datatype rd = RdData "byte list" | RdEof bool | RdErr bool

text \<open>The first read of a packet: its size. \<open>None\<close> is \<open>return false\<close>. A negative size makes \<open>malloc\<close> fail or
  return fewer than the four bytes copied next.\<close>

definition of_be32_bytes :: "byte list \<Rightarrow> u32" where
  "of_be32_bytes bs =
     push_bit 24 (ucast (bs ! 0)) OR push_bit 16 (ucast (bs ! 1)) OR push_bit 8 (ucast (bs ! 2)) OR ucast (bs ! 3)"

definition read_size :: "charbuf \<Rightarrow> (nat \<Rightarrow> byte) \<Rightarrow> rd \<Rightarrow> charbuf option res" where
  "read_size p mem r =
     (case r of
        RdEof _ \<Rightarrow> Inr None
      | RdErr again \<Rightarrow> bindE (VERIFY (\<not> again)) (\<lambda>_. Inr None)
      | RdData bs \<Rightarrow>
          if length bs \<noteq> 4 then Inr None
          else (let sz = sint (of_be32_bytes bs)
                in if sz > MAX_PDU then Inr None
                   else bindE (VERIFY (cb_buf p = None))
                     (\<lambda>_. if sz < -4 then Inl VerifyFailed
                          else if sz + 4 < 4 then Inl OutOfBounds
                          else Inr (Some \<lparr>cb_buf = Some (\<lambda>k. if k < 4 then bs ! k else mem k),
                                     cb_alloc = sz + 4, cb_sz = sz, cb_solong = 4\<rparr>))))"

definition read_data :: "charbuf \<Rightarrow> rd \<Rightarrow> (bool \<times> charbuf) res" where
  "read_data p r =
     (case r of
        RdData bs \<Rightarrow>
          (case cb_buf p of
             None \<Rightarrow> Inl NullDeref
           | Some b \<Rightarrow>
               if cb_solong p + int (length bs) > cb_alloc p then Inl OutOfBounds
               else Inr (True, p\<lparr>cb_buf := Some (\<lambda>k. if nat (cb_solong p) \<le> k \<and> k < nat (cb_solong p) + length bs
                                                   then bs ! (k - nat (cb_solong p)) else b k),
                                 cb_solong := cb_solong p + int (length bs)\<rparr>))
      | RdEof again \<Rightarrow> if again then Inr (True, p) else Inr (False, charbuf_empty)
      | RdErr again \<Rightarrow> if again then Inr (True, p) else Inr (False, charbuf_empty))"

definition readpdu :: "charbuf \<Rightarrow> (nat \<Rightarrow> byte) \<Rightarrow> rd \<Rightarrow> rd \<Rightarrow> (bool \<times> charbuf) res" where
  "readpdu p mem r1 r2 =
     (if cb_sz p = 0
      then bindE (read_size p mem r1)
             (\<lambda>q. case q of None \<Rightarrow> Inr (False, p) | Some p1 \<Rightarrow> read_data p1 r2)
      else read_data p r2)"

text \<open>\<open>read_cb\<close>; the last component is the packet handed to \<open>got_pdu\<close>, whose answer is \<open>took\<close>.\<close>

definition read_cb ::
  "connection \<Rightarrow> (nat \<Rightarrow> byte) \<Rightarrow> rd \<Rightarrow> rd \<Rightarrow> bool \<Rightarrow> (connection \<times> (nat \<Rightarrow> byte) option \<times> int) res" where
  "read_cb c mem r1 r2 took =
     (if c_dead c then Inr (c, None, 0)
      else bindE
        (if cb_buf (c_rpdu c) = None \<or> cb_solong (c_rpdu c) < cb_sz (c_rpdu c)
         then readpdu (c_rpdu c) mem r1 r2 else Inr (True, c_rpdu c))
        (\<lambda>(succ, p).
           (let c1 = c\<lparr>c_rpdu := p, c_dead := (\<not> succ)\<rparr>
            in if cb_buf p \<noteq> None \<and> cb_sz p = cb_solong p
               then Inr (if took then c1\<lparr>c_rpdu := p\<lparr>cb_buf := None, cb_sz := 0, cb_solong := 0\<rparr>\<rparr> else c1,
                         cb_buf p, cb_sz p)
               else Inr (c1, None, 0))))"

section \<open>A packet arrives whole\<close>

text \<open>The callbacks of a connection in turn, and the packets they deliver.\<close>

fun recv :: "connection \<Rightarrow> (nat \<Rightarrow> byte) \<Rightarrow> (rd \<times> rd) list \<Rightarrow> (connection \<times> byte list list) res" where
  "recv c mem [] = Inr (c, [])"
| "recv c mem ((r1, r2) # rs) =
     bindE (read_cb c mem r1 r2 True)
       (\<lambda>(c1, b, sz). bindE (recv c1 mem rs)
          (\<lambda>(c2, ps). Inr (c2, (case b of None \<Rightarrow> ps | Some f \<Rightarrow> map f [0..<nat sz] # ps))))"

text \<open>How the network can cut a packet: its size first, some of the rest with it or nothing yet, then
  non-empty pieces.\<close>

definition cut :: "byte list \<Rightarrow> byte list \<Rightarrow> byte list list \<Rightarrow> (rd \<times> rd) list" where
  "cut pkt c0 cs =
     (RdData (take 4 pkt), if c0 = [] then RdErr True else RdData c0) # map (\<lambda>c. (RdErr True, RdData c)) cs"

definition framed :: "byte list \<Rightarrow> bool" where
  "framed pkt \<longleftrightarrow> 4 < length pkt \<and> int (length pkt) \<le> MAX_PDU \<and> take 4 pkt = be32 (of_nat (length pkt))"

definition idle :: "connection \<Rightarrow> bool" where
  "idle c \<longleftrightarrow> \<not> c_dead c \<and> cb_buf (c_rpdu c) = None \<and> cb_sz (c_rpdu c) = 0"

definition holding :: "connection \<Rightarrow> byte list \<Rightarrow> nat \<Rightarrow> bool" where
  "holding c pkt k \<longleftrightarrow> \<not> c_dead c \<and> cb_sz (c_rpdu c) = int (length pkt) \<and> cb_solong (c_rpdu c) = int k \<and>
     int (length pkt) \<le> cb_alloc (c_rpdu c) \<and> 0 < length pkt \<and>
     (\<exists>b. cb_buf (c_rpdu c) = Some b \<and> map b [0..<k] = take k pkt)"

lemma of_be32_bytes_be32: "of_be32_bytes (be32 x) = x"
  using of_be32 [of x] by (simp add: of_be32_bytes_def be32_def)

lemma map_extend:
  assumes "map b [0..<k] = take k pkt" "k + length bs \<le> length pkt" "bs = take (length bs) (drop k pkt)"
  shows "map (\<lambda>i. if k \<le> i \<and> i < k + length bs then bs ! (i - k) else b i) [0..<k + length bs] =
    take (k + length bs) pkt"
proof -
  let ?b' = "\<lambda>i. if k \<le> i \<and> i < k + length bs then bs ! (i - k) else b i"
  have "map ?b' [0..<k + length bs] = map ?b' [0..<k] @ map ?b' [k..<k + length bs]"
    using upt_add_eq_append [of 0 k "length bs"] by (simp only: map_append)
  also have "map ?b' [0..<k] = map b [0..<k]" by simp
  also have "map ?b' [k..<k + length bs] = bs" by (rule nth_equalityI) simp_all
  finally show ?thesis using assms(1,3) by (simp add: take_add)
qed

lemma read_piece:
  assumes "holding c pkt k" "k + length bs \<le> length pkt" "bs = take (length bs) (drop k pkt)" "k < length pkt"
  shows "if k + length bs = length pkt
    then \<exists>c' b. read_cb c mem r1 (RdData bs) True = Inr (c', Some b, int (length pkt)) \<and> idle c' \<and>
      map b [0..<length pkt] = pkt
    else \<exists>c'. read_cb c mem r1 (RdData bs) True = Inr (c', None, 0) \<and> holding c' pkt (k + length bs)"
proof -
  obtain b where b: "cb_buf (c_rpdu c) = Some b" "map b [0..<k] = take k pkt"
    using assms(1) by (auto simp: holding_def)
  have h: "\<not> c_dead c" "cb_sz (c_rpdu c) = int (length pkt)" "cb_solong (c_rpdu c) = int k"
    "int (length pkt) \<le> cb_alloc (c_rpdu c)" "0 < length pkt"
    using assms(1) by (auto simp: holding_def)
  let ?b' = "\<lambda>i. if k \<le> i \<and> i < k + length bs then bs ! (i - k) else b i"
  let ?p = "(c_rpdu c)\<lparr>cb_buf := Some ?b', cb_solong := int k + int (length bs)\<rparr>"
  have bytes: "map ?b' [0..<k + length bs] = take (k + length bs) pkt"
    using map_extend [OF b(2) assms(2,3)] .
  have rd: "readpdu (c_rpdu c) mem r1 (RdData bs) = Inr (True, ?p)"
    using h b(1) assms(2) by (simp add: readpdu_def read_data_def cong: if_cong)
  have lt: "cb_solong (c_rpdu c) < cb_sz (c_rpdu c)"
    using h assms(4) by simp
  show ?thesis
  proof (cases "k + length bs = length pkt")
    case True
    have eq: "int k + int (length bs) = int (length pkt)" using True by simp
    have "map ?b' [0..<length pkt] = pkt" using bytes True by simp
    moreover have "read_cb c mem r1 (RdData bs) True =
        Inr (c\<lparr>c_rpdu := ?p\<lparr>cb_buf := None, cb_sz := 0, cb_solong := 0\<rparr>, c_dead := False\<rparr>, Some ?b', int (length pkt))"
      using h rd lt eq by (simp add: read_cb_def Let_def)
    ultimately show ?thesis using True by (auto simp: idle_def)
  next
    case False
    then have "read_cb c mem r1 (RdData bs) True = Inr (c\<lparr>c_rpdu := ?p, c_dead := False\<rparr>, None, 0)"
      using h rd lt by (simp add: read_cb_def Let_def)
    moreover have "holding (c\<lparr>c_rpdu := ?p, c_dead := False\<rparr>) pkt (k + length bs)"
      using h bytes by (simp add: holding_def)
    ultimately show ?thesis using False by auto
  qed
qed

lemma recv_rest:
  assumes "holding c pkt k" "k < length pkt" "concat cs = drop k pkt" "\<forall>p\<in>set cs. p \<noteq> []"
  shows "\<exists>c'. recv c mem (map (\<lambda>p. (RdErr True, RdData p)) cs) = Inr (c', [pkt]) \<and> idle c'"
  using assms
proof (induction cs arbitrary: c k)
  case Nil
  then show ?case by simp
next
  case (Cons p cs)
  have len: "k + length p \<le> length pkt"
    using arg_cong [OF Cons.prems(3), of length] Cons.prems(2) by simp
  have p: "p = take (length p) (drop k pkt)" and rest: "concat cs = drop (k + length p) pkt"
    using Cons.prems(3) by (metis append_eq_conv_conj concat.simps(2), metis add.commute append_eq_conv_conj concat.simps(2) drop_drop)
  note piece = read_piece [OF Cons.prems(1) len p Cons.prems(2), of mem "RdErr True"]
  show ?case
  proof (cases "k + length p = length pkt")
    case True
    with piece obtain c' b where "read_cb c mem (RdErr True) (RdData p) True = Inr (c', Some b, int (length pkt))"
      "idle c'" "map b [0..<length pkt] = pkt"
      by auto
    moreover have "cs = []"
      using rest True Cons.prems(4) by (cases cs) auto
    ultimately show ?thesis by simp
  next
    case False
    with piece obtain c1 where "read_cb c mem (RdErr True) (RdData p) True = Inr (c1, None, 0)"
      and h: "holding c1 pkt (k + length p)"
      by auto
    moreover have "k + length p < length pkt" using False len by simp
    ultimately show ?thesis
      using Cons.IH [OF h _ rest] Cons.prems(4) by auto
  qed
qed

lemma read_size_framed:
  assumes "framed pkt" "cb_buf p = None"
  shows "read_size p mem (RdData (take 4 pkt)) =
    Inr (Some \<lparr>cb_buf = Some (\<lambda>k. if k < 4 then take 4 pkt ! k else mem k), cb_alloc = int (length pkt) + 4,
               cb_sz = int (length pkt), cb_solong = 4\<rparr>)"
proof -
  have len: "length (take 4 pkt) = 4" "take 4 pkt = be32 (of_nat (length pkt))"
    and n: "4 < length pkt" "int (length pkt) \<le> MAX_PDU"
    using assms(1) by (auto simp: framed_def)
  have "unat (of_nat (length pkt) :: u32) = length pkt"
    using n(2) by (intro unat_of_nat_u32) (simp add: MAX_PDU_def)
  then have "sint (of_nat (length pkt) :: u32) = int (length pkt)"
    using sint_small_u32 [of "of_nat (length pkt)"] n(2) by (simp add: MAX_PDU_def)
  then have "sint (of_be32_bytes (take 4 pkt)) = int (length pkt)"
    by (simp only: len(2) of_be32_bytes_be32)
  then show ?thesis
    using len(1) n assms(2) by (simp add: read_size_def Let_def cong: if_cong)
qed

lemma recv_packet:
  assumes "idle c" "framed pkt" "c0 @ concat cs = drop 4 pkt" "\<forall>p\<in>set cs. p \<noteq> []"
  shows "\<exists>c'. recv c mem (cut pkt c0 cs) = Inr (c', [pkt]) \<and> idle c'"
proof -
  let ?p = "\<lparr>cb_buf = Some (\<lambda>k. if k < 4 then take 4 pkt ! k else mem k), cb_alloc = int (length pkt) + 4,
    cb_sz = int (length pkt), cb_solong = 4\<rparr>"
  let ?c = "c\<lparr>c_rpdu := ?p\<rparr>"
  have n: "4 < length pkt" and id: "\<not> c_dead c" "cb_buf (c_rpdu c) = None" "cb_sz (c_rpdu c) = 0"
    using assms(1,2) by (auto simp: framed_def idle_def)
  have "map (\<lambda>k. if k < 4 then take 4 pkt ! k else mem k) [0..<4] = take 4 pkt"
    using n by (intro nth_equalityI) simp_all
  then have h: "holding ?c pkt 4"
    using id n by (auto simp: holding_def)
  have rs: "read_size (c_rpdu c) mem (RdData (take 4 pkt)) = Inr (Some ?p)"
    using read_size_framed [OF assms(2) id(2)] .
  have first: "read_cb c mem (RdData (take 4 pkt)) r2 True = read_cb ?c mem r1 r2 True" for r1 r2
  proof -
    have "pkt \<noteq> []" using n by auto
    then show ?thesis using id n rs by (simp add: read_cb_def readpdu_def)
  qed
  show ?thesis
  proof (cases "c0 = []")
    case True
    have "read_cb ?c mem (RdErr True) (RdErr True) True = Inr (?c\<lparr>c_dead := False\<rparr>, None, 0)"
      using id n by (auto simp: read_cb_def readpdu_def read_data_def Let_def)
    moreover have "holding (?c\<lparr>c_dead := False\<rparr>) pkt 4"
      using h by (simp add: holding_def)
    ultimately show ?thesis
      using recv_rest [of "?c\<lparr>c_dead := False\<rparr>" pkt 4 cs mem] assms(3,4) n True
      by (auto simp: cut_def first [of _ "RdErr True"])
  next
    case False
    have "concat (c0 # cs) = drop 4 pkt" "\<forall>p\<in>set (c0 # cs). p \<noteq> []"
      using assms(3,4) False by simp_all
    from recv_rest [OF h n this] show ?thesis
      using False by (simp add: cut_def first [of _ "RdErr True"])
  qed
qed

lemma recv_append:
  "recv c mem (rs @ qs) = bindE (recv c mem rs)
     (\<lambda>(c1, ps). bindE (recv c1 mem qs) (\<lambda>(c2, ps'). Inr (c2, ps @ ps')))"
proof (induction rs arbitrary: c)
  case (Cons r rs)
  show ?case
    by (cases r) (auto simp: Cons bindE_def split: sum.splits prod.splits option.splits)
qed (auto simp: bindE_def split: sum.splits)

lemma recv_stream:
  assumes "idle c" "\<forall>(pkt, c0, cs)\<in>set ps. framed pkt \<and> c0 @ concat cs = drop 4 pkt \<and> (\<forall>p\<in>set cs. p \<noteq> [])"
  shows "\<exists>c'. recv c mem (concat (map (\<lambda>(pkt, c0, cs). cut pkt c0 cs) ps)) = Inr (c', map fst ps) \<and> idle c'"
  using assms
proof (induction ps arbitrary: c)
  case (Cons x ps)
  obtain pkt c0 cs where x: "x = (pkt, c0, cs)" by (cases x)
  obtain c1 where "recv c mem (cut pkt c0 cs) = Inr (c1, [pkt])" "idle c1"
    using recv_packet [OF Cons.prems(1), of pkt c0 cs mem] Cons.prems(2) by (auto simp: x)
  with Cons.IH [of c1] Cons.prems(2) show ?case by (auto simp: x recv_append)
qed simp

section \<open>A packet leaves whole\<close>

fun xmit :: "connection \<Rightarrow> wr list \<Rightarrow> (connection \<times> byte list) res" where
  "xmit c [] = Inr (c, [])"
| "xmit c (r # rs) =
     bindE (write_cb c r) (\<lambda>(c1, out). bindE (xmit c1 rs) (\<lambda>(c2, out'). Inr (c2, out @ out')))"

text \<open>Results of \<open>write\<close> on a connection that does not break, and the bytes they took.\<close>

fun wr_ok :: "wr \<Rightarrow> bool" where
  "wr_ok (Wrote n) \<longleftrightarrow> True"
| "wr_ok (WrErr again) \<longleftrightarrow> again"

fun wr_count :: "wr \<Rightarrow> nat" where
  "wr_count (Wrote n) = n"
| "wr_count (WrErr _) = 0"

definition sending :: "connection \<Rightarrow> byte list \<Rightarrow> nat \<Rightarrow> bool" where
  "sending c pkt k \<longleftrightarrow> \<not> c_dead c \<and> cb_sz (c_wpdu c) = int (length pkt) \<and> cb_solong (c_wpdu c) = int k \<and>
     cb_alloc (c_wpdu c) = int (length pkt) \<and> k \<le> length pkt \<and>
     (\<exists>b. cb_buf (c_wpdu c) = Some b \<and> map b [0..<length pkt] = pkt)"

lemma map_slice: "map b [0..<n] = pkt \<Longrightarrow> k + m \<le> n \<Longrightarrow> map b [k..<k + m] = take m (drop k pkt)"
  by (auto simp: take_map drop_map)

lemma fill_header:
  assumes "map b [0..<length pkt] = pkt" "4 \<le> length pkt" "take 4 pkt = be32 h"
  shows "map (\<lambda>k. if k < 4 then be32 h ! k else b k) [0..<length pkt] = pkt"
proof (rule nth_equalityI)
  fix i assume "i < length (map (\<lambda>k. if k < 4 then be32 h ! k else b k) [0..<length pkt])"
  then have i: "i < length pkt" by simp
  have "pkt ! i = b i" using arg_cong [OF assms(1), of "\<lambda>l. l ! i"] i by simp
  moreover have "pkt ! i = be32 h ! i" if "i < 4"
    using arg_cong [OF assms(3), of "\<lambda>l. l ! i"] that i by simp
  ultimately show "map (\<lambda>k. if k < 4 then be32 h ! k else b k) [0..<length pkt] ! i = pkt ! i"
    using i by simp
qed simp

lemma write_piece:
  assumes "sending c pkt k" "framed pkt" "wr_ok r" "k + wr_count r \<le> length pkt"
  shows "\<exists>c'. write_cb c r = Inr (c', take (wr_count r) (drop k pkt)) \<and> sending c' pkt (k + wr_count r)"
proof -
  obtain b where b: "cb_buf (c_wpdu c) = Some b" "map b [0..<length pkt] = pkt"
    and s: "\<not> c_dead c" "cb_sz (c_wpdu c) = int (length pkt)" "cb_solong (c_wpdu c) = int k"
      "cb_alloc (c_wpdu c) = int (length pkt)"
    using assms(1) by (auto simp: sending_def)
  have n: "4 < length pkt" "take 4 pkt = be32 (of_nat (length pkt))"
    using assms(2) by (auto simp: framed_def)
  define b' where "b' = (if k = 0 then (\<lambda>i. if i < 4 then be32 (of_nat (length pkt)) ! i else b i) else b)"
  have b': "map b' [0..<length pkt] = pkt"
    using fill_header [OF b(2) _ n(2)] n(1) b(2) by (auto simp: b'_def)
  show ?thesis
  proof (cases "k = length pkt")
    case True
    then have "wr_count r = 0" using assms(4) by simp
    with True show ?thesis
      using s n assms(1) by (auto simp: write_cb_def writepdu_def sending_def)
  next
    case False
    let ?w = "(c_wpdu c)\<lparr>cb_buf := Some b'\<rparr>"
    have "writepdu (c_wpdu c) r =
        Inr (True, ?w\<lparr>cb_solong := int (k + wr_count r)\<rparr>, take (wr_count r) (drop k pkt))"
      using s b(1) n(1) False assms(3) map_slice [OF b' assms(4)]
      by (cases r) (auto simp: writepdu_def b'_def Let_def cong: if_cong)
    moreover have "sending (c\<lparr>c_wpdu := ?w\<lparr>cb_solong := int (k + wr_count r)\<rparr>\<rparr>) pkt (k + wr_count r)"
      using s b' assms(4) by (auto simp: sending_def)
    ultimately show ?thesis
      using s n(1) by (auto simp: write_cb_def)
  qed
qed

lemma xmit_ok:
  assumes "sending c pkt k" "framed pkt" "\<forall>r\<in>set rs. wr_ok r" "k + sum_list (map wr_count rs) \<le> length pkt"
  shows "\<exists>c'. xmit c rs = Inr (c', take (sum_list (map wr_count rs)) (drop k pkt)) \<and>
    sending c' pkt (k + sum_list (map wr_count rs))"
  using assms
proof (induction rs arbitrary: c k)
  case (Cons r rs)
  obtain c1 where 1: "write_cb c r = Inr (c1, take (wr_count r) (drop k pkt))" "sending c1 pkt (k + wr_count r)"
    using write_piece [OF Cons.prems(1,2), of r] Cons.prems(3,4) by auto
  obtain c2 where 2: "xmit c1 rs = Inr (c2, take (sum_list (map wr_count rs)) (drop (k + wr_count r) pkt))"
    "sending c2 pkt (k + wr_count r + sum_list (map wr_count rs))"
    using Cons.IH [OF 1(2) Cons.prems(2)] Cons.prems(3,4) by auto
  show ?case
    using 1 2 by (simp add: take_add add.assoc) (simp add: add.commute)
qed simp

lemma send_start_write:
  assumes "\<not> c_dead c" "4 < n" "h = be32 (of_nat n)" "wr_ok r"
    "c' = c\<lparr>c_wpdu := \<lparr>cb_buf = Some (\<lambda>k. if k < 4 then h ! k else b k), cb_alloc = int n, cb_sz = int n,
              cb_solong = 0\<rparr>\<rparr>"
    "write_cb c' r = Inr (c1, out)"
  shows "send_start c b (int n) r = Inr (c1, out)"
proof -
  let ?w = "\<lparr>cb_buf = Some b, cb_alloc = int n, cb_sz = int n, cb_solong = 0\<rparr>"
  have "writepdu ?w r = writepdu (c_wpdu c') r"
    using assms(2,3,5) by (cases r) (simp_all add: writepdu_def Let_def cong: if_cong)
  moreover obtain w out where "writepdu (c_wpdu c') r = Inr (True, w, out)"
    using assms(2,4,5) by (cases r) (auto simp: writepdu_def Let_def)
  ultimately show ?thesis
    using assms by (auto simp: send_start_def write_cb_def bindE_def VERIFY_def split: if_splits)
qed

lemma transmit_ok:
  assumes dead: "\<not> c_dead c" and n: "n = length pkt" "4 < n" "int n \<le> MAX_PDU" and b: "map b [0..<n] = pkt"
    and rs: "\<forall>r\<in>set (r0 # rs). wr_ok r" "sum_list (map wr_count (r0 # rs)) = n"
  shows "\<exists>c1 c2 out1 out2. send_start c b (int n) r0 = Inr (c1, out1) \<and> xmit c1 rs = Inr (c2, out2) \<and>
    out1 @ out2 = be32 (of_nat n) @ drop 4 pkt \<and> fst (send_finish c2)"
proof -
  define h where "h = be32 (of_nat n)"
  define pkt' where "pkt' = h @ drop 4 pkt"
  let ?c = "c\<lparr>c_wpdu := \<lparr>cb_buf = Some (\<lambda>k. if k < 4 then h ! k else b k), cb_alloc = int n, cb_sz = int n,
              cb_solong = 0\<rparr>\<rparr>"
  have len: "length pkt' = n" using n by (simp add: pkt'_def h_def)
  have "map (\<lambda>k. if k < 4 then h ! k else b k) [0..<n] = pkt'"
  proof (rule nth_equalityI)
    fix i assume "i < length (map (\<lambda>k. if k < 4 then h ! k else b k) [0..<n])"
    then have i: "i < n" by simp
    have "pkt ! i = b i" using arg_cong [OF b, of "\<lambda>l. l ! i"] i by simp
    then show "map (\<lambda>k. if k < 4 then h ! k else b k) [0..<n] ! i = pkt' ! i"
      using i n by (auto simp: pkt'_def h_def nth_append)
  qed (simp add: len)
  then have s: "sending ?c pkt' 0" using dead len by (simp add: sending_def)
  have fr: "framed pkt'" using n len by (simp add: framed_def) (simp add: pkt'_def h_def)
  obtain c1 where 1: "write_cb ?c r0 = Inr (c1, take (wr_count r0) (drop 0 pkt'))" "sending c1 pkt' (0 + wr_count r0)"
    using write_piece [OF s fr, of r0] rs len by auto
  obtain c2 where 2: "xmit c1 rs = Inr (c2, take (sum_list (map wr_count rs)) (drop (wr_count r0) pkt'))"
    "sending c2 pkt' (wr_count r0 + sum_list (map wr_count rs))"
    using xmit_ok [OF _ fr, of c1 "wr_count r0" rs] 1(2) rs len by auto
  have "send_start c b (int n) r0 = Inr (c1, take (wr_count r0) (drop 0 pkt'))"
    using send_start_write [OF dead n(2) h_def _ refl 1(1)] rs(1) by simp
  moreover have "take (wr_count r0) (drop 0 pkt') @ take (sum_list (map wr_count rs)) (drop (wr_count r0) pkt') = pkt'"
    using rs(2) len by (simp flip: take_add)
  moreover have "fst (send_finish c2)"
    using 2(2) rs(2) len by (simp add: send_finish_def sending_def)
  ultimately show ?thesis
    using 2(1) by (auto simp: pkt'_def h_def)
qed

end
