(* ===== verification/Reply_Window.thy ===== *)
theory Reply_Window
  imports Prelude
begin

text \<open>
  The server's reply window (\<open>rpcs::checkduplicate_and_update\<close>, \<open>add_reply\<close>, \<open>free_reply_window\<close>): per
  client the requests seen and the replies to those that are answered, from which duplicates are
  recognised. The contract of such a filter is the locale \<open>request_filter\<close>; its main lemma says that a
  request is admitted at most once, whatever the order of arrivals and answers.
\<close>

section \<open>The code\<close>

record reply_t =
  r_xid :: u32
  cb_present :: bool
  r_buf :: "byte list"

datatype rpcstate = NEW | INPROGRESS | DONE "byte list" | FORGOTTEN

type_synonym reply_window = "u32 \<rightharpoonup> reply_t list"

text \<open>The loop that inserts before the first greater number, or at the end.\<close>

fun insert_reply :: "reply_t \<Rightarrow> reply_t list \<Rightarrow> reply_t list" where
  "insert_reply r [] = [r]"
| "insert_reply r (x # xs) = (if r_xid x > r_xid r then r # x # xs else x # insert_reply r xs)"

definition check_list :: "u32 \<Rightarrow> u32 \<Rightarrow> reply_t list \<Rightarrow> rpcstate \<times> reply_t list" where
  "check_list xid xid_rep rlist =
     (case List.find (\<lambda>r. r_xid r = xid) rlist of
        Some r \<Rightarrow> (if cb_present r then DONE (r_buf r) else INPROGRESS, rlist)
      | None \<Rightarrow>
          if rlist \<noteq> [] \<and> xid < r_xid (hd rlist) then (FORGOTTEN, rlist)
          else (NEW, dropWhile (\<lambda>r. \<not> r_xid r \<ge> xid_rep)
                       (insert_reply \<lparr>r_xid = xid, cb_present = False, r_buf = []\<rparr> rlist)))"

text \<open>\<open>reply_window_[clt_nonce]\<close> creates an empty list for an unknown client.\<close>

definition window_of :: "reply_window \<Rightarrow> u32 \<Rightarrow> reply_t list" where
  "window_of w clt = (case w clt of None \<Rightarrow> [] | Some l \<Rightarrow> l)"

definition checkduplicate_and_update ::
  "reply_window \<Rightarrow> u32 \<Rightarrow> u32 \<Rightarrow> u32 \<Rightarrow> rpcstate \<times> reply_window" where
  "checkduplicate_and_update w clt_nonce xid xid_rep =
     (case check_list xid xid_rep (window_of w clt_nonce) of (st, l) \<Rightarrow> (st, w(clt_nonce \<mapsto> l)))"

definition add_reply :: "reply_window \<Rightarrow> u32 \<Rightarrow> u32 \<Rightarrow> byte list \<Rightarrow> reply_window" where
  "add_reply w clt_nonce xid b =
     w(clt_nonce \<mapsto>
       map (\<lambda>r. if r_xid r = xid then r\<lparr>r_buf := b, cb_present := True\<rparr> else r) (window_of w clt_nonce))"

definition free_reply_window :: "reply_window \<Rightarrow> reply_window" where
  "free_reply_window w = Map.empty"

section \<open>The invariant of a client's list\<close>

text \<open>\<open>S\<close> is the set of request numbers that were admitted as new: each is still in the list or smaller than
  its front.\<close>

definition list_inv :: "u32 set \<Rightarrow> reply_t list \<Rightarrow> bool" where
  "list_inv S l \<longleftrightarrow> sorted_wrt (<) (map r_xid l) \<and> r_xid ` set l \<subseteq> S \<and>
     (\<forall>x\<in>S. x \<in> r_xid ` set l \<or> (l \<noteq> [] \<and> x < r_xid (hd l)))"

lemma list_inv_Nil: "list_inv {} []"
  by (simp add: list_inv_def)

lemma set_insert_reply [simp]: "set (insert_reply r l) = insert r (set l)"
  by (induction l) auto

lemma sorted_insert_reply:
  "sorted_wrt (<) (map r_xid l) \<Longrightarrow> r_xid r \<notin> r_xid ` set l \<Longrightarrow> sorted_wrt (<) (map r_xid (insert_reply r l))"
  by (induction l) auto

lemma drop_old:
  "sorted_wrt (<) (map r_xid l) \<Longrightarrow> dropWhile (\<lambda>r. \<not> r_xid r \<ge> k) l = filter (\<lambda>r. r_xid r \<ge> k) l"
proof (induction l)
  case (Cons r l)
  show ?case
  proof (cases "r_xid r \<ge> k")
    case True
    with Cons.prems have "filter (\<lambda>r. r_xid r \<ge> k) l = l"
      by (auto simp: filter_id_conv)
    with True show ?thesis by simp
  qed (use Cons in simp)
qed simp

lemma hd_le:
  assumes "sorted_wrt (<) (map r_xid l)" "r \<in> set l"
  shows "r_xid (hd l) \<le> r_xid r"
  using assms by (cases l) (auto simp: order.strict_implies_order)

lemma check_new:
  assumes inv: "list_inv S l" and new: "check_list xid xid_rep l = (NEW, l')" and rep: "xid_rep \<le> xid"
  shows "xid \<notin> S" "list_inv (insert xid S) l'" "\<exists>r\<in>set l'. r_xid r = xid \<and> \<not> cb_present r"
    "\<forall>r\<in>set l. xid_rep \<le> r_xid r \<longrightarrow> r \<in> set l'"
    "l' \<noteq> []" "xid_rep \<le> r_xid (hd l')" "l \<noteq> [] \<longrightarrow> r_xid (hd l) \<le> r_xid (hd l')"
proof -
  let ?r = "\<lparr>r_xid = xid, cb_present = False, r_buf = []\<rparr>"
  define l1 where "l1 = insert_reply ?r l"
  from new have find: "List.find (\<lambda>r. r_xid r = xid) l = None" and old: "\<not> (l \<noteq> [] \<and> xid < r_xid (hd l))"
    and l': "l' = dropWhile (\<lambda>r. \<not> r_xid r \<ge> xid_rep) l1"
    by (auto simp: check_list_def l1_def split: option.splits if_splits)
  have nin: "xid \<notin> r_xid ` set l"
    using find by (auto simp: find_None_iff)
  have s: "sorted_wrt (<) (map r_xid l)" "r_xid ` set l \<subseteq> S"
    "\<forall>x\<in>S. x \<in> r_xid ` set l \<or> (l \<noteq> [] \<and> x < r_xid (hd l))"
    using inv by (simp_all add: list_inv_def)
  show "xid \<notin> S" using s(3) nin old by auto
  have s1: "sorted_wrt (<) (map r_xid l1)"
    unfolding l1_def using s(1) nin by (intro sorted_insert_reply) simp_all
  have f: "l' = filter (\<lambda>r. r_xid r \<ge> xid_rep) l1"
    using drop_old [OF s1, of xid_rep] l' by simp
  have set': "set l' = {r \<in> insert ?r (set l). xid_rep \<le> r_xid r}"
    by (auto simp: f l1_def)
  then show "\<exists>r\<in>set l'. r_xid r = xid \<and> \<not> cb_present r"
    using rep by (intro bexI [of _ ?r]) simp_all
  show "\<forall>r\<in>set l. xid_rep \<le> r_xid r \<longrightarrow> r \<in> set l'"
    using set' by auto
  have ne: "l' \<noteq> []" "?r \<in> set l'" using set' rep by auto
  have s': "sorted_wrt (<) (map r_xid l')"
    using s1 by (simp add: f sorted_wrt_map sorted_wrt_filter)
  have hd': "hd l' \<in> set l1" "xid_rep \<le> r_xid (hd l')"
    using ne(1) hd_in_set [of l'] by (auto simp: f)
  have front: "r_xid (hd l) \<le> r_xid (hd l')" if "l \<noteq> []"
  proof -
    have "hd l' = ?r \<or> hd l' \<in> set l" using hd'(1) by (auto simp: l1_def)
    then show ?thesis using old that hd_le [OF s(1)] by auto
  qed
  show "l' \<noteq> []" "xid_rep \<le> r_xid (hd l')" "l \<noteq> [] \<longrightarrow> r_xid (hd l) \<le> r_xid (hd l')"
    using ne(1) hd'(2) front by simp_all
  have "x \<in> r_xid ` set l' \<or> x < r_xid (hd l')" if x: "x \<in> insert xid S" for x
  proof -
    consider "x = xid" | "x \<in> r_xid ` set l" | "l \<noteq> []" "x < r_xid (hd l)"
      using x s(3) by auto
    then show ?thesis
    proof cases
      case 1 then show ?thesis using ne(2) by force
    next
      case 2 then show ?thesis using set' hd'(2) by (cases "xid_rep \<le> x") auto
    next
      case 3 then show ?thesis using front by auto
    qed
  qed
  moreover have "r_xid ` set l' \<subseteq> insert xid S" using set' s(2) by auto
  ultimately show "list_inv (insert xid S) l'"
    using s' ne(1) by (simp add: list_inv_def)
qed

lemma check_other:
  "check_list xid xid_rep l = (st, l') \<Longrightarrow> st \<noteq> NEW \<Longrightarrow> l' = l"
  by (auto simp: check_list_def split: option.splits if_splits)

lemma check_fresh:
  assumes "list_inv S l" "xid \<notin> S" "l = [] \<or> r_xid (hd l) \<le> xid"
  shows "fst (check_list xid xid_rep l) = NEW"
proof -
  have "List.find (\<lambda>r. r_xid r = xid) l = None"
    using assms by (auto simp: find_None_iff list_inv_def)
  then show ?thesis using assms(3) by (auto simp: check_list_def)
qed

lemma check_done:
  assumes "sorted_wrt (<) (map r_xid l)" "r \<in> set l"
  shows "fst (check_list (r_xid r) xid_rep l) = (if cb_present r then DONE (r_buf r) else INPROGRESS)"
proof -
  have "\<exists>r'. List.find (\<lambda>q. r_xid q = r_xid r) l = Some r'"
    using assms(2) by (cases "List.find (\<lambda>q. r_xid q = r_xid r) l") (auto simp: find_None_iff)
  then obtain r' where f: "List.find (\<lambda>q. r_xid q = r_xid r) l = Some r'" by blast
  then have "r' \<in> set l" "r_xid r' = r_xid r"
    by (auto simp: find_Some_iff)
  moreover have "distinct (map r_xid l)"
    using assms(1) by (simp add: strict_sorted_iff)
  ultimately have "r' = r"
    using assms(2) by (auto simp: distinct_map inj_on_def)
  then show ?thesis using f by (simp add: check_list_def)
qed

section \<open>The contract of a request filter\<close>

text \<open>What happens at the server, in the order in which the lock is taken: a request arrives (client, number,
  \<open>xid_rep\<close>), or the answer to one is recorded.\<close>

datatype event = Arrive u32 u32 u32 | Answer u32 u32 "byte list"

text \<open>The requests admitted as new, in order.\<close>

fun admit :: "('w \<Rightarrow> u32 \<Rightarrow> u32 \<Rightarrow> u32 \<Rightarrow> rpcstate \<times> 'w) \<Rightarrow> ('w \<Rightarrow> u32 \<Rightarrow> u32 \<Rightarrow> byte list \<Rightarrow> 'w) \<Rightarrow>
    'w \<Rightarrow> event list \<Rightarrow> (u32 \<times> u32) list \<times> 'w" where
  "admit check answer w [] = ([], w)"
| "admit check answer w (Arrive c x k # es) =
     (case check w c x k of (st, w1) \<Rightarrow>
        case admit check answer w1 es of (xs, w2) \<Rightarrow> (if st = NEW then (c, x) # xs else xs, w2))"
| "admit check answer w (Answer c x b # es) = admit check answer (answer w c x b) es"

text \<open>A client never claims to have the reply to a request it is only sending.\<close>

fun honest :: "event \<Rightarrow> bool" where
  "honest (Arrive c x k) \<longleftrightarrow> k \<le> x"
| "honest (Answer c x b) \<longleftrightarrow> True"

locale request_filter =
  fixes inv :: "(u32 \<times> u32) set \<Rightarrow> 'w \<Rightarrow> bool"
    and check :: "'w \<Rightarrow> u32 \<Rightarrow> u32 \<Rightarrow> u32 \<Rightarrow> rpcstate \<times> 'w"
    and answer :: "'w \<Rightarrow> u32 \<Rightarrow> u32 \<Rightarrow> byte list \<Rightarrow> 'w"
  assumes admit_new: "\<lbrakk>inv A w; check w c x k = (NEW, w'); k \<le> x\<rbrakk> \<Longrightarrow>
      (c, x) \<notin> A \<and> inv (insert (c, x) A) w'"
    and keep_other: "\<lbrakk>inv A w; check w c x k = (st, w'); st \<noteq> NEW\<rbrakk> \<Longrightarrow> inv A w'"
    and keep_answer: "inv A w \<Longrightarrow> inv A (answer w c x b)"
begin

lemma admit_once:
  assumes "inv A w" "\<forall>e\<in>set es. honest e"
  shows "distinct (fst (admit check answer w es)) \<and> set (fst (admit check answer w es)) \<inter> A = {} \<and>
    inv (A \<union> set (fst (admit check answer w es))) (snd (admit check answer w es))"
  using assms
proof (induction es arbitrary: A w)
  case (Cons e es)
  show ?case
  proof (cases e)
    case (Arrive c x k)
    obtain st w1 where ch: "check w c x k = (st, w1)" by (cases "check w c x k")
    define A' where "A' = (if st = NEW then insert (c, x) A else A)"
    have "inv A' w1" and fresh: "st = NEW \<Longrightarrow> (c, x) \<notin> A"
      using admit_new [OF Cons.prems(1), of c x k w1] keep_other [OF Cons.prems(1) ch] ch Cons.prems(2) Arrive
      by (auto simp: A'_def)
    from Cons.IH [OF this(1)] Cons.prems(2) fresh show ?thesis
      by (auto simp: Arrive ch A'_def split: prod.splits if_splits)
  next
    case (Answer c x b)
    with Cons.IH [OF keep_answer [OF Cons.prems(1), of c x b]] Cons.prems(2) show ?thesis by simp
  qed
qed simp

end

section \<open>The reply window is one\<close>

definition win_inv :: "(u32 \<times> u32) set \<Rightarrow> reply_window \<Rightarrow> bool" where
  "win_inv A w \<longleftrightarrow> (\<forall>c. list_inv {x. (c, x) \<in> A} (window_of w c))"

lemma win_inv_empty: "win_inv {} Map.empty"
  by (simp add: win_inv_def window_of_def list_inv_Nil)

lemma window_of_upd [simp]: "window_of (w(c \<mapsto> l)) c' = (if c' = c then l else window_of w c')"
  by (simp add: window_of_def)

lemma list_inv_answer:
  "list_inv S l \<Longrightarrow> list_inv S (map (\<lambda>r. if r_xid r = xid then r\<lparr>r_buf := b, cb_present := True\<rparr> else r) l)"
proof -
  assume inv: "list_inv S l"
  define l2 where "l2 = map (\<lambda>r. if r_xid r = xid then r\<lparr>r_buf := b, cb_present := True\<rparr> else r) l"
  have m: "map r_xid l2 = map r_xid l" by (simp add: l2_def)
  have img: "r_xid ` set l2 = r_xid ` set l" using arg_cong [OF m, of set] by simp
  have nil: "l2 = [] \<longleftrightarrow> l = []" by (simp add: l2_def)
  have hd: "l \<noteq> [] \<Longrightarrow> r_xid (hd l2) = r_xid (hd l)" by (cases l) (simp_all add: l2_def)
  have "list_inv S l2"
    using inv hd unfolding list_inv_def m img nil by auto
  then show "list_inv S (map (\<lambda>r. if r_xid r = xid then r\<lparr>r_buf := b, cb_present := True\<rparr> else r) l)"
    by (simp only: l2_def)
qed

interpretation rw: request_filter win_inv checkduplicate_and_update add_reply
proof (unfold_locales, goal_cases)
  case (1 A w c x k w')
  then obtain l' where l: "check_list x k (window_of w c) = (NEW, l')" "w' = w(c \<mapsto> l')"
    by (auto simp: checkduplicate_and_update_def split: prod.splits)
  have "list_inv {x. (c, x) \<in> A} (window_of w c)" using 1(1) by (simp add: win_inv_def)
  from check_new [OF this l(1) 1(3)] have "(c, x) \<notin> A" "list_inv (insert x {x. (c, x) \<in> A}) l'" by auto
  moreover have "{y. (c, y) \<in> insert (c, x) A} = insert x {x. (c, x) \<in> A}" by auto
  ultimately show ?case using 1(1) l(2) by (auto simp: win_inv_def)
next
  case (2 A w c x k st w')
  then show ?case
    by (auto simp: checkduplicate_and_update_def win_inv_def dest: check_other split: prod.splits)
next
  case (3 A w c x b)
  then show ?case by (auto simp: win_inv_def add_reply_def list_inv_answer)
qed

section \<open>What the window has dropped\<close>

text \<open>No request of client \<open>clt\<close> with a number below \<open>n\<close> is remembered any more.\<close>

definition front_at :: "int \<Rightarrow> u32 \<Rightarrow> reply_window \<Rightarrow> bool" where
  "front_at n clt win \<longleftrightarrow> (0 < n \<longrightarrow> window_of win clt \<noteq> [] \<and> n \<le> uint (r_xid (hd (window_of win clt))))"

lemma front_new:
  assumes "win_inv A win" "checkduplicate_and_update win clt xid rep = (NEW, win')" "rep \<le> xid"
  shows "front_at (uint rep) clt win'" "front_at n clt win \<Longrightarrow> front_at n clt win'"
proof -
  obtain l' where l: "check_list xid rep (window_of win clt) = (NEW, l')" "win' = win(clt \<mapsto> l')"
    using assms(2) by (auto simp: checkduplicate_and_update_def split: prod.splits)
  have inv: "list_inv {x. (clt, x) \<in> A} (window_of win clt)" using assms(1) by (simp add: win_inv_def)
  note new = check_new(5-7) [OF inv l(1) assms(3)]
  then show "front_at (uint rep) clt win'" by (simp add: front_at_def l(2) word_le_def)
  show "front_at n clt win'" if "front_at n clt win" using that new by (auto simp: front_at_def l(2) word_le_def)
qed

lemma front_answer [simp]: "front_at n clt (add_reply win clt xid b) = front_at n clt win"
  by (cases "window_of win clt") (simp_all add: front_at_def add_reply_def)

lemma front_forgotten:
  assumes "win_inv A win" "front_at n clt win" "uint xid < n"
  shows "checkduplicate_and_update win clt xid rep = (FORGOTTEN, win)"
proof -
  let ?l = "window_of win clt"
  have "0 < n" using assms(3) uint_ge_0 [of xid] by linarith
  then have l: "?l \<noteq> []" "n \<le> uint (r_xid (hd ?l))" using assms(2) by (simp_all add: front_at_def)
  then have old: "xid < r_xid (hd ?l)" using assms(3) by (simp add: word_less_def)
  have "sorted_wrt (<) (map r_xid ?l)" using assms(1) by (simp add: win_inv_def list_inv_def)
  then have "r_xid r \<noteq> xid" if "r \<in> set ?l" for r using hd_le that old by fastforce
  then have "List.find (\<lambda>r. r_xid r = xid) ?l = None" by (simp add: find_None_iff)
  then have chk: "check_list xid rep ?l = (FORGOTTEN, ?l)" using l(1) old by (simp add: check_list_def)
  have "win(clt \<mapsto> ?l) = win" using l(1) by (intro map_upd_triv) (auto simp: window_of_def split: option.splits)
  then show ?thesis by (simp add: checkduplicate_and_update_def chk)
qed

end
