(* ===== verification/Rpc_Packet.thy ===== *)
theory Rpc_Packet
  imports Connection Reply_Window
begin

text \<open>
  What a packet carries: its header words behind the four bytes left for the size, then the marshalled
  values. The predicates are about the bytes only, so they survive the trip through a connection, which
  fills in the size. Constants of \<open>rpc_const\<close> (\<open>rpc/rpc.h\<close>).
\<close>

section \<open>rpc\_const\<close>

definition RPC_BIND :: u32 where "RPC_BIND = 1"
definition timeout_failure :: int where "timeout_failure = -1"
definition unmarshal_args_failure :: int where "unmarshal_args_failure = -2"
definition unmarshal_reply_failure :: int where "unmarshal_reply_failure = -3"
definition atmostonce_failure :: int where "atmostonce_failure = -4"
definition oldsrv_failure :: int where "oldsrv_failure = -5"
definition bind_failure :: int where "bind_failure = -6"
definition cancel_failure :: int where "cancel_failure = -7"

lemmas rpc_const_defs = RPC_BIND_def timeout_failure_def unmarshal_args_failure_def unmarshal_reply_failure_def
  atmostonce_failure_def oldsrv_failure_def bind_failure_def cancel_failure_def

section \<open>Contents of a packet\<close>

definition req_words :: "req_header \<Rightarrow> u32 list" where
  "req_words h = [rq_xid h, rq_proc h, rq_clt_nonce h, rq_srv_nonce h, rq_xid_rep h]"

definition reply_words :: "reply_header \<Rightarrow> u32 list" where
  "reply_words h = [rp_xid h, rp_ret h]"

definition carries :: "(nat \<Rightarrow> byte) \<Rightarrow> int \<Rightarrow> u32 list \<Rightarrow> byte list \<Rightarrow> bool" where
  "carries b sz ws body \<longleftrightarrow>
     sz = RPC_HEADER_SZ + int (length body) \<and> sz < 2 ^ 31 \<and> length ws \<le> 5 \<and>
     map b [4..<4 + 4 * length ws] = concat (map be32 ws) \<and>
     map b [nat RPC_HEADER_SZ..<nat RPC_HEADER_SZ + length body] = body"

definition carries_request :: "(nat \<Rightarrow> byte) \<Rightarrow> int \<Rightarrow> req_header \<Rightarrow> byte list \<Rightarrow> bool" where
  "carries_request b sz h args \<longleftrightarrow> carries b sz (req_words h) args"

definition carries_reply :: "(nat \<Rightarrow> byte) \<Rightarrow> int \<Rightarrow> reply_header \<Rightarrow> byte list \<Rightarrow> bool" where
  "carries_reply b sz h res \<longleftrightarrow> carries b sz (reply_words h) res"

lemma content_length: "m_inv m \<Longrightarrow> m_ind m = RPC_HEADER_SZ + int (length (get_content m))"
  by (auto simp: m_inv_def get_content_def rpc_sizes)

lemma content_bytes:
  assumes "m_inv m" "m_buf m = Some b"
  shows "map b [nat RPC_HEADER_SZ..<nat RPC_HEADER_SZ + length (get_content m)] = get_content m"
proof -
  have "nat RPC_HEADER_SZ + length (get_content m) = nat (m_ind m)"
    using content_length [OF assms(1)] by (simp add: rpc_sizes)
  then show ?thesis using assms(2) by (simp add: get_content_def)
qed

lemma pack_carries:
  assumes inv: "m_inv m" and max: "m_ind m < 2 ^ 31" and n: "length ws \<le> 5"
  obtains m' b where "m_pack_seq (m\<lparr>m_ind := sizeof_rpc_sz\<rparr>) ws = Inr m'" "m_buf m' = Some b"
    "m_inv (m'\<lparr>m_ind := m_ind m\<rparr>)" "get_content (m'\<lparr>m_ind := m_ind m\<rparr>) = get_content m"
    "carries b (m_ind m) ws (get_content m)"
proof -
  obtain m' b where m': "m_pack_seq (m\<lparr>m_ind := sizeof_rpc_sz\<rparr>) ws = Inr m'" "m_buf m' = Some b"
    "m_inv (m'\<lparr>m_ind := m_ind m\<rparr>)" "get_content (m'\<lparr>m_ind := m_ind m\<rparr>) = get_content m"
    "map b [4..<4 + 4 * length ws] = concat (map be32 ws)"
    by (rule pack_words [OF inv n]) (rule that)
  have "carries b (m_ind m) ws (get_content m)"
    using m'(2-5) max n content_length [OF inv] content_bytes [OF m'(3), of b] by (simp add: carries_def)
  with m' show ?thesis by (intro that [of m' b]) simp_all
qed

lemma pack_req_carries:
  assumes "m_inv m" "m_ind m < 2 ^ 31"
  obtains m' b where "pack_req_header m h = Inr m'" "m_buf m' = Some b" "m_inv m'" "m_ind m' = m_ind m"
    "get_content m' = get_content m" "carries_request b (m_ind m') h (get_content m)"
proof -
  have "length (req_words h) \<le> 5" by (simp add: req_words_def)
  from pack_carries [OF assms this] obtain m1 b where
    "m_pack_seq (m\<lparr>m_ind := sizeof_rpc_sz\<rparr>) (req_words h) = Inr m1" "m_buf m1 = Some b"
    "m_inv (m1\<lparr>m_ind := m_ind m\<rparr>)" "get_content (m1\<lparr>m_ind := m_ind m\<rparr>) = get_content m"
    "carries b (m_ind m) (req_words h) (get_content m)"
    by blast
  then show ?thesis
    by (intro that [of "m1\<lparr>m_ind := m_ind m\<rparr>" b])
       (simp_all add: pack_req_header_def req_words_def carries_request_def)
qed

lemma pack_reply_carries:
  assumes "m_inv m" "m_ind m < 2 ^ 31"
  obtains m' b where "pack_reply_header m h = Inr m'" "m_buf m' = Some b" "m_inv m'" "m_ind m' = m_ind m"
    "get_content m' = get_content m" "carries_reply b (m_ind m') h (get_content m)"
proof -
  have "length (reply_words h) \<le> 5" by (simp add: reply_words_def)
  from pack_carries [OF assms this] obtain m1 b where
    "m_pack_seq (m\<lparr>m_ind := sizeof_rpc_sz\<rparr>) (reply_words h) = Inr m1" "m_buf m1 = Some b"
    "m_inv (m1\<lparr>m_ind := m_ind m\<rparr>)" "get_content (m1\<lparr>m_ind := m_ind m\<rparr>) = get_content m"
    "carries b (m_ind m) (reply_words h) (get_content m)"
    by blast
  then show ?thesis
    by (intro that [of "m1\<lparr>m_ind := m_ind m\<rparr>" b])
       (simp_all add: pack_reply_header_def reply_words_def carries_reply_def)
qed

lemma carries_read:
  assumes "carries b sz ws body"
  obtains u' where "get_all (length ws) get_u32 ((unmarshall_new b sz)\<lparr>u_ind := sizeof_rpc_sz\<rparr>) [] = Inr (ws, u')"
    "u_inv (u'\<lparr>u_ind := RPC_HEADER_SZ\<rparr>)" "u_ok u'" "u_rest (u'\<lparr>u_ind := RPC_HEADER_SZ\<rparr>) = body"
    "u_buf u' = Some b" "u_sz u' = sz"
proof -
  let ?u = "unmarshall_new b sz"
  have c: "sz = 24 + int (length body)" "sz < 2 ^ 31" "length ws \<le> 5"
    "map b [4..<4 + 4 * length ws] = concat (map be32 ws)" "map b [24..<24 + length body] = body"
    using assms by (auto simp: carries_def rpc_sizes)
  have "\<exists>u'. get_all (length ws) get_u32 (?u\<lparr>u_ind := sizeof_rpc_sz\<rparr>) [] = Inr (ws, u') \<and>
      u_ok u' \<and> u_buf u' = u_buf ?u \<and> u_sz u' = u_sz ?u"
    using c by (intro read_words [where b = b]) (simp_all add: unmarshall_new_def)
  then obtain u' where u': "get_all (length ws) get_u32 (?u\<lparr>u_ind := sizeof_rpc_sz\<rparr>) [] = Inr (ws, u')"
    "u_ok u'" "u_buf u' = Some b" "u_sz u' = sz"
    by (auto simp: unmarshall_new_def)
  have "nat sz = 24 + length body" using c(1) by simp
  then show ?thesis
    using u' c(1,2,5) by (intro that [of u']) (simp_all add: u_inv_def u_rest_def rpc_sizes)
qed

lemma unpack_request:
  assumes "carries_request b sz h args"
  obtains u where "unpack_req_header (unmarshall_new b sz) = Inr (h, u)" "u_inv u" "u_ok u" "u_rest u = args"
proof -
  obtain u' where u': "get_all (length (req_words h)) get_u32 ((unmarshall_new b sz)\<lparr>u_ind := sizeof_rpc_sz\<rparr>) [] =
      Inr (req_words h, u')" "u_inv (u'\<lparr>u_ind := RPC_HEADER_SZ\<rparr>)" "u_ok u'" "u_rest (u'\<lparr>u_ind := RPC_HEADER_SZ\<rparr>) = args"
    by (rule carries_read [OF assms [unfolded carries_request_def]]) (rule that)
  have "length (req_words h) = 5" by (simp add: req_words_def)
  with u'(1) have "unpack_req_header (unmarshall_new b sz) = Inr (h, u'\<lparr>u_ind := RPC_HEADER_SZ\<rparr>)"
    by (auto simp: unpack_req_header_def unpack_get req_words_def eval_nat_numeral fault_simps)
  with u' show ?thesis by (intro that) simp_all
qed

lemma unpack_reply:
  assumes "carries_reply b sz h res"
  obtains u where "unpack_reply_header (unmarshall_new b sz) = Inr (h, u)" "u_ok u" "u_buf u = Some b"
    "u_sz u = sz" "u_inv u" "u_rest u = res"
proof -
  obtain u' where u': "get_all (length (reply_words h)) get_u32 ((unmarshall_new b sz)\<lparr>u_ind := sizeof_rpc_sz\<rparr>) [] =
      Inr (reply_words h, u')" "u_inv (u'\<lparr>u_ind := RPC_HEADER_SZ\<rparr>)" "u_ok u'" "u_rest (u'\<lparr>u_ind := RPC_HEADER_SZ\<rparr>) = res"
    "u_buf u' = Some b" "u_sz u' = sz"
    by (rule carries_read [OF assms [unfolded carries_reply_def]]) (rule that)
  have "length (reply_words h) = 2" by (simp add: reply_words_def)
  with u'(1) have "unpack_reply_header (unmarshall_new b sz) = Inr (h, u'\<lparr>u_ind := RPC_HEADER_SZ\<rparr>)"
    by (auto simp: unpack_reply_header_def unpack_get reply_words_def eval_nat_numeral fault_simps)
  with u' show ?thesis by (intro that) simp_all
qed

text \<open>Only the bytes behind the size matter, and a buffer may be read as the list of its bytes.\<close>

lemma carries_cong:
  assumes "carries b sz ws body" "\<And>k. 4 \<le> k \<Longrightarrow> int k < sz \<Longrightarrow> b' k = b k"
  shows "carries b' sz ws body"
proof -
  have c: "sz = 24 + int (length body)" "length ws \<le> 5"
    using assms(1) by (auto simp: carries_def rpc_sizes)
  have "map b' [4..<4 + 4 * length ws] = map b [4..<4 + 4 * length ws]"
    "map b' [24..<24 + length body] = map b [24..<24 + length body]"
    using c by (auto intro!: assms(2))
  with assms(1) show ?thesis by (simp add: carries_def rpc_sizes)
qed

lemma carries_list:
  assumes "carries b sz ws body"
  shows "carries ((!) (map b [0..<nat sz])) sz ws body"
  using assms by (rule carries_cong) simp

text \<open>The packet as it comes out of the connection: the size written over the first four bytes.\<close>

lemma carries_framed:
  assumes "carries b sz ws body" "pkt = be32 (of_nat (nat sz)) @ drop 4 (map b [0..<nat sz])"
  shows "carries ((!) pkt) sz ws body" "length pkt = nat sz" "4 < length pkt"
proof -
  have sz: "sz = 24 + int (length body)" using assms(1) by (simp add: carries_def rpc_sizes)
  show "carries ((!) pkt) sz ws body"
  proof (rule carries_cong [OF assms(1)])
    fix k assume k: "4 \<le> k" "int k < sz"
    then have "pkt ! k = map b [0..<nat sz] ! k"
      by (simp add: assms(2) nth_append)
    also have "\<dots> = b k" using k by (subst nth_map) simp_all
    finally show "pkt ! k = b k" .
  qed
  show "length pkt = nat sz" "4 < length pkt" using sz by (simp_all add: assms(2))
qed

text \<open>The bytes of a request, written out.\<close>

definition request_bytes :: "req_header \<Rightarrow> byte list \<Rightarrow> byte list" where
  "request_bytes h args = [0, 0, 0, 0] @ concat (map be32 (req_words h)) @ args"

lemma length_req_bytes: "length (concat (map be32 (req_words h))) = 20"
  by (simp add: req_words_def)

lemma request_bytes_carry:
  assumes "length args < 2 ^ 30"
  shows "carries_request ((!) (request_bytes h args)) (int (length (request_bytes h args))) h args"
proof -
  let ?p = "request_bytes h args" and ?ws = "concat (map be32 (req_words h))"
  have len: "length ?p = 24 + length args" "length (req_words h) = 5"
    by (simp_all add: request_bytes_def req_words_def)
  have "map ((!) ?p) [4..<24] = ?ws"
    by (simp add: request_bytes_def req_words_def be32_def)
  moreover have "map ((!) ?p) [24..<24 + length args] = args"
    using length_req_bytes [of h] by (intro nth_equalityI) (simp_all add: request_bytes_def nth_append)
  ultimately show ?thesis
    using len assms by (simp add: carries_request_def carries_def rpc_sizes)
qed

definition reply_bytes :: "reply_header \<Rightarrow> byte list \<Rightarrow> byte list" where
  "reply_bytes h res = [0, 0, 0, 0] @ concat (map be32 (reply_words h)) @ replicate 12 0 @ res"

lemma reply_bytes_carry:
  assumes "length res < 2 ^ 30"
  shows "carries_reply ((!) (reply_bytes h res)) (int (length (reply_bytes h res))) h res"
proof -
  let ?p = "reply_bytes h res"
  have len: "length ?p = 24 + length res" "length (reply_words h) = 2"
    by (simp_all add: reply_bytes_def reply_words_def)
  have "map ((!) ?p) [4..<12] = concat (map be32 (reply_words h))"
    by (simp add: reply_bytes_def reply_words_def be32_def)
  moreover have "map ((!) ?p) [24..<24 + length res] = res"
    by (intro nth_equalityI) (simp_all add: reply_bytes_def reply_words_def nth_append)
  ultimately show ?thesis
    using len assms by (simp add: carries_reply_def carries_def rpc_sizes)
qed

end
