(* ===== verification/Rpc_Server.thy ===== *)
theory Rpc_Server
  imports Rpc_Packet
begin

text \<open>
  Class \<open>rpcs\<close> (\<open>rpc/rpc.h\<close>, \<open>rpc/rpc.cc\<close>): the server end of the RPC library. \<open>dispatch\<close> is modelled whole,
  cut at the points where the code takes or releases a lock, so that the steps of several dispatch threads
  can be interleaved: \<open>dispatch_admit\<close> decides what a request is, \<open>dispatch_exec\<close> runs the handler,
  \<open>dispatch_reply\<close> records and sends the answer. A packet sent on a connection that is not dead is an
  output; what the connection makes of it is the subject of theory \<open>Connection\<close>. Log and statistics
  output is left out.
\<close>

section \<open>State\<close>

text \<open>A handler works on the state \<open>'s\<close> of the application object it was registered with; it returns the
  method's result. What fresh memory contains is the parameter \<open>mem\<close> throughout.\<close>

type_synonym 's handler = "unmarshall \<Rightarrow> marshall \<Rightarrow> 's \<Rightarrow> (int \<times> marshall \<times> 's) res"

record 's rpcs =
  sv_nonce :: u32
  sv_reply_window :: reply_window
  sv_conns :: "u32 \<rightharpoonup> nat"
  sv_counting :: int
  sv_curr_counts :: int
  sv_counts :: "u32 \<Rightarrow> int"
  sv_reachable :: bool
  sv_procs :: "u32 \<rightharpoonup> 's handler"

text \<open>The server with the connection objects (by address), the application and the packets sent so far.\<close>

record 's world =
  srv :: "'s rpcs"
  heap :: "nat \<rightharpoonup> connection"
  app :: 's
  out :: "(nat \<times> byte list) list"

section \<open>Registering handlers\<close>

definition reg1 :: "u32 \<Rightarrow> 's handler \<Rightarrow> 's rpcs \<Rightarrow> 's rpcs res" where
  "reg1 proc h s =
     bindE (VERIFY (sv_procs s proc = None)) (\<lambda>_.
       (let s1 = s\<lparr>sv_procs := (sv_procs s)(proc \<mapsto> h)\<rparr>
        in bindE (VERIFY (sv_procs s1 proc \<noteq> None)) (\<lambda>_. Inr s1)))"

text \<open>The class \<open>h1\<close> of the template \<open>reg\<close>, for one to seven arguments. \<open>r0\<close> is the value of the
  default-constructed result.\<close>

definition handler1 ::
  "(unmarshall \<Rightarrow> ('a \<times> unmarshall) res) \<Rightarrow> (marshall \<Rightarrow> 'r \<Rightarrow> marshall res) \<Rightarrow> 'r \<Rightarrow>
     ('s \<Rightarrow> 'a \<Rightarrow> 'r \<Rightarrow> (int \<times> 'r \<times> 's) res) \<Rightarrow> 's handler" where
  "handler1 get put r0 meth args ret s =
     bindE (get args) (\<lambda>(a1, args).
       if \<not> okdone args then Inr (unmarshal_args_failure, ret, s)
       else bindE (meth s a1 r0) (\<lambda>(b, r, s). bindE (put ret r) (\<lambda>ret. Inr (b, ret, s))))"

definition handler2 ::
  "(unmarshall \<Rightarrow> ('a \<times> unmarshall) res) \<Rightarrow> (unmarshall \<Rightarrow> ('b \<times> unmarshall) res) \<Rightarrow>
     (marshall \<Rightarrow> 'r \<Rightarrow> marshall res) \<Rightarrow> 'r \<Rightarrow>
     ('s \<Rightarrow> 'a \<Rightarrow> 'b \<Rightarrow> 'r \<Rightarrow> (int \<times> 'r \<times> 's) res) \<Rightarrow> 's handler" where
  "handler2 get_a get_b put r0 meth args ret s =
     bindE (get_a args) (\<lambda>(a1, args). bindE (get_b args) (\<lambda>(a2, args).
       if \<not> okdone args then Inr (unmarshal_args_failure, ret, s)
       else bindE (meth s a1 a2 r0) (\<lambda>(b, r, s). bindE (put ret r) (\<lambda>ret. Inr (b, ret, s)))))"

definition handler3 ::
  "(unmarshall \<Rightarrow> ('a \<times> unmarshall) res) \<Rightarrow>
     (unmarshall \<Rightarrow> ('b \<times> unmarshall) res) \<Rightarrow>
     (unmarshall \<Rightarrow> ('c \<times> unmarshall) res) \<Rightarrow>
     (marshall \<Rightarrow> 'r \<Rightarrow> marshall res) \<Rightarrow> 'r \<Rightarrow>
     ('s \<Rightarrow> 'a \<Rightarrow> 'b \<Rightarrow> 'c \<Rightarrow> 'r \<Rightarrow> (int \<times> 'r \<times> 's) res) \<Rightarrow> 's handler" where
  "handler3 get_a get_b get_c put r0 meth args ret s =
     bindE (get_a args) (\<lambda>(a1, args).
     bindE (get_b args) (\<lambda>(a2, args).
     bindE (get_c args) (\<lambda>(a3, args).
       if \<not> okdone args then Inr (unmarshal_args_failure, ret, s)
       else bindE (meth s a1 a2 a3 r0) (\<lambda>(b, r, s). bindE (put ret r) (\<lambda>ret. Inr (b, ret, s))))))"

definition handler4 ::
  "(unmarshall \<Rightarrow> ('a \<times> unmarshall) res) \<Rightarrow>
     (unmarshall \<Rightarrow> ('b \<times> unmarshall) res) \<Rightarrow>
     (unmarshall \<Rightarrow> ('c \<times> unmarshall) res) \<Rightarrow>
     (unmarshall \<Rightarrow> ('d \<times> unmarshall) res) \<Rightarrow>
     (marshall \<Rightarrow> 'r \<Rightarrow> marshall res) \<Rightarrow> 'r \<Rightarrow>
     ('s \<Rightarrow> 'a \<Rightarrow> 'b \<Rightarrow> 'c \<Rightarrow> 'd \<Rightarrow> 'r \<Rightarrow> (int \<times> 'r \<times> 's) res) \<Rightarrow> 's handler" where
  "handler4 get_a get_b get_c get_d put r0 meth args ret s =
     bindE (get_a args) (\<lambda>(a1, args).
     bindE (get_b args) (\<lambda>(a2, args).
     bindE (get_c args) (\<lambda>(a3, args).
     bindE (get_d args) (\<lambda>(a4, args).
       if \<not> okdone args then Inr (unmarshal_args_failure, ret, s)
       else bindE (meth s a1 a2 a3 a4 r0) (\<lambda>(b, r, s). bindE (put ret r) (\<lambda>ret. Inr (b, ret, s)))))))"

definition handler5 ::
  "(unmarshall \<Rightarrow> ('a \<times> unmarshall) res) \<Rightarrow>
     (unmarshall \<Rightarrow> ('b \<times> unmarshall) res) \<Rightarrow>
     (unmarshall \<Rightarrow> ('c \<times> unmarshall) res) \<Rightarrow>
     (unmarshall \<Rightarrow> ('d \<times> unmarshall) res) \<Rightarrow>
     (unmarshall \<Rightarrow> ('e \<times> unmarshall) res) \<Rightarrow>
     (marshall \<Rightarrow> 'r \<Rightarrow> marshall res) \<Rightarrow> 'r \<Rightarrow>
     ('s \<Rightarrow> 'a \<Rightarrow> 'b \<Rightarrow> 'c \<Rightarrow> 'd \<Rightarrow> 'e \<Rightarrow> 'r \<Rightarrow> (int \<times> 'r \<times> 's) res) \<Rightarrow> 's handler" where
  "handler5 get_a get_b get_c get_d get_e put r0 meth args ret s =
     bindE (get_a args) (\<lambda>(a1, args).
     bindE (get_b args) (\<lambda>(a2, args).
     bindE (get_c args) (\<lambda>(a3, args).
     bindE (get_d args) (\<lambda>(a4, args).
     bindE (get_e args) (\<lambda>(a5, args).
       if \<not> okdone args then Inr (unmarshal_args_failure, ret, s)
       else bindE (meth s a1 a2 a3 a4 a5 r0) (\<lambda>(b, r, s). bindE (put ret r) (\<lambda>ret. Inr (b, ret, s))))))))"

definition handler6 ::
  "(unmarshall \<Rightarrow> ('a \<times> unmarshall) res) \<Rightarrow>
     (unmarshall \<Rightarrow> ('b \<times> unmarshall) res) \<Rightarrow>
     (unmarshall \<Rightarrow> ('c \<times> unmarshall) res) \<Rightarrow>
     (unmarshall \<Rightarrow> ('d \<times> unmarshall) res) \<Rightarrow>
     (unmarshall \<Rightarrow> ('e \<times> unmarshall) res) \<Rightarrow>
     (unmarshall \<Rightarrow> ('f \<times> unmarshall) res) \<Rightarrow>
     (marshall \<Rightarrow> 'r \<Rightarrow> marshall res) \<Rightarrow> 'r \<Rightarrow>
     ('s \<Rightarrow> 'a \<Rightarrow> 'b \<Rightarrow> 'c \<Rightarrow> 'd \<Rightarrow> 'e \<Rightarrow> 'f \<Rightarrow> 'r \<Rightarrow> (int \<times> 'r \<times> 's) res) \<Rightarrow> 's handler" where
  "handler6 get_a get_b get_c get_d get_e get_f put r0 meth args ret s =
     bindE (get_a args) (\<lambda>(a1, args).
     bindE (get_b args) (\<lambda>(a2, args).
     bindE (get_c args) (\<lambda>(a3, args).
     bindE (get_d args) (\<lambda>(a4, args).
     bindE (get_e args) (\<lambda>(a5, args).
     bindE (get_f args) (\<lambda>(a6, args).
       if \<not> okdone args then Inr (unmarshal_args_failure, ret, s)
       else bindE (meth s a1 a2 a3 a4 a5 a6 r0) (\<lambda>(b, r, s). bindE (put ret r) (\<lambda>ret. Inr (b, ret, s)))))))))"

definition handler7 ::
  "(unmarshall \<Rightarrow> ('a \<times> unmarshall) res) \<Rightarrow>
     (unmarshall \<Rightarrow> ('b \<times> unmarshall) res) \<Rightarrow>
     (unmarshall \<Rightarrow> ('c \<times> unmarshall) res) \<Rightarrow>
     (unmarshall \<Rightarrow> ('d \<times> unmarshall) res) \<Rightarrow>
     (unmarshall \<Rightarrow> ('e \<times> unmarshall) res) \<Rightarrow>
     (unmarshall \<Rightarrow> ('f \<times> unmarshall) res) \<Rightarrow>
     (unmarshall \<Rightarrow> ('g \<times> unmarshall) res) \<Rightarrow>
     (marshall \<Rightarrow> 'r \<Rightarrow> marshall res) \<Rightarrow> 'r \<Rightarrow>
     ('s \<Rightarrow> 'a \<Rightarrow> 'b \<Rightarrow> 'c \<Rightarrow> 'd \<Rightarrow> 'e \<Rightarrow> 'f \<Rightarrow> 'g \<Rightarrow> 'r \<Rightarrow> (int \<times> 'r \<times> 's) res) \<Rightarrow> 's handler" where
  "handler7 get_a get_b get_c get_d get_e get_f get_g put r0 meth args ret s =
     bindE (get_a args) (\<lambda>(a1, args).
     bindE (get_b args) (\<lambda>(a2, args).
     bindE (get_c args) (\<lambda>(a3, args).
     bindE (get_d args) (\<lambda>(a4, args).
     bindE (get_e args) (\<lambda>(a5, args).
     bindE (get_f args) (\<lambda>(a6, args).
     bindE (get_g args) (\<lambda>(a7, args).
       if \<not> okdone args then Inr (unmarshal_args_failure, ret, s)
       else bindE (meth s a1 a2 a3 a4 a5 a6 a7 r0) (\<lambda>(b, r, s). bindE (put ret r) (\<lambda>ret. Inr (b, ret, s))))))))))"

definition rpcbind :: "u32 \<Rightarrow> 's \<Rightarrow> u32 \<Rightarrow> u32 \<Rightarrow> (int \<times> u32 \<times> 's) res" where
  "rpcbind nonce s a r = Inr (0, nonce, s)"

text \<open>The constructor; \<open>nonce\<close> is the random number it draws and \<open>r0\<close> an uninitialised \<open>int\<close>.\<close>

definition rpcs_new :: "u32 \<Rightarrow> u32 \<Rightarrow> int \<Rightarrow> 's rpcs res" where
  "rpcs_new nonce r0 count =
     reg1 RPC_BIND (handler1 get_u32 put_u32 r0 (rpcbind nonce))
       \<lparr>sv_nonce = nonce, sv_reply_window = Map.empty, sv_conns = Map.empty, sv_counting = count,
        sv_curr_counts = count, sv_counts = (\<lambda>_. 0), sv_reachable = True, sv_procs = Map.empty\<rparr>"

definition rpcs_set_reachable :: "bool \<Rightarrow> 's rpcs \<Rightarrow> 's rpcs" where
  "rpcs_set_reachable r s = s\<lparr>sv_reachable := r\<rparr>"

section \<open>Statistics\<close>

text \<open>The counters; the report printed when \<open>curr_counts_\<close> reaches zero is output only.\<close>

definition updatestat :: "u32 \<Rightarrow> 's rpcs \<Rightarrow> 's rpcs" where
  "updatestat proc s =
     (let s1 = s\<lparr>sv_counts := (sv_counts s)(proc := sv_counts s proc + 1), sv_curr_counts := sv_curr_counts s - 1\<rparr>
      in if sv_curr_counts s1 = 0 then s1\<lparr>sv_curr_counts := sv_counting s1\<rparr> else s1)"

section \<open>Connections of the server\<close>

definition deref :: "'s world \<Rightarrow> nat \<Rightarrow> connection res" where
  "deref w c = (case heap w c of None \<Rightarrow> Inl NullDeref | Some k \<Rightarrow> Inr k)"

definition conn_incref :: "nat \<Rightarrow> 's world \<Rightarrow> 's world res" where
  "conn_incref c w = bindE (deref w c) (\<lambda>k. Inr (w\<lparr>heap := (heap w)(c \<mapsto> incref k)\<rparr>))"

definition conn_decref :: "nat \<Rightarrow> 's world \<Rightarrow> 's world res" where
  "conn_decref c w =
     bindE (deref w c) (\<lambda>k. bindE (decref k) (\<lambda>k'. Inr (w\<lparr>heap := (heap w)(c := k')\<rparr>)))"

definition conn_send :: "nat \<Rightarrow> byte list \<Rightarrow> 's world \<Rightarrow> 's world res" where
  "conn_send c pkt w = bindE (deref w c) (\<lambda>k. Inr (if c_dead k then w else w\<lparr>out := out w @ [(c, pkt)]\<rparr>))"

text \<open>Save the latest good connection to the client.\<close>

definition save_conn :: "u32 \<Rightarrow> nat \<Rightarrow> 's world \<Rightarrow> 's world res" where
  "save_conn clt c w =
     (case sv_conns (srv w) clt of
        None \<Rightarrow>
          bindE (conn_incref c w)
            (\<lambda>w. Inr (w\<lparr>srv := (srv w)\<lparr>sv_conns := (sv_conns (srv w))(clt \<mapsto> c)\<rparr>\<rparr>))
      | Some c0 \<Rightarrow>
          bindE (deref w c0) (\<lambda>k0. bindE (deref w c) (\<lambda>k.
            if compare_conn k0 k < 0
            then bindE (conn_decref c0 w) (\<lambda>w. bindE (conn_incref c w)
                   (\<lambda>w. Inr (w\<lparr>srv := (srv w)\<lparr>sv_conns := (sv_conns (srv w))(clt \<mapsto> c)\<rparr>\<rparr>)))
            else Inr w)))"

text \<open>Get the latest connection to the client; \<open>conns_[clt_nonce]\<close> of an unknown client is null.\<close>

definition latest_conn :: "u32 \<Rightarrow> nat \<Rightarrow> 's world \<Rightarrow> (nat \<times> 's world) res" where
  "latest_conn clt c w =
     bindE (deref w c) (\<lambda>k.
       if c_dead k \<and> sv_conns (srv w) clt \<noteq> Some c
       then bindE (conn_decref c w) (\<lambda>w.
              case sv_conns (srv w) clt of
                None \<Rightarrow> Inl NullDeref
              | Some c1 \<Rightarrow> bindE (conn_incref c1 w) (\<lambda>w. Inr (c1, w)))
       else Inr (c, w))"

section \<open>dispatch\<close>

definition packet :: "marshall \<Rightarrow> byte list" where
  "packet m = map (the (m_buf m)) [0..<nat (m_ind m)]"

text \<open>A reply that consists of a header only.\<close>

definition header_reply :: "(nat \<Rightarrow> byte) \<Rightarrow> u32 \<Rightarrow> int \<Rightarrow> byte list res" where
  "header_reply mem xid ret =
     bindE (pack_reply_header (marshall_new mem) \<lparr>rp_xid = xid, rp_ret = word_of_int ret\<rparr>) (\<lambda>rep. Inr (packet rep))"

text \<open>A request that goes on to the handler switch: header, reader, handler, state.\<close>

type_synonym 's job = "req_header \<times> unmarshall \<times> 's handler \<times> rpcstate"

text \<open>From the arrival to the answer of the at-most-once check; \<open>None\<close> when the thread is done.\<close>

definition dispatch_admit ::
  "(nat \<Rightarrow> byte) \<Rightarrow> nat \<Rightarrow> (nat \<Rightarrow> byte) \<Rightarrow> int \<Rightarrow> 's world \<Rightarrow> ('s job option \<times> 's world) res" where
  "dispatch_admit mem c b sz w =
     bindE (unpack_req_header (unmarshall_new b sz)) (\<lambda>(h, req).
       if \<not> u_ok req then bindE (conn_decref c w) (\<lambda>w. Inr (None, w))
       else if rq_srv_nonce h \<noteq> 0 \<and> rq_srv_nonce h \<noteq> sv_nonce (srv w)
       then bindE (header_reply mem (rq_xid h) oldsrv_failure)
              (\<lambda>pkt. bindE (conn_send c pkt w) (\<lambda>w. Inr (None, w)))
       else case sv_procs (srv w) (rq_proc h) of
              None \<Rightarrow> Inl VerifyFailed
            | Some f \<Rightarrow>
                if rq_clt_nonce h \<noteq> 0
                then bindE (save_conn (rq_clt_nonce h) c w) (\<lambda>w.
                       (case checkduplicate_and_update (sv_reply_window (srv w)) (rq_clt_nonce h) (rq_xid h)
                               (rq_xid_rep h) of
                          (stat, win) \<Rightarrow> Inr (Some (h, req, f, stat), w\<lparr>srv := (srv w)\<lparr>sv_reply_window := win\<rparr>\<rparr>)))
                else Inr (Some (h, req, f, NEW), w))"

text \<open>A new request: the handler runs, its result is checked and the reply is packed.\<close>

definition dispatch_exec ::
  "(nat \<Rightarrow> byte) \<Rightarrow> req_header \<Rightarrow> unmarshall \<Rightarrow> 's handler \<Rightarrow> 's world \<Rightarrow> (byte list \<times> 's world) res" where
  "dispatch_exec mem h req f w =
     (let s = (if sv_counting (srv w) \<noteq> 0 then updatestat (rq_proc h) (srv w) else srv w)
      in bindE (f req (marshall_new mem) (app w)) (\<lambda>(ret, rep, a).
           if ret = unmarshal_args_failure then Inl VerifyFailed
           else bindE (VERIFY (ret \<ge> 0)) (\<lambda>_.
             bindE (pack_reply_header rep \<lparr>rp_xid = rq_xid h, rp_ret = word_of_int ret\<rparr>)
               (\<lambda>rep. Inr (packet rep, w\<lparr>srv := s, app := a\<rparr>)))))"

definition dispatch_reply :: "req_header \<Rightarrow> byte list \<Rightarrow> nat \<Rightarrow> 's world \<Rightarrow> 's world res" where
  "dispatch_reply h b1 c w =
     (let w1 = (if rq_clt_nonce h > 0
                then w\<lparr>srv := (srv w)\<lparr>sv_reply_window := add_reply (sv_reply_window (srv w)) (rq_clt_nonce h) (rq_xid h) b1\<rparr>\<rparr>
                else w)
      in bindE (latest_conn (rq_clt_nonce h) c w1) (\<lambda>(c, w).
           bindE (conn_send c b1 w) (conn_decref c)))"

definition dispatch_switch :: "(nat \<Rightarrow> byte) \<Rightarrow> nat \<Rightarrow> 's job \<Rightarrow> 's world \<Rightarrow> 's world res" where
  "dispatch_switch mem c = (\<lambda>(h, req, f, stat) w.
     (case stat of
        NEW \<Rightarrow> bindE (dispatch_exec mem h req f w) (\<lambda>(b1, w). dispatch_reply h b1 c w)
      | INPROGRESS \<Rightarrow> conn_decref c w
      | DONE b1 \<Rightarrow> bindE (conn_send c b1 w) (conn_decref c)
      | FORGOTTEN \<Rightarrow>
          bindE (header_reply mem (rq_xid h) atmostonce_failure)
            (\<lambda>pkt. bindE (conn_send c pkt w) (conn_decref c))))"

definition dispatch :: "(nat \<Rightarrow> byte) \<Rightarrow> nat \<Rightarrow> (nat \<Rightarrow> byte) \<Rightarrow> int \<Rightarrow> 's world \<Rightarrow> 's world res" where
  "dispatch mem c b sz w =
     bindE (dispatch_admit mem c b sz w) (\<lambda>(j, w).
       case j of None \<Rightarrow> Inr w | Some j \<Rightarrow> dispatch_switch mem c j w)"

text \<open>\<open>got_pdu\<close>: \<open>succ\<close> is the answer of the thread pool and \<open>reachable'\<close> what \<open>reachable_\<close> is when it has
  answered. The result tells whether the packet is consumed and what became of the job object; one that is
  queued and deleted all the same is dangling.\<close>

datatype job_fate = NotQueued | Queued | Dangling

definition rpcs_got_pdu :: "nat \<Rightarrow> bool \<Rightarrow> bool \<Rightarrow> 's world \<Rightarrow> (bool \<times> job_fate \<times> 's world) res" where
  "rpcs_got_pdu c succ reachable' w =
     (if \<not> sv_reachable (srv w) then Inr (True, NotQueued, w)
      else bindE (conn_incref c w) (\<lambda>w.
        if \<not> succ \<or> \<not> reachable'
        then bindE (conn_decref c w) (\<lambda>w. Inr (succ, if succ then Dangling else NotQueued, w))
        else Inr (succ, Queued, w)))"

section \<open>Handlers are correct for correct codecs\<close>

text \<open>The handler's part of the contract, at a given state.\<close>

definition handler_gives :: "'s handler \<Rightarrow> byte list \<Rightarrow> 's \<Rightarrow> int \<Rightarrow> byte list \<Rightarrow> 's \<Rightarrow> bool" where
  "handler_gives f args s ret res s' \<longleftrightarrow>
     (\<forall>u m. u_inv u \<longrightarrow> u_ok u \<longrightarrow> u_rest u = args \<longrightarrow> m_inv m \<longrightarrow> m_ind m = RPC_HEADER_SZ \<longrightarrow>
        (\<exists>m'. f u m s = Inr (ret, m', s') \<and> appended m m' res)) \<and> int (length res) + RPC_HEADER_SZ < 2 ^ 31"

lemma okdone_end: "advanced u u' [] \<Longrightarrow> u_ok u \<Longrightarrow> okdone u'"
  using u_rest_length [of u'] by (auto simp: advanced_def okdone_def)

lemma handler1_ok:
  assumes a: "codec get_put get enc" and r: "codec put get_r enc_r"
    and u: "u_inv u" "u_ok u" "u_rest u = enc x" "int (length (enc x)) \<le> MAX_MSG"
    and m: "m_inv m" "m_ind m + int (length (enc_r y)) \<le> MAX_MSG"
    and meth: "meth s x r0 = Inr (ret, y, s')"
  shows "\<exists>m'. handler1 get put r0 meth u m s = Inr (ret, m', s') \<and> appended m m' (enc_r y)"
proof -
  obtain u' where u': "get u = Inr (x, u')" "advanced u u' []"
    using codec.get_law [OF a u(1,2), of x "[]"] u(3,4) by auto
  obtain m' where m': "put m y = Inr m'" "appended m m' (enc_r y)"
    using codec.put_law [OF r m] by blast
  from u' m' okdone_end [OF u'(2) u(2)] meth show ?thesis
    by (simp add: handler1_def)
qed

text \<open>Several arguments are read as a tuple, so the one-argument lemma covers them all.\<close>

lemma handler2_pair:
  "handler2 get_a get_b put r0 meth = handler1 (get_pair get_a get_b) put r0 (\<lambda>s (a, b). meth s a b)"
  by (simp add: fun_eq_iff handler2_def handler1_def get_pair_def bindE_def split: sum.split)

lemma handler3_pair:
  "handler3 get_a get_b get_c put r0 meth =
     handler1 (get_pair get_a (get_pair get_b get_c)) put r0 (\<lambda>s (a, (b, c)). meth s a b c)"
  by (simp add: fun_eq_iff handler3_def handler1_def get_pair_def bindE_def split: sum.split)

lemma handler4_pair:
  "handler4 get_a get_b get_c get_d put r0 meth =
     handler1 (get_pair get_a (get_pair get_b (get_pair get_c get_d))) put r0 (\<lambda>s (a, (b, (c, d))). meth s a b c d)"
  by (simp add: fun_eq_iff handler4_def handler1_def get_pair_def bindE_def split: sum.split)

lemma handler5_pair:
  "handler5 get_a get_b get_c get_d get_e put r0 meth =
     handler1 (get_pair get_a (get_pair get_b (get_pair get_c (get_pair get_d get_e)))) put r0 (\<lambda>s (a, (b, (c, (d, e)))). meth s a b c d e)"
  by (simp add: fun_eq_iff handler5_def handler1_def get_pair_def bindE_def split: sum.split)

lemma handler6_pair:
  "handler6 get_a get_b get_c get_d get_e get_f put r0 meth =
     handler1 (get_pair get_a (get_pair get_b (get_pair get_c (get_pair get_d (get_pair get_e get_f))))) put r0 (\<lambda>s (a, (b, (c, (d, (e, f))))). meth s a b c d e f)"
  by (simp add: fun_eq_iff handler6_def handler1_def get_pair_def bindE_def split: sum.split)

lemma handler7_pair:
  "handler7 get_a get_b get_c get_d get_e get_f get_g put r0 meth =
     handler1 (get_pair get_a (get_pair get_b (get_pair get_c (get_pair get_d (get_pair get_e (get_pair get_f get_g)))))) put r0 (\<lambda>s (a, (b, (c, (d, (e, (f, g)))))). meth s a b c d e f g)"
  by (simp add: fun_eq_iff handler7_def handler1_def get_pair_def bindE_def split: sum.split)

text \<open>Arguments of another length than the handler reads are refused before the method is called.\<close>

lemma handler1_gives:
  assumes a: "codec put_a get enc" and r: "codec put get_r enc_r"
    and len: "int (length (enc x)) \<le> MAX_MSG" "RPC_HEADER_SZ + int (length (enc_r y)) \<le> MAX_MSG"
    and meth: "meth s x r0 = Inr (ret, y, s')"
  shows "handler_gives (handler1 get put r0 meth) (enc x) s ret (enc_r y) s'"
  using len meth handler1_ok [OF a r, of _ x _ y meth s r0 ret s']
  by (auto simp: handler_gives_def MAX_MSG_def)

lemma handler1_refuses:
  assumes "get u = Inr (x, u')" "\<not> okdone u'"
  shows "handler1 get put r0 meth u m s = Inr (unmarshal_args_failure, m, s)"
  using assms by (simp add: handler1_def)

section \<open>Connections\<close>

text \<open>The thread's own connection is alive and referenced, and the one saved for the client, if any, is an
  object that can be released.\<close>

definition conn_ready :: "'s world \<Rightarrow> u32 \<Rightarrow> nat \<Rightarrow> bool" where
  "conn_ready w clt c \<longleftrightarrow>
     (case heap w c of None \<Rightarrow> False | Some k \<Rightarrow> \<not> c_dead k \<and> c_refno k \<ge> 1) \<and>
     (case sv_conns (srv w) clt of
        None \<Rightarrow> True
      | Some c0 \<Rightarrow> (case heap w c0 of
                     None \<Rightarrow> False
                   | Some k0 \<Rightarrow> c_refno k0 \<ge> 1 \<and> (c_dead k0 \<longrightarrow> cb_buf (c_wpdu k0) = None)))"

lemma conn_readyE:
  assumes "conn_ready w clt c"
  obtains k where "heap w c = Some k" "\<not> c_dead k" "c_refno k \<ge> 1"
  using assms by (auto simp: conn_ready_def split: option.splits)

text \<open>A client that stays on one connection: it is alive, has at least \<open>n\<close> references and is the one saved.\<close>

definition conn_live :: "'s world \<Rightarrow> u32 \<Rightarrow> nat \<Rightarrow> int \<Rightarrow> bool" where
  "conn_live w clt c n \<longleftrightarrow>
     (case heap w c of None \<Rightarrow> False | Some k \<Rightarrow> \<not> c_dead k \<and> n \<le> c_refno k) \<and>
     (sv_conns (srv w) clt = None \<or> sv_conns (srv w) clt = Some c)"

text \<open>A client that changes connections: the one in use is alive, has at least \<open>n\<close> references and nothing left to write; the
  saved one, which may be another, is an object that can be released.\<close>

definition saved_ok :: "'s world \<Rightarrow> u32 \<Rightarrow> bool" where
  "saved_ok w clt \<longleftrightarrow>
     (case sv_conns (srv w) clt of
        None \<Rightarrow> True
      | Some c0 \<Rightarrow> (case heap w c0 of None \<Rightarrow> False | Some k0 \<Rightarrow> c_refno k0 \<ge> 1 \<and> cb_buf (c_wpdu k0) = None))"

definition conn_held :: "'s world \<Rightarrow> u32 \<Rightarrow> nat \<Rightarrow> int \<Rightarrow> bool" where
  "conn_held w clt c n \<longleftrightarrow>
     (case heap w c of None \<Rightarrow> False | Some k \<Rightarrow> \<not> c_dead k \<and> n \<le> c_refno k \<and> cb_buf (c_wpdu k) = None) \<and> saved_ok w clt"

lemma conn_held_ready: "conn_held w clt c n \<Longrightarrow> 1 \<le> n \<Longrightarrow> conn_ready w clt c"
  by (auto simp: conn_held_def saved_ok_def conn_ready_def split: option.splits)

text \<open>It stays so with \<open>n\<close> references; no other connection object changes but the one that was saved for the client, and no
  other comes into being.\<close>

definition held_step :: "u32 \<Rightarrow> nat \<Rightarrow> int \<Rightarrow> 's world \<Rightarrow> 's world \<Rightarrow> bool" where
  "held_step clt c n w w' \<longleftrightarrow> conn_held w' clt c n \<and> (\<forall>d. d \<noteq> c \<longrightarrow> heap w d = None \<longrightarrow> heap w' d = None) \<and>
     (\<forall>d. d \<noteq> c \<longrightarrow> sv_conns (srv w) clt \<noteq> Some d \<longrightarrow> heap w' d = heap w d) \<and>
     (\<forall>x. x \<noteq> clt \<longrightarrow> sv_conns (srv w') x = sv_conns (srv w) x) \<and>
     (sv_conns (srv w') clt = sv_conns (srv w) clt \<or> sv_conns (srv w') clt = Some c)"

lemma held_step_same:
  "held_step clt c n w w1 \<Longrightarrow> heap w2 = heap w1 \<Longrightarrow> sv_conns (srv w2) = sv_conns (srv w1) \<Longrightarrow> held_step clt c n w w2"
  by (simp add: held_step_def conn_held_def saved_ok_def cong: option.case_cong)

lemma held_release:
  assumes "held_step clt c (n + 1) w w1" "heap w1 c = Some k" "1 \<le> n"
    "heap w2 = (heap w1)(c \<mapsto> k\<lparr>c_refno := c_refno k - 1\<rparr>)" "sv_conns (srv w2) = sv_conns (srv w1)"
  shows "held_step clt c n w w2"
proof -
  have "conn_held w2 clt c n"
    using assms by (auto simp: held_step_def conn_held_def saved_ok_def split: option.splits if_splits)
  then show ?thesis using assms(1,4,5) by (simp add: held_step_def)
qed

text \<open>Only connection \<open>c\<close> and the entry of client \<open>clt\<close> may differ.\<close>

definition conn_only :: "u32 \<Rightarrow> nat \<Rightarrow> 's world \<Rightarrow> 's world \<Rightarrow> bool" where
  "conn_only clt c w w' \<longleftrightarrow>
     (\<forall>d. d \<noteq> c \<longrightarrow> heap w' d = heap w d) \<and> (\<forall>x. x \<noteq> clt \<longrightarrow> sv_conns (srv w') x = sv_conns (srv w) x)"

lemma conn_live_other: "conn_only clt c w w' \<Longrightarrow> conn_live w x d n \<Longrightarrow> x \<noteq> clt \<Longrightarrow> d \<noteq> c \<Longrightarrow> conn_live w' x d n"
  by (simp add: conn_only_def conn_live_def)

lemma conn_live_ready: "conn_live w clt c n \<Longrightarrow> 1 \<le> n \<Longrightarrow> conn_ready w clt c"
  by (auto simp: conn_live_def conn_ready_def split: option.splits)

lemma decref_live: "\<not> c_dead k \<Longrightarrow> c_refno k \<ge> 1 \<Longrightarrow> decref k = Inr (Some (k\<lparr>c_refno := c_refno k - 1\<rparr>))"
  by (simp add: decref_def Let_def)

lemma decref_ok:
  assumes "c_refno k \<ge> 1" "c_dead k \<longrightarrow> cb_buf (c_wpdu k) = None"
  shows "\<exists>k'. decref k = Inr k'"
  using assms by (auto simp: decref_def Let_def connection_delete_def)

text \<open>A world that differs only in its connection objects and the saved connections.\<close>

definition same_but_conns :: "'s world \<Rightarrow> 's world \<Rightarrow> bool" where
  "same_but_conns w w' \<longleftrightarrow> app w' = app w \<and> out w' = out w \<and> (\<exists>cs. srv w' = (srv w)\<lparr>sv_conns := cs\<rparr>)"

lemma save_conn_ok:
  assumes "conn_ready w clt c"
  obtains w' k where "save_conn clt c w = Inr w'" "same_but_conns w w'" "heap w' c = Some k" "\<not> c_dead k" "c_refno k \<ge> 1"
    "\<And>n. conn_live w clt c n \<Longrightarrow> conn_live w' clt c n \<and> conn_only clt c w w'"
    "\<And>n. conn_held w clt c n \<Longrightarrow> 1 \<le> n \<Longrightarrow> held_step clt c n w w'"
proof -
  obtain k where k: "heap w c = Some k" "\<not> c_dead k" "c_refno k \<ge> 1"
    using assms by (rule conn_readyE)
  define cs where "cs = (sv_conns (srv w))(clt \<mapsto> c)"
  have same: "\<exists>cs. srv w = (srv w)\<lparr>sv_conns := cs\<rparr>"
    by (rule exI [of _ "sv_conns (srv w)"]) simp
  show ?thesis
  proof (cases "sv_conns (srv w) clt")
    case None
    let ?w = "w\<lparr>heap := (heap w)(c \<mapsto> incref k), srv := (srv w)\<lparr>sv_conns := cs\<rparr>\<rparr>"
    have "save_conn clt c w = Inr ?w"
      using None k(1) by (simp add: save_conn_def conn_incref_def deref_def cs_def)
    then show ?thesis
      using k by (intro that [of ?w "incref k"])
        (auto simp: same_but_conns_def incref_def conn_live_def conn_only_def conn_held_def saved_ok_def held_step_def cs_def)
  next
    case (Some c0)
    then obtain k0 where k0: "heap w c0 = Some k0" "c_refno k0 \<ge> 1" "c_dead k0 \<longrightarrow> cb_buf (c_wpdu k0) = None"
      using assms by (auto simp: conn_ready_def split: option.splits)
    show ?thesis
    proof (cases "compare_conn k0 k < 0")
      case True
      then have ne: "c0 \<noteq> c" using k(1) k0(1) by (auto simp: compare_conn_def)
      obtain k0' where dec: "decref k0 = Inr k0'" using decref_ok [OF k0(2,3)] by blast
      let ?w = "w\<lparr>heap := (heap w)(c0 := k0', c \<mapsto> incref k), srv := (srv w)\<lparr>sv_conns := cs\<rparr>\<rparr>"
      have "save_conn clt c w = Inr ?w"
        using Some k(1) k0(1) True dec ne
        by (simp add: save_conn_def conn_incref_def conn_decref_def deref_def cs_def)
      then show ?thesis
        using k Some ne by (intro that [of ?w "incref k"])
          (auto simp: same_but_conns_def incref_def conn_live_def conn_held_def saved_ok_def held_step_def cs_def)
    next
      case False
      then have "save_conn clt c w = Inr w"
        using Some k(1) k0(1) by (simp add: save_conn_def deref_def)
      then show ?thesis
        using k same by (intro that [of w k]) (simp_all add: same_but_conns_def conn_only_def held_step_def)
    qed
  qed
qed

lemma send_release:
  assumes "heap w c = Some k" "\<not> c_dead k" "c_refno k \<ge> 1"
  shows "bindE (conn_send c pkt w) (conn_decref c) =
    Inr (w\<lparr>out := out w @ [(c, pkt)], heap := (heap w)(c \<mapsto> k\<lparr>c_refno := c_refno k - 1\<rparr>)\<rparr>)"
  using assms by (simp add: conn_send_def conn_decref_def deref_def decref_live)

section \<open>What dispatch does with a request\<close>

text \<open>A request this server instance can serve.\<close>

definition servable :: "'s world \<Rightarrow> req_header \<Rightarrow> 's handler \<Rightarrow> bool" where
  "servable w h f \<longleftrightarrow> (rq_srv_nonce h = 0 \<or> rq_srv_nonce h = sv_nonce (srv w)) \<and> rq_clt_nonce h \<noteq> 0 \<and>
     sv_procs (srv w) (rq_proc h) = Some f"

text \<open>Nonce and handlers stay, the window becomes \<open>win\<close>.\<close>

definition same_server :: "'s world \<Rightarrow> 's world \<Rightarrow> reply_window \<Rightarrow> bool" where
  "same_server w w' win \<longleftrightarrow> sv_nonce (srv w') = sv_nonce (srv w) \<and> sv_procs (srv w') = sv_procs (srv w) \<and>
     sv_reachable (srv w') = sv_reachable (srv w) \<and> sv_reply_window (srv w') = win"

lemma admit_ok:
  assumes req: "carries_request b sz h args" and sv: "servable w h f" and conn: "conn_ready w (rq_clt_nonce h) c"
    and chk: "checkduplicate_and_update (sv_reply_window (srv w)) (rq_clt_nonce h) (rq_xid h) (rq_xid_rep h) = (st, win)"
  obtains w' u k where "dispatch_admit mem c b sz w = Inr (Some (h, u, f, st), w')"
    "u_inv u" "u_ok u" "u_rest u = args" "same_server w w' win" "app w' = app w" "out w' = out w"
    "heap w' c = Some k" "\<not> c_dead k" "c_refno k \<ge> 1"
    "\<And>n. conn_live w (rq_clt_nonce h) c n \<Longrightarrow> conn_live w' (rq_clt_nonce h) c n \<and> conn_only (rq_clt_nonce h) c w w'"
    "\<And>n. conn_held w (rq_clt_nonce h) c n \<Longrightarrow> 1 \<le> n \<Longrightarrow> held_step (rq_clt_nonce h) c n w w'"
proof -
  obtain u where u: "unpack_req_header (unmarshall_new b sz) = Inr (h, u)" "u_inv u" "u_ok u" "u_rest u = args"
    using req by (rule unpack_request)
  obtain w1 k where w1: "save_conn (rq_clt_nonce h) c w = Inr w1" "same_but_conns w w1" "heap w1 c = Some k"
    "\<not> c_dead k" "c_refno k \<ge> 1"
    "\<And>n. conn_live w (rq_clt_nonce h) c n \<Longrightarrow> conn_live w1 (rq_clt_nonce h) c n \<and> conn_only (rq_clt_nonce h) c w w1"
    "\<And>n. conn_held w (rq_clt_nonce h) c n \<Longrightarrow> 1 \<le> n \<Longrightarrow> held_step (rq_clt_nonce h) c n w w1"
    using conn by (rule save_conn_ok) (rule that)
  let ?w = "w1\<lparr>srv := (srv w1)\<lparr>sv_reply_window := win\<rparr>\<rparr>"
  have "sv_reply_window (srv w1) = sv_reply_window (srv w)" using w1(2) by (auto simp: same_but_conns_def)
  then have "dispatch_admit mem c b sz w = Inr (Some (h, u, f, st), ?w)"
    using u(1,3) w1(1) sv chk by (auto simp: dispatch_admit_def servable_def)
  moreover have "held_step (rq_clt_nonce h) c n w ?w" if "conn_held w (rq_clt_nonce h) c n" "1 \<le> n" for n
    by (rule held_step_same [OF w1(7) [OF that]]) simp_all
  ultimately show ?thesis
    using u w1(1-6) by (intro that [of u ?w k]) (auto simp: same_server_def same_but_conns_def conn_live_def conn_only_def)
qed

lemma latest_live:
  "heap w c = Some k \<Longrightarrow> \<not> c_dead k \<Longrightarrow> latest_conn clt c w = Inr (c, w)"
  by (simp add: latest_conn_def deref_def)

lemma updatestat_same [simp]:
  "sv_nonce (updatestat p s) = sv_nonce s" "sv_procs (updatestat p s) = sv_procs s"
  "sv_reply_window (updatestat p s) = sv_reply_window s" "sv_conns (updatestat p s) = sv_conns s"
  "sv_reachable (updatestat p s) = sv_reachable s"
  by (simp_all add: updatestat_def Let_def)

lemma exec_ok:
  assumes f: "handler_gives f args (app w) ret res s'" and u: "u_inv u" "u_ok u" "u_rest u = args" and ret: "0 \<le> ret"
  obtains w' pkt where "dispatch_exec mem h u f w = Inr (pkt, w')"
    "carries_reply ((!) pkt) (int (length pkt)) \<lparr>rp_xid = rq_xid h, rp_ret = word_of_int ret\<rparr> res"
    "same_server w w' (sv_reply_window (srv w))" "app w' = s'" "out w' = out w" "heap w' = heap w"
    "sv_conns (srv w') = sv_conns (srv w)"
proof -
  have new: "m_inv (marshall_new mem)" "m_ind (marshall_new mem) = RPC_HEADER_SZ"
    using marshall_new_inv(1) [of mem] by (simp_all add: marshall_new_def)
  then obtain m where m: "f u (marshall_new mem) (app w) = Inr (ret, m, s')" "appended (marshall_new mem) m res"
    using f u by (auto simp: handler_gives_def)
  have inv: "m_inv m" "m_ind m < 2 ^ 31" "get_content m = res"
    using m(2) f new marshall_new_inv(2) [of mem] by (auto simp: appended_def handler_gives_def)
  let ?h = "\<lparr>rp_xid = rq_xid h, rp_ret = word_of_int ret\<rparr>"
  obtain m' b where m': "pack_reply_header m ?h = Inr m'" "m_buf m' = Some b" "m_ind m' = m_ind m"
    "carries_reply b (m_ind m') ?h (get_content m)"
    using inv(1,2) by (rule pack_reply_carries)
  have "0 \<le> m_ind m'" using m'(3) inv(1) by (simp add: m_inv_def rpc_sizes)
  then have len: "int (length (packet m')) = m_ind m'" by (simp add: packet_def)
  have "carries_reply ((!) (packet m')) (m_ind m') ?h res"
    using carries_list [OF m'(4) [unfolded carries_reply_def]] m'(2) inv(3)
    by (simp add: carries_reply_def packet_def)
  moreover define s where "s = (if sv_counting (srv w) \<noteq> 0 then updatestat (rq_proc h) (srv w) else srv w)"
  moreover have "dispatch_exec mem h u f w = Inr (packet m', w\<lparr>srv := s, app := s'\<rparr>)"
    using m(1) m'(1) ret by (simp add: dispatch_exec_def s_def unmarshal_args_failure_def)
  ultimately show ?thesis
    using len by (intro that [of "packet m'" "w\<lparr>srv := s, app := s'\<rparr>"]) (auto simp: same_server_def)
qed

text \<open>A new request is executed once, its reply is recorded and goes to the connection it came from.\<close>

lemma dispatch_new:
  assumes req: "carries_request b sz h args" and sv: "servable w h f" and conn: "conn_ready w (rq_clt_nonce h) c"
    and new: "checkduplicate_and_update (sv_reply_window (srv w)) (rq_clt_nonce h) (rq_xid h) (rq_xid_rep h) = (NEW, win)"
    and f: "handler_gives f args (app w) ret res s'" and ret: "0 \<le> ret"
  obtains w' pkt where "dispatch mem c b sz w = Inr w'" "app w' = s'" "out w' = out w @ [(c, pkt)]"
    "carries_reply ((!) pkt) (int (length pkt)) \<lparr>rp_xid = rq_xid h, rp_ret = word_of_int ret\<rparr> res"
    "same_server w w' (add_reply win (rq_clt_nonce h) (rq_xid h) pkt)"
    "\<And>n. conn_live w (rq_clt_nonce h) c (n + 1) \<Longrightarrow> conn_live w' (rq_clt_nonce h) c n \<and> conn_only (rq_clt_nonce h) c w w'"
    "\<And>n. conn_held w (rq_clt_nonce h) c (n + 1) \<Longrightarrow> 1 \<le> n \<Longrightarrow> held_step (rq_clt_nonce h) c n w w'"
proof -
  obtain w1 u k where w1: "dispatch_admit mem c b sz w = Inr (Some (h, u, f, NEW), w1)"
    "u_inv u" "u_ok u" "u_rest u = args" "same_server w w1 win" "app w1 = app w" "out w1 = out w"
    "heap w1 c = Some k" "\<not> c_dead k" "c_refno k \<ge> 1"
    "\<And>n. conn_live w (rq_clt_nonce h) c n \<Longrightarrow> conn_live w1 (rq_clt_nonce h) c n \<and> conn_only (rq_clt_nonce h) c w w1"
    "\<And>n. conn_held w (rq_clt_nonce h) c n \<Longrightarrow> 1 \<le> n \<Longrightarrow> held_step (rq_clt_nonce h) c n w w1"
    by (rule admit_ok [OF req sv conn new]) (rule that)
  have f1: "handler_gives f args (app w1) ret res s'" using f w1(6) by simp
  obtain w2 pkt where w2: "dispatch_exec mem h u f w1 = Inr (pkt, w2)"
    "carries_reply ((!) pkt) (int (length pkt)) \<lparr>rp_xid = rq_xid h, rp_ret = word_of_int ret\<rparr> res"
    "same_server w1 w2 (sv_reply_window (srv w1))" "app w2 = s'" "out w2 = out w1" "heap w2 = heap w1"
    "sv_conns (srv w2) = sv_conns (srv w1)"
    by (rule exec_ok [OF f1 w1(2-4) ret, of mem h]) (rule that)
  define w3 where "w3 = w2\<lparr>srv := (srv w2)\<lparr>sv_reply_window := add_reply win (rq_clt_nonce h) (rq_xid h) pkt\<rparr>\<rparr>"
  have win: "sv_reply_window (srv w2) = win" using w2(3) w1(5) by (simp add: same_server_def)
  have h3: "heap w3 c = Some k" using w1(8) w2(6) by (simp add: w3_def)
  have "0 < rq_clt_nonce h" using sv by (simp add: servable_def word_neq_0_conv)
  then have "dispatch_reply h pkt c w2 = bindE (conn_send c pkt w3) (conn_decref c)"
    using latest_live [OF h3 w1(9)] win by (simp add: dispatch_reply_def w3_def)
  then have "dispatch mem c b sz w =
      Inr (w3\<lparr>out := out w3 @ [(c, pkt)], heap := (heap w3)(c \<mapsto> k\<lparr>c_refno := c_refno k - 1\<rparr>)\<rparr>)"
    using w1(1) w2(1) send_release [OF h3 w1(9,10)] by (simp add: dispatch_def dispatch_switch_def)
  moreover have "conn_live (w3\<lparr>out := out w3 @ [(c, pkt)], heap := (heap w3)(c \<mapsto> k\<lparr>c_refno := c_refno k - 1\<rparr>)\<rparr>)
      (rq_clt_nonce h) c n \<and>
    conn_only (rq_clt_nonce h) c w (w3\<lparr>out := out w3 @ [(c, pkt)], heap := (heap w3)(c \<mapsto> k\<lparr>c_refno := c_refno k - 1\<rparr>)\<rparr>)" if "conn_live w (rq_clt_nonce h) c (n + 1)" for n
    using w1(11) [OF that] w1(8,9) w2(6,7) by (auto simp: conn_live_def conn_only_def w3_def)
  moreover have "held_step (rq_clt_nonce h) c n w
      (w3\<lparr>out := out w3 @ [(c, pkt)], heap := (heap w3)(c \<mapsto> k\<lparr>c_refno := c_refno k - 1\<rparr>)\<rparr>)"
    if "conn_held w (rq_clt_nonce h) c (n + 1)" "1 \<le> n" for n
    by (rule held_release [OF w1(12) [OF that(1)] w1(8) that(2)]) (use that(2) w2(6,7) in \<open>simp_all add: w3_def\<close>)
  ultimately show ?thesis
    using w1 w2 by (intro that [of "w3\<lparr>out := out w3 @ [(c, pkt)], heap := (heap w3)(c \<mapsto> k\<lparr>c_refno := c_refno k - 1\<rparr>)\<rparr>" pkt])
      (simp_all add: w3_def same_server_def)
qed

text \<open>A request seen before is answered without being executed: with the recorded bytes, or, when the client has
  acknowledged the reply, with an error. Nothing changes.\<close>

lemma dispatch_seen:
  assumes req: "carries_request b sz h args" and sv: "servable w h f" and conn: "conn_ready w (rq_clt_nonce h) c"
    and dup: "checkduplicate_and_update (sv_reply_window (srv w)) (rq_clt_nonce h) (rq_xid h) (rq_xid_rep h) = (st, win)"
    and st: "st = DONE pkt \<or> st = FORGOTTEN \<and> header_reply mem (rq_xid h) atmostonce_failure = Inr pkt"
  obtains w' where "dispatch mem c b sz w = Inr w'" "app w' = app w" "out w' = out w @ [(c, pkt)]" "same_server w w' win"
    "\<And>n. conn_held w (rq_clt_nonce h) c (n + 1) \<Longrightarrow> 1 \<le> n \<Longrightarrow> held_step (rq_clt_nonce h) c n w w'"
proof -
  obtain w1 u k where w1: "dispatch_admit mem c b sz w = Inr (Some (h, u, f, st), w1)"
    "u_inv u" "u_ok u" "u_rest u = args" "same_server w w1 win" "app w1 = app w" "out w1 = out w"
    "heap w1 c = Some k" "\<not> c_dead k" "c_refno k \<ge> 1"
    "\<And>n. conn_live w (rq_clt_nonce h) c n \<Longrightarrow> conn_live w1 (rq_clt_nonce h) c n \<and> conn_only (rq_clt_nonce h) c w w1"
    "\<And>n. conn_held w (rq_clt_nonce h) c n \<Longrightarrow> 1 \<le> n \<Longrightarrow> held_step (rq_clt_nonce h) c n w w1"
    by (rule admit_ok [OF req sv conn dup]) (rule that)
  have held: "held_step (rq_clt_nonce h) c n w
      (w1\<lparr>out := out w1 @ [(c, pkt)], heap := (heap w1)(c \<mapsto> k\<lparr>c_refno := c_refno k - 1\<rparr>)\<rparr>)"
    if "conn_held w (rq_clt_nonce h) c (n + 1)" "1 \<le> n" for n
    by (rule held_release [OF w1(12) [OF that(1)] w1(8) that(2)]) (use that(2) in simp_all)
  from w1 have "dispatch mem c b sz w =
      Inr (w1\<lparr>out := out w1 @ [(c, pkt)], heap := (heap w1)(c \<mapsto> k\<lparr>c_refno := c_refno k - 1\<rparr>)\<rparr>)"
    using send_release [OF w1(8-10)] st by (auto simp: dispatch_def dispatch_switch_def)
  then show ?thesis
    using w1 held by (intro that [of "w1\<lparr>out := out w1 @ [(c, pkt)], heap := (heap w1)(c \<mapsto> k\<lparr>c_refno := c_refno k - 1\<rparr>)\<rparr>"])
      (simp_all add: same_server_def)
qed

lemmas dispatch_duplicate = dispatch_seen [OF _ _ _ _ disjI1 [OF refl]]

lemma checkdup_answered:
  assumes inv: "win_inv A win" and new: "checkduplicate_and_update win clt xid rep = (NEW, win1)" and rep: "rep \<le> xid"
  shows "checkduplicate_and_update (add_reply win1 clt xid pkt) clt xid rep' = (DONE pkt, add_reply win1 clt xid pkt)"
proof -
  obtain l1 where l1: "check_list xid rep (window_of win clt) = (NEW, l1)" "win1 = win(clt \<mapsto> l1)"
    using new by (auto simp: checkduplicate_and_update_def split: prod.splits)
  have inv0: "list_inv {x. (clt, x) \<in> A} (window_of win clt)" using inv by (simp add: win_inv_def)
  obtain r where r: "r \<in> set l1" "r_xid r = xid" using check_new(3) [OF inv0 l1(1) rep] by blast
  define l2 where "l2 = map (\<lambda>r. if r_xid r = xid then r\<lparr>r_buf := pkt, cb_present := True\<rparr> else r) l1"
  let ?r = "r\<lparr>r_buf := pkt, cb_present := True\<rparr>"
  have "list_inv (insert xid {x. (clt, x) \<in> A}) l2"
    unfolding l2_def by (intro list_inv_answer check_new(2) [OF inv0 l1(1) rep])
  then have "sorted_wrt (<) (map r_xid l2)" by (simp add: list_inv_def)
  moreover have "?r \<in> set l2" using r by (force simp: l2_def)
  ultimately have st: "fst (check_list (r_xid ?r) rep' l2) = DONE pkt"
    using check_done [of l2 ?r rep'] by simp
  have "check_list xid rep' l2 = (DONE pkt, l2)"
    using st check_other [of xid rep' l2] r(2) by (cases "check_list xid rep' l2") auto
  then show ?thesis by (simp add: checkduplicate_and_update_def add_reply_def l1(2) l2_def)
qed

text \<open>Requests that are not served.\<close>

lemma header_reply_ok:
  obtains pkt where "header_reply mem xid ret = Inr pkt"
    "carries_reply ((!) pkt) (int (length pkt)) \<lparr>rp_xid = xid, rp_ret = word_of_int ret\<rparr> []"
proof -
  let ?m = "marshall_new mem" and ?h = "\<lparr>rp_xid = xid, rp_ret = word_of_int ret\<rparr>"
  have m: "m_inv ?m" "get_content ?m = []" "m_ind ?m < 2 ^ 31"
    using marshall_new_inv [of mem] by (simp_all add: marshall_new_def rpc_sizes)
  obtain m' b where m': "pack_reply_header ?m ?h = Inr m'" "m_buf m' = Some b" "m_inv m'"
    "carries_reply b (m_ind m') ?h (get_content ?m)"
    by (rule pack_reply_carries [OF m(1,3), of ?h]) (rule that)
  have "int (length (packet m')) = m_ind m'" using m'(3) by (simp add: packet_def m_inv_def rpc_sizes)
  then show ?thesis
    using carries_list [OF m'(4) [unfolded carries_reply_def]] m' m(2)
    by (intro that [of "packet m'"]) (simp_all add: header_reply_def carries_reply_def packet_def)
qed

lemma dispatch_old_server:
  assumes req: "carries_request b sz h args" and old: "rq_srv_nonce h \<noteq> 0" "rq_srv_nonce h \<noteq> sv_nonce (srv w)"
    and c: "heap w c = Some k" "\<not> c_dead k"
  obtains pkt where "dispatch mem c b sz w = Inr (w\<lparr>out := out w @ [(c, pkt)]\<rparr>)"
    "carries_reply ((!) pkt) (int (length pkt)) \<lparr>rp_xid = rq_xid h, rp_ret = word_of_int oldsrv_failure\<rparr> []"
proof -
  obtain u where u: "unpack_req_header (unmarshall_new b sz) = Inr (h, u)" "u_ok u"
    by (rule unpack_request [OF req]) (rule that)
  obtain pkt where pkt: "header_reply mem (rq_xid h) oldsrv_failure = Inr pkt"
    "carries_reply ((!) pkt) (int (length pkt)) \<lparr>rp_xid = rq_xid h, rp_ret = word_of_int oldsrv_failure\<rparr> []"
    by (rule header_reply_ok)
  then show ?thesis
    using u old c by (intro that [of pkt]) (simp_all add: dispatch_def dispatch_admit_def conn_send_def deref_def)
qed

text \<open>A request that is executed once is answered with the same bytes ever after, from whatever connection and
  however its copy claims to be acknowledged.\<close>

lemma dispatch_once:
  assumes req: "carries_request b sz h args" and sv: "servable w h f" and conn: "conn_ready w (rq_clt_nonce h) c"
    and win: "win_inv A (sv_reply_window (srv w))" and rep: "rq_xid_rep h \<le> rq_xid h"
    and new: "fst (checkduplicate_and_update (sv_reply_window (srv w)) (rq_clt_nonce h) (rq_xid h) (rq_xid_rep h)) = NEW"
    and f: "handler_gives f args (app w) ret res s'" and ret: "0 \<le> ret"
  shows "\<exists>w1 pkt. dispatch mem c b sz w = Inr w1 \<and> app w1 = s' \<and> out w1 = out w @ [(c, pkt)] \<and>
    carries_reply ((!) pkt) (int (length pkt)) \<lparr>rp_xid = rq_xid h, rp_ret = word_of_int ret\<rparr> res \<and>
    win_inv (insert (rq_clt_nonce h, rq_xid h) A) (sv_reply_window (srv w1)) \<and>
    (\<forall>c2 b2 sz2 rep2. carries_request b2 sz2 (h\<lparr>rq_xid_rep := rep2\<rparr>) args \<longrightarrow> conn_ready w1 (rq_clt_nonce h) c2 \<longrightarrow>
       (\<exists>w2. dispatch mem c2 b2 sz2 w1 = Inr w2 \<and> app w2 = app w1 \<and> out w2 = out w1 @ [(c2, pkt)]))"
proof -
  define clt xid where "clt = rq_clt_nonce h" and "xid = rq_xid h"
  obtain win1 where chk: "checkduplicate_and_update (sv_reply_window (srv w)) clt xid (rq_xid_rep h) = (NEW, win1)"
    using new by (cases "checkduplicate_and_update (sv_reply_window (srv w)) clt xid (rq_xid_rep h)")
      (simp add: clt_def xid_def)
  obtain w1 pkt where w1: "dispatch mem c b sz w = Inr w1" "app w1 = s'" "out w1 = out w @ [(c, pkt)]"
    "carries_reply ((!) pkt) (int (length pkt)) \<lparr>rp_xid = rq_xid h, rp_ret = word_of_int ret\<rparr> res"
    "same_server w w1 (add_reply win1 clt xid pkt)"
    by (rule dispatch_new [OF req sv conn chk [unfolded clt_def xid_def] f ret, of mem])
       (rule that, simp_all add: clt_def xid_def)
  have inv1: "win_inv (insert (clt, xid) A) (add_reply win1 clt xid pkt)"
    using rw.admit_new [OF win chk] rep by (auto simp: xid_def intro: rw.keep_answer)
  have again: "\<exists>w2. dispatch mem c2 b2 sz2 w1 = Inr w2 \<and> app w2 = app w1 \<and> out w2 = out w1 @ [(c2, pkt)]"
    if r2: "carries_request b2 sz2 (h\<lparr>rq_xid_rep := rep2\<rparr>) args" and c2: "conn_ready w1 clt c2" for c2 b2 sz2 rep2
  proof -
    let ?h = "h\<lparr>rq_xid_rep := rep2\<rparr>"
    have sv2: "servable w1 ?h f" using sv w1(5) by (simp add: servable_def same_server_def)
    have c2': "conn_ready w1 (rq_clt_nonce ?h) c2" using c2 by (simp add: clt_def)
    have "checkduplicate_and_update (sv_reply_window (srv w1)) (rq_clt_nonce ?h) (rq_xid ?h) (rq_xid_rep ?h) =
        (DONE pkt, add_reply win1 clt xid pkt)"
      using checkdup_answered [OF win chk, of pkt rep2] rep w1(5) by (simp add: xid_def clt_def same_server_def)
    from dispatch_duplicate [OF r2 sv2 c2' this, of mem] show ?thesis by blast
  qed
  show ?thesis
    using w1 inv1 again by (intro exI [of _ w1] exI [of _ pkt]) (simp add: clt_def xid_def same_server_def)
qed

end
