(* ===== verification/Extent_Rpc.thy ===== *)
theory Extent_Rpc
  imports Rpc_Server
begin

text \<open>
  The extent server behind the RPC library (\<open>extent_smain.cc\<close>): the methods of \<open>extent_server\<close> registered under
  the numbers of \<open>extent_protocol.h\<close>. Each procedure is shown to satisfy the contract of a handler, so a
  request packet changes the file system exactly as the call does, once, however often the packet
  arrives. There is no procedure for \<open>create\<close>.
\<close>

section \<open>Methods as handlers\<close>

text \<open>\<open>put\<close> and \<open>remove\<close> leave their \<open>int &\<close> result as it is.\<close>

definition es_get :: "extent_server \<Rightarrow> u64 \<Rightarrow> byte list \<Rightarrow> (int \<times> byte list \<times> extent_server) res" where
  "es_get es eid r = bindE (extent_server_get es eid) (\<lambda>(b, buf). Inr (b, buf, es))"

definition es_getattr :: "extent_server \<Rightarrow> u64 \<Rightarrow> attr \<Rightarrow> (int \<times> attr \<times> extent_server) res" where
  "es_getattr es eid r = bindE (extent_server_getattr es eid) (\<lambda>(b, a). Inr (b, a, es))"

definition es_put ::
  "(nat \<Rightarrow> byte) \<Rightarrow> extent_server \<Rightarrow> u64 \<Rightarrow> byte list \<Rightarrow> u32 \<Rightarrow> (int \<times> u32 \<times> extent_server) res" where
  "es_put junk es eid buf r = bindE (extent_server_put junk es eid buf) (\<lambda>(b, es). Inr (b, r, es))"

definition es_remove :: "extent_server \<Rightarrow> u64 \<Rightarrow> u32 \<Rightarrow> (int \<times> u32 \<times> extent_server) res" where
  "es_remove es eid r = bindE (extent_server_remove es eid) (\<lambda>(b, es). Inr (b, r, es))"

text \<open>The handlers that \<open>reg\<close> builds; \<open>r0\<close> is an uninitialised \<open>int\<close> and \<open>a0\<close> an uninitialised record.\<close>

definition h_get :: "extent_server handler" where
  "h_get = handler1 get_u64 put_string [] es_get"

definition h_getattr :: "attr \<Rightarrow> extent_server handler" where
  "h_getattr a0 = handler1 get_u64 put_attr a0 es_getattr"

definition h_put :: "(nat \<Rightarrow> byte) \<Rightarrow> u32 \<Rightarrow> extent_server handler" where
  "h_put junk r0 = handler2 get_u64 (\<lambda>u. get_string u []) put_u32 r0 (es_put junk)"

definition h_remove :: "u32 \<Rightarrow> extent_server handler" where
  "h_remove r0 = handler1 get_u64 put_u32 r0 es_remove"

definition extent_reg ::
  "(nat \<Rightarrow> byte) \<Rightarrow> u32 \<Rightarrow> attr \<Rightarrow> extent_server rpcs \<Rightarrow> extent_server rpcs res" where
  "extent_reg junk r0 a0 s =
     bindE (reg1 GET h_get s) (\<lambda>s. bindE (reg1 GETATTR (h_getattr a0) s) (\<lambda>s.
     bindE (reg1 PUT (h_put junk r0) s) (reg1 REMOVE (h_remove r0))))"

text \<open>\<open>main\<close> of \<open>extent_smain.cc\<close> up to its sleep loop; \<open>None\<close>: the constructor of the inode manager exits.\<close>

definition extent_smain ::
  "(nat \<Rightarrow> byte) \<Rightarrow> u32 \<Rightarrow> attr \<Rightarrow> u32 \<Rightarrow> int \<Rightarrow> extent_server world option res" where
  "extent_smain junk r0 a0 nonce count =
     bindE (rpcs_new nonce r0 count) (\<lambda>s. bindE extent_server_new (\<lambda>r.
       case r of
         None \<Rightarrow> Inr None
       | Some es \<Rightarrow> bindE (extent_reg junk r0 a0 s)
           (\<lambda>s. Inr (Some \<lparr>srv = s, heap = Map.empty, app = es, out = []\<rparr>))))"

section \<open>The table of procedures\<close>

definition extent_procs :: "(nat \<Rightarrow> byte) \<Rightarrow> u32 \<Rightarrow> attr \<Rightarrow> u32 \<Rightarrow> u32 \<rightharpoonup> extent_server handler" where
  "extent_procs junk r0 a0 nonce =
     [RPC_BIND \<mapsto> handler1 get_u32 put_u32 r0 (rpcbind nonce), GET \<mapsto> h_get, GETATTR \<mapsto> h_getattr a0,
      PUT \<mapsto> h_put junk r0, REMOVE \<mapsto> h_remove r0]"

lemmas proc_defs = RPC_BIND_def GET_def GETATTR_def PUT_def REMOVE_def

lemma smain_ok:
  obtains w where "extent_smain junk r0 a0 nonce count = Inr (Some w)"
    "sv_procs (srv w) = extent_procs junk r0 a0 nonce" "sv_nonce (srv w) = nonce"
    "sv_reply_window (srv w) = Map.empty" "sv_conns (srv w) = Map.empty" "sv_counting (srv w) = count"
    "heap w = Map.empty" "out w = []"
    "store_inv \<lparr>ec_es = app w\<rparr>" "store_view \<lparr>ec_es = app w\<rparr> = [1 \<mapsto> (1, [])]"
    "store_free \<lparr>ec_es = app w\<rparr> = BLOCK_NUM - DATA_START" "sv_reachable (srv w)"
proof -
  obtain ec where ec: "extent_client_new = Inr (Some ec)" "store_inv ec" "store_view ec = [1 \<mapsto> (1, [])]"
    "store_free ec = BLOCK_NUM - DATA_START"
    by (rule extent_client_new_ok)
  then have es: "extent_server_new = Inr (Some (ec_es ec))"
    by (auto simp: extent_client_new_def fault_simps)
  define s :: "extent_server rpcs" where
    "s = \<lparr>sv_nonce = nonce, sv_reply_window = Map.empty, sv_conns = Map.empty, sv_counting = count,
        sv_curr_counts = count, sv_counts = (\<lambda>_. 0), sv_reachable = True,
        sv_procs = [RPC_BIND \<mapsto> handler1 get_u32 put_u32 r0 (rpcbind nonce)]\<rparr>"
  have new: "rpcs_new nonce r0 count = Inr s"
    by (simp add: rpcs_new_def reg1_def s_def)
  have reg: "extent_reg junk r0 a0 s = Inr (s\<lparr>sv_procs := extent_procs junk r0 a0 nonce\<rparr>)"
    by (simp add: extent_reg_def reg1_def s_def extent_procs_def proc_defs)
  let ?w = "\<lparr>srv = s\<lparr>sv_procs := extent_procs junk r0 a0 nonce\<rparr>, heap = Map.empty, app = ec_es ec, out = []\<rparr>"
  have "extent_smain junk r0 a0 nonce count = Inr (Some ?w)"
    using new reg by (simp add: extent_smain_def es)
  then show ?thesis
    using ec(2-4) [unfolded store_defs] by (intro that [of ?w]) (simp_all add: s_def store_defs)
qed

section \<open>Every procedure keeps its contract\<close>

lemma get_gives:
  assumes "store_inv \<lparr>ec_es = es\<rparr>" "store_view \<lparr>ec_es = es\<rparr> (key eid) = Some (t, d)"
    "int (length d) + 28 \<le> MAX_MSG"
  shows "handler_gives h_get (be64 eid) es OK (enc_string d) es"
proof -
  have "es_get es eid [] = Inr (OK, d, es)"
    using ec.get_law [OF assms(1), of eid] assms(2)
    by (auto simp: es_get_def extent_client_get_def fault_simps)
  then show ?thesis
    unfolding h_get_def using assms(3)
    by (intro handler1_gives [OF c_u64.codec_axioms c_string.codec_axioms])
       (simp_all add: MAX_MSG_def be64_def enc_string_def rpc_sizes)
qed

lemma getattr_gives:
  assumes "store_inv \<lparr>ec_es = es\<rparr>"
  shows "\<exists>a. handler_gives (h_getattr a0) (be64 eid) es OK (concat (map be32 (attr_words a))) es \<and>
    (case store_view \<lparr>ec_es = es\<rparr> (key eid) of None \<Rightarrow> a = attr_zero
     | Some (t, d) \<Rightarrow> a_type a = scast t \<and> unat (a_size a) = length d)"
proof -
  obtain a where a: "extent_client_getattr \<lparr>ec_es = es\<rparr> eid = Inr (OK, a)"
    "case store_view \<lparr>ec_es = es\<rparr> (key eid) of None \<Rightarrow> a = attr_zero
     | Some (t, d) \<Rightarrow> a_type a = scast t \<and> unat (a_size a) = length d"
    using ec.getattr_law [OF assms] by blast
  have "es_getattr es eid a0 = Inr (OK, a, es)"
    using a(1) by (auto simp: es_getattr_def extent_client_getattr_def fault_simps)
  then have "handler_gives (h_getattr a0) (be64 eid) es OK (concat (map be32 (attr_words a))) es"
    unfolding h_getattr_def
    by (intro handler1_gives [OF c_u64.codec_axioms c_attr.codec_axioms])
       (simp_all add: MAX_MSG_def be64_def attr_words_def rpc_sizes)
  with a(2) show ?thesis by blast
qed

lemma put_gives:
  assumes "extent_client_put junk \<lparr>ec_es = es\<rparr> eid buf = Inr (OK, \<lparr>ec_es = es'\<rparr>)" "length buf \<le> MAXBYTES"
  shows "handler_gives (h_put junk r0) (be64 eid @ enc_string buf) es OK (be32 r0) es'"
proof -
  have "es_put junk es eid buf r0 = Inr (OK, r0, es')"
    using assms(1) by (auto simp: es_put_def extent_client_put_def fault_simps)
  then have "handler_gives (h_put junk r0) ((\<lambda>(x, y). be64 x @ enc_string y) (eid, buf)) es OK (be32 r0) es'"
    unfolding h_put_def handler2_pair using assms(2)
    by (intro handler1_gives [OF pair_codec [OF c_u64.codec_axioms c_string.codec_axioms] c_u32.codec_axioms])
       (simp_all add: MAX_MSG_def be64_def enc_string_def rpc_sizes MAXBYTES_value)
  then show ?thesis by simp
qed

lemma remove_gives:
  assumes "extent_client_remove \<lparr>ec_es = es\<rparr> eid = Inr (OK, \<lparr>ec_es = es'\<rparr>)"
  shows "handler_gives (h_remove r0) (be64 eid) es OK (be32 r0) es'"
proof -
  have "es_remove es eid r0 = Inr (OK, r0, es')"
    using assms by (auto simp: es_remove_def extent_client_remove_def fault_simps)
  then show ?thesis
    unfolding h_remove_def
    by (intro handler1_gives [OF c_u64.codec_axioms c_u32.codec_axioms])
       (simp_all add: MAX_MSG_def be64_def rpc_sizes)
qed

lemma bind_gives: "handler_gives (handler1 get_u32 put_u32 r0 (rpcbind nonce)) (be32 a) s 0 (be32 nonce) s"
  by (intro handler1_gives [OF c_u32.codec_axioms c_u32.codec_axioms])
     (simp_all add: MAX_MSG_def rpc_sizes rpcbind_def)

end
