(* ===== verification/Xid_Window.thy ===== *)
theory Xid_Window
  imports Prelude
begin

text \<open>
  \<open>rpcc::update_xid_rep\<close>: the client's window of the request numbers it needs no reply for any more. Its
  front is what the client tells the server in every request. The main lemma says what the front is: the
  largest number such that every request up to it is answered, in whatever order the answers came and
  however often they were repeated.
\<close>

section \<open>The code\<close>

text \<open>The first loop inserts before the first greater element.\<close>

fun insert_xid :: "u32 \<Rightarrow> u32 list \<Rightarrow> u32 list" where
  "insert_xid xid [] = [xid]"
| "insert_xid xid (x # xs) = (if x > xid then xid # x # xs else x # insert_xid xid xs)"

text \<open>The second loop: \<open>pre\<close> is the part of the list before the iterator. The inner loop pops from the front,
  which is in \<open>pre\<close>, or is the element under the iterator itself, where the condition is false.\<close>

fun compress :: "u32 list \<Rightarrow> u32 list \<Rightarrow> u32 list" where
  "compress pre [] = pre"
| "compress pre (x # post) = compress (dropWhile (\<lambda>f. f + 1 = x) pre @ [x]) post"

definition update_xid_rep :: "u32 \<Rightarrow> u32 list \<Rightarrow> u32 list" where
  "update_xid_rep xid window =
     (if xid \<le> hd window then window
      else case insert_xid xid window of [] \<Rightarrow> [] | x # xs \<Rightarrow> compress [x] xs)"

section \<open>Insertion\<close>

lemma set_insert_xid [simp]: "set (insert_xid x xs) = insert x (set xs)"
  by (induction xs) auto

lemma sorted_insert_xid: "sorted xs \<Longrightarrow> sorted (insert_xid x xs)"
  by (induction xs) auto

lemma hd_insert_xid: "xs \<noteq> [] \<Longrightarrow> hd xs < x \<Longrightarrow> hd (insert_xid x xs) = hd xs"
  by (cases xs) auto

section \<open>Compression\<close>

lemma next_word: "(f :: u32) \<le> x \<Longrightarrow> x \<le> f + 1 \<Longrightarrow> f \<le> f + 1 \<Longrightarrow> x = f \<or> x = f + 1"
proof -
  assume a: "f \<le> x" "x \<le> f + 1" "f \<le> f + 1"
  have "unat (f + 1) = (unat f + 1) mod 2 ^ 32" by (simp add: unat_word_ariths)
  moreover have "unat f + 1 \<noteq> 2 ^ 32"
    using calculation a(3) by (auto simp: word_le_nat_alt)
  ultimately have "unat (f + 1) = Suc (unat f)"
    using unat_u32_bound [of f] by simp
  with a show "x = f \<or> x = f + 1"
    by (auto simp: word_le_nat_alt u32_eq_iff)
qed

lemma sorted_hd_le: "sorted xs \<Longrightarrow> y \<in> set xs \<Longrightarrow> hd xs \<le> y"
  by (cases xs) auto

text \<open>What the loop keeps: the list is sorted and its front's successor is not among the elements passed.\<close>

lemma compress_spec:
  assumes "sorted (pre @ post)" "pre \<noteq> []" "hd pre + 1 \<notin> set pre" "r = compress pre post"
  shows "r \<noteq> [] \<and> sorted r \<and> hd r + 1 \<notin> set r \<and> hd pre \<le> hd r \<and>
    (\<forall>x. hd pre \<le> x \<and> x \<le> hd r \<longrightarrow> x \<in> set (pre @ post)) \<and>
    set r = {x \<in> set (pre @ post). hd r \<le> x}"
  using assms
proof (induction pre post arbitrary: r rule: compress.induct)
  case (1 pre)
  then have "\<forall>x\<in>set pre. hd pre \<le> x" by (cases pre) auto
  with 1 show ?case by auto
next
  case (2 pre x post)
  let ?f = "hd pre"
  obtain pre' where pre: "pre = ?f # pre'" using "2.prems"(2) by (cases pre) auto
  have spre: "sorted pre" and le: "\<forall>y\<in>set pre. y \<le> x"
    using "2.prems"(1) by (auto simp: sorted_append)
  have ge: "?f \<le> y" if "y \<in> set pre" for y
    using spre that by (rule sorted_hd_le)
  have fx: "?f \<le> x" using le "2.prems"(2) by simp
  show ?case
  proof (cases "?f + 1 = x")
    case True
    have all: "\<forall>y\<in>set pre. y = ?f"
    proof
      fix y assume y: "y \<in> set pre"
      then have "y = ?f \<or> y = ?f + 1"
        using ge [OF y] le fx True by (intro next_word) auto
      with y "2.prems"(3) show "y = ?f" by auto
    qed
    then have drop: "dropWhile (\<lambda>f. f + 1 = x) pre = []"
      using True by (auto simp: dropWhile_eq_Nil_conv)
    have r: "r = compress [x] post" using "2.prems"(4) drop by simp
    have srt: "sorted ([x] @ post)" using "2.prems"(1) by (simp add: sorted_append)
    have xx: "hd [x] + 1 \<notin> set [x]" by simp
    have IH: "r \<noteq> [] \<and> sorted r \<and> hd r + 1 \<notin> set r \<and> x \<le> hd r \<and>
      (\<forall>y. x \<le> y \<and> y \<le> hd r \<longrightarrow> y \<in> set (x # post)) \<and> set r = {y \<in> set (x # post). hd r \<le> y}"
      using "2.IH" [unfolded drop append_Nil, OF srt _ xx r] by (simp only: list.sel(1) append_Cons append_Nil) blast
    have "?f \<noteq> x" using True by auto
    with fx have fx: "?f < x" by simp
    then have "\<forall>y\<in>set pre. \<not> hd r \<le> y" using all IH by auto
    moreover have "y \<in> set (pre @ x # post)" if "?f \<le> y" "y \<le> hd r" for y
    proof (cases "x \<le> y")
      case True
      then show ?thesis using IH that by auto
    next
      case False
      then have "y \<le> ?f + 1" "y \<noteq> ?f + 1" using \<open>?f + 1 = x\<close> by auto
      then have "y = ?f" using next_word [of ?f y] \<open>?f + 1 = x\<close> that(1) fx by auto
      then show ?thesis using "2.prems"(2) by simp
    qed
    ultimately show ?thesis using IH fx by auto
  next
    case False
    then have drop: "dropWhile (\<lambda>f. f + 1 = x) pre = pre" by (cases pre) simp_all
    have h: "hd (pre @ [x]) = ?f" using "2.prems"(2) by simp
    have nin: "hd (pre @ [x]) + 1 \<notin> set (pre @ [x])"
      using h False "2.prems"(3) by auto
    have eq: "(pre @ [x]) @ post = pre @ x # post" by simp
    have srt: "sorted ((pre @ [x]) @ post)" using "2.prems"(1) by simp
    have r: "r = compress (pre @ [x]) post" using "2.prems"(4) drop by simp
    have "pre @ [x] \<noteq> []" by simp
    from "2.IH" [unfolded drop, OF srt this nin r] show ?thesis unfolding h eq .
  qed
qed

section \<open>What the window means\<close>

text \<open>\<open>R\<close> is the set of request numbers reported so far: the front \<open>w\<close> covers a full initial run of them,
  which cannot be extended, and the rest of the list holds those beyond.\<close>

definition window_inv :: "u32 set \<Rightarrow> u32 list \<Rightarrow> bool" where
  "window_inv R win \<longleftrightarrow> win \<noteq> [] \<and> sorted win \<and> hd win + 1 \<notin> set win \<and>
     (\<forall>x. 1 \<le> x \<and> x \<le> hd win \<longrightarrow> x \<in> R) \<and> {x \<in> R. hd win < x} = {x \<in> set win. hd win < x}"

lemma window_init: "window_inv {} [0]"
  by (auto simp: window_inv_def word_le_nat_alt)

lemma update_keeps:
  assumes inv: "window_inv R win"
  shows "window_inv (insert xid R) (update_xid_rep xid win)" "hd win \<le> hd (update_xid_rep xid win)"
proof -
  have w: "win \<noteq> []" "sorted win" "hd win + 1 \<notin> set win" "\<forall>x. 1 \<le> x \<and> x \<le> hd win \<longrightarrow> x \<in> R"
    "{x \<in> R. hd win < x} = {x \<in> set win. hd win < x}"
    using inv by (simp_all add: window_inv_def)
  have w5: "x \<in> R \<longleftrightarrow> x \<in> set win" if "hd win < x" for x
    using w(5) that by blast
  have "window_inv (insert xid R) (update_xid_rep xid win) \<and> hd win \<le> hd (update_xid_rep xid win)"
  proof (cases "xid \<le> hd win")
    case True
    then show ?thesis using inv by (auto simp: update_xid_rep_def window_inv_def)
  next
    case False
    have "insert_xid xid win = hd win # tl (insert_xid xid win)"
    proof -
      have "insert_xid xid win \<noteq> []" by (cases win) auto
      moreover have "hd (insert_xid xid win) = hd win" using w(1) False by (intro hd_insert_xid) auto
      ultimately show ?thesis by (metis list.collapse)
    qed
    then obtain xs where ins: "insert_xid xid win = hd win # xs" by blast
    define r where "r = compress [hd win] xs"
    have "sorted ([hd win] @ xs)" using sorted_insert_xid [OF w(2), of xid] by (simp add: ins)
    from compress_spec [OF this _ _ r_def] have r: "r \<noteq> []" "sorted r" "hd r + 1 \<notin> set r" "hd win \<le> hd r"
      "\<forall>x. hd win \<le> x \<and> x \<le> hd r \<longrightarrow> x \<in> set (hd win # xs)" "set r = {x \<in> set (hd win # xs). hd r \<le> x}"
      by auto
    have set: "set (hd win # xs) = insert xid (set win)"
      using set_insert_xid [of xid win] by (simp only: ins)
    have "x \<in> insert xid R" if "1 \<le> x" "x \<le> hd r" for x
    proof (cases "x \<le> hd win")
      case True
      with w(4) that show ?thesis by simp
    next
      case False
      then have "x \<in> set (hd win # xs)" using r(5) that by auto
      then have "x \<in> insert xid (set win)" unfolding set .
      with False w5 [of x] show ?thesis by (auto simp: not_le)
    qed
    moreover have "{x \<in> insert xid R. hd r < x} = {x \<in> set r. hd r < x}"
      unfolding r(6) set using w5 r(4) by (auto dest: order_le_less_trans)
    moreover have "update_xid_rep xid win = r"
      using False by (simp add: update_xid_rep_def ins r_def)
    ultimately show ?thesis using r by (simp add: window_inv_def)
  qed
  then show "window_inv (insert xid R) (update_xid_rep xid win)" "hd win \<le> hd (update_xid_rep xid win)"
    by simp_all
qed

lemma window_front:
  assumes "window_inv R win" "1 \<le> x" "x \<le> hd win"
  shows "x \<in> R"
  using assms by (simp add: window_inv_def)

lemma window_maximal:
  assumes "window_inv R win" "hd win < hd win + 1"
  shows "hd win + 1 \<notin> R"
  using assms by (auto simp: window_inv_def)

lemma update_all:
  "window_inv (set xids) (foldl (\<lambda>win xid. update_xid_rep xid win) [0] xids)"
proof -
  have "window_inv (R \<union> set xids) (foldl (\<lambda>win xid. update_xid_rep xid win) win xids)"
    if "window_inv R win" for R win
    using that
  proof (induction xids arbitrary: R win)
    case (Cons x xids)
    from Cons.IH [OF update_keeps(1) [OF Cons.prems, of x]] show ?case by simp
  qed simp
  from this [OF window_init] show ?thesis by simp
qed

end
