(* ===== verification/Timespec.thy ===== *)
theory Timespec
  imports Prelude "HOL-Library.Signed_Division"
begin

text \<open>
  The functions on \<open>struct timespec\<close> at the end of \<open>rpc.cc\<close>, with which the client computes its
  deadlines. Seconds and nanoseconds are 64-bit in the code and far from overflow; \<open>ns\<close> is the time
  a value stands for, in nanoseconds.
\<close>

record timespec =
  tv_sec :: int
  tv_nsec :: int

definition cmp_timespec :: "timespec \<Rightarrow> timespec \<Rightarrow> int" where
  "cmp_timespec a b =
     (if tv_sec a > tv_sec b then 1
      else if tv_sec a < tv_sec b then -1
      else if tv_nsec a > tv_nsec b then 1
      else if tv_nsec a < tv_nsec b then -1
      else 0)"

text \<open>The \<open>while\<close> loop of \<open>add_timespec\<close>.\<close>

function carry :: "timespec \<Rightarrow> timespec" where
  "carry r = (if tv_nsec r > 1000000000
              then carry (r\<lparr>tv_sec := tv_sec r + 1, tv_nsec := tv_nsec r - 1000000000\<rparr>) else r)"
  by auto
termination
  by (relation "measure (\<lambda>r. nat (tv_nsec r))") auto

definition add_timespec :: "timespec \<Rightarrow> int \<Rightarrow> timespec res" where
  "add_timespec a b =
     (let r = \<lparr>tv_sec = tv_sec a + b sdiv 1000, tv_nsec = tv_nsec a + (b smod 1000) * 1000000\<rparr>
      in bindE (VERIFY (tv_nsec r \<ge> 0)) (\<lambda>_. Inr (carry r)))"

definition diff_timespec :: "timespec \<Rightarrow> timespec \<Rightarrow> int res" where
  "diff_timespec end_t start =
     (let d = if tv_sec end_t > tv_sec start then (tv_sec end_t - tv_sec start) * 1000 else 0
      in bindE (VERIFY (d \<noteq> 0 \<or> tv_sec end_t = tv_sec start))
           (\<lambda>_. Inr (if tv_nsec end_t > tv_nsec start
                     then d + (tv_nsec end_t - tv_nsec start) sdiv 1000000
                     else d - (tv_nsec start - tv_nsec end_t) sdiv 1000000)))"

section \<open>Times as numbers\<close>

definition ns :: "timespec \<Rightarrow> int" where
  "ns t = tv_sec t * 1000000000 + tv_nsec t"

definition normal :: "timespec \<Rightarrow> bool" where
  "normal t \<longleftrightarrow> 0 \<le> tv_nsec t \<and> tv_nsec t < 1000000000"

declare carry.simps [simp del]

lemma carry_ns: "ns (carry r) = ns r"
  by (induction r rule: carry.induct) (subst carry.simps, simp add: ns_def algebra_simps)

lemma carry_bounds:
  assumes "0 \<le> tv_nsec r"
  shows "0 \<le> tv_nsec (carry r)" "tv_nsec (carry r) \<le> 1000000000"
  using assms by (induction r rule: carry.induct) (subst carry.simps, simp)+

lemma sdiv_smod_nonneg:
  fixes b :: int
  assumes "0 \<le> b"
  shows "b sdiv 1000 = b div 1000" "b smod 1000 = b mod 1000"
  using assms by (simp_all add: signed_divide_int_def signed_modulo_int_def sgn_if)

lemma add_timespec_ok:
  assumes "normal a" "0 \<le> b"
  obtains r where "add_timespec a b = Inr r" "ns r = ns a + b * 1000000" "0 \<le> tv_nsec r"
    "tv_nsec r \<le> 1000000000"
proof -
  let ?r = "\<lparr>tv_sec = tv_sec a + b sdiv 1000, tv_nsec = tv_nsec a + (b smod 1000) * 1000000\<rparr>"
  have n: "0 \<le> tv_nsec ?r"
    using assms by (simp add: normal_def sdiv_smod_nonneg)
  define q where "q = b div 1000"
  define m where "m = b mod 1000"
  have "b = q * 1000 + m" by (simp add: q_def m_def)
  then have "m * 1000000 + q * 1000000000 = b * 1000000" by simp
  then have "ns ?r = ns a + b * 1000000"
    using assms(2) by (simp add: ns_def sdiv_smod_nonneg algebra_simps q_def m_def)
  then show ?thesis
    using that [of "carry ?r"] n carry_bounds [OF n] carry_ns [of ?r]
    by (simp add: add_timespec_def Let_def)
qed

lemma cmp_timespec_ns:
  assumes "normal a" "normal b"
  shows "cmp_timespec a b = sgn (ns a - ns b)"
  using assms by (simp add: cmp_timespec_def ns_def normal_def sgn_if)

lemma diff_timespec_ok:
  assumes "normal a" "normal b" "ns b \<le> ns a"
  obtains d where "diff_timespec a b = Inr d" "\<bar>d * 1000000 - (ns a - ns b)\<bar> < 1000000"
proof -
  have sec: "tv_sec b \<le> tv_sec a"
    using assms by (simp add: normal_def ns_def)
  let ?x = "tv_nsec a - tv_nsec b"
  define q where "q = (if 0 < ?x then ?x div 1000000 else - ((- ?x) div 1000000))"
  have "diff_timespec a b = Inr ((tv_sec a - tv_sec b) * 1000 + q)"
    using sec by (auto simp: diff_timespec_def Let_def q_def signed_divide_int_def sgn_if)
  moreover have "\<bar>q * 1000000 - ?x\<bar> < 1000000"
    unfolding q_def by (auto simp: abs_if)
  ultimately show ?thesis
    using that [of "(tv_sec a - tv_sec b) * 1000 + q"] by (simp add: ns_def algebra_simps)
qed

end
