(* ===== verification/Rpc_Properties.thy ===== *)
theory Rpc_Properties
  imports Extent_Rpc Xid_Window Timespec
begin

text \<open>
  The properties of the RPC library's wire format, connections, at-most-once bookkeeping and server, and of
  the extent service on top of it.
\<close>

section \<open>The extent service over RPC\<close>

text \<open>The state an extent server is in between two requests.\<close>

definition service_ok :: "(nat \<Rightarrow> byte) \<Rightarrow> u32 \<Rightarrow> attr \<Rightarrow> (u32 \<times> u32) set \<Rightarrow> extent_server world \<Rightarrow> bool" where
  "service_ok junk r0 a0 A w \<longleftrightarrow>
     sv_procs (srv w) = extent_procs junk r0 a0 (sv_nonce (srv w)) \<and> win_inv A (sv_reply_window (srv w)) \<and>
     store_inv \<lparr>ec_es = app w\<rparr>"

text \<open>A request for this instance from a client with at-most-once semantics that has not been seen and is not
  older than everything the server remembers of that client.\<close>

definition fresh_request :: "(u32 \<times> u32) set \<Rightarrow> extent_server world \<Rightarrow> req_header \<Rightarrow> bool" where
  "fresh_request A w h \<longleftrightarrow>
     rq_clt_nonce h \<noteq> 0 \<and> (rq_srv_nonce h = 0 \<or> rq_srv_nonce h = sv_nonce (srv w)) \<and> rq_xid_rep h \<le> rq_xid h \<and>
     (rq_clt_nonce h, rq_xid h) \<notin> A \<and>
     (case window_of (sv_reply_window (srv w)) (rq_clt_nonce h) of [] \<Rightarrow> True | r # _ \<Rightarrow> r_xid r \<le> rq_xid h)"

lemma fresh_is_new:
  assumes "service_ok junk r0 a0 A w" "fresh_request A w h"
  shows "fst (checkduplicate_and_update (sv_reply_window (srv w)) (rq_clt_nonce h) (rq_xid h) (rq_xid_rep h)) = NEW"
proof -
  let ?l = "window_of (sv_reply_window (srv w)) (rq_clt_nonce h)"
  have "list_inv {x. (rq_clt_nonce h, x) \<in> A} ?l" "rq_xid h \<notin> {x. (rq_clt_nonce h, x) \<in> A}"
    "?l = [] \<or> r_xid (hd ?l) \<le> rq_xid h"
    using assms by (auto simp: service_ok_def fresh_request_def win_inv_def split: list.splits)
  from check_fresh [OF this, of "rq_xid_rep h"] show ?thesis
    by (auto simp: checkduplicate_and_update_def split: prod.splits)
qed

text \<open>One procedure of the service, for every request and its copies.\<close>

lemma service_once:
  assumes "service_ok junk r0 a0 A w" "fresh_request A w h" "conn_ready w (rq_clt_nonce h) c"
    "carries_request b sz h args" "extent_procs junk r0 a0 (sv_nonce (srv w)) (rq_proc h) = Some f"
    "handler_gives f args (app w) ret res s'" "0 \<le> ret"
  shows "\<exists>w1 pkt. dispatch mem c b sz w = Inr w1 \<and> app w1 = s' \<and> out w1 = out w @ [(c, pkt)] \<and>
    carries_reply ((!) pkt) (int (length pkt)) \<lparr>rp_xid = rq_xid h, rp_ret = word_of_int ret\<rparr> res \<and>
    win_inv (insert (rq_clt_nonce h, rq_xid h) A) (sv_reply_window (srv w1)) \<and>
    (\<forall>c2 b2 sz2 rep2. carries_request b2 sz2 (h\<lparr>rq_xid_rep := rep2\<rparr>) args \<longrightarrow> conn_ready w1 (rq_clt_nonce h) c2 \<longrightarrow>
       (\<exists>w2. dispatch mem c2 b2 sz2 w1 = Inr w2 \<and> app w2 = app w1 \<and> out w2 = out w1 @ [(c2, pkt)]))"
proof (rule dispatch_once [OF assms(4) _ assms(3) _ _ fresh_is_new [OF assms(1,2)] assms(6,7)])
  show "servable w h f" using assms(1,2,5) by (simp add: servable_def service_ok_def fresh_request_def)
  show "win_inv A (sv_reply_window (srv w))" "rq_xid_rep h \<le> rq_xid h"
    using assms(1,2) by (simp_all add: service_ok_def fresh_request_def)
qed

lemma extent_proc_lookup [simp]:
  "extent_procs junk r0 a0 nonce PUT = Some (h_put junk r0)" "extent_procs junk r0 a0 nonce GET = Some h_get"
  "extent_procs junk r0 a0 nonce REMOVE = Some (h_remove r0)"
  "extent_procs junk r0 a0 nonce GETATTR = Some (h_getattr a0)"
  "extent_procs junk r0 a0 nonce RPC_BIND = Some (handler1 get_u32 put_u32 r0 (rpcbind nonce))"
  by (simp_all add: extent_procs_def proc_defs)

text \<open>C20: A put request packet makes the server store the string under the identifier in the file system,
  exactly once: the reply with status 0 goes back on the connection the request came from, and every
  later copy of the request, on whatever connection, is answered with the same bytes and leaves the file
  system alone.\<close>

theorem rpc_put_exactly_once:
  assumes "service_ok junk r0 a0 A w" "fresh_request A w h" "conn_ready w (rq_clt_nonce h) c"
    "rq_proc h = PUT" "carries_request b sz h (be64 eid @ enc_string buf)"
    "store_view \<lparr>ec_es = app w\<rparr> (key eid) = Some (t, d)" "length buf \<le> MAXBYTES"
    "nown (nblk (length buf)) \<le> nown (nblk (length d)) + store_free \<lparr>ec_es = app w\<rparr>"
  shows "\<exists>w1 pkt. dispatch mem c b sz w = Inr w1 \<and> out w1 = out w @ [(c, pkt)] \<and>
    carries_reply ((!) pkt) (int (length pkt)) \<lparr>rp_xid = rq_xid h, rp_ret = 0\<rparr> (be32 r0) \<and>
    store_inv \<lparr>ec_es = app w1\<rparr> \<and>
    store_view \<lparr>ec_es = app w1\<rparr> = (store_view \<lparr>ec_es = app w\<rparr>)(key eid \<mapsto> (t, buf)) \<and>
    (\<forall>c2 b2 sz2 rep2. carries_request b2 sz2 (h\<lparr>rq_xid_rep := rep2\<rparr>) (be64 eid @ enc_string buf) \<longrightarrow>
       conn_ready w1 (rq_clt_nonce h) c2 \<longrightarrow>
       (\<exists>w2. dispatch mem c2 b2 sz2 w1 = Inr w2 \<and> app w2 = app w1 \<and> out w2 = out w1 @ [(c2, pkt)]))"
proof -
  have "store_inv \<lparr>ec_es = app w\<rparr>" using assms(1) by (simp add: service_ok_def)
  from ec.put_law [OF this assms(6-8), of junk] obtain ec' where
    ec': "extent_client_put junk \<lparr>ec_es = app w\<rparr> eid buf = Inr (OK, ec')" "store_inv ec'"
    "store_view ec' = (store_view \<lparr>ec_es = app w\<rparr>)(key eid \<mapsto> (t, buf))"
    by blast
  obtain es' where es': "ec' = \<lparr>ec_es = es'\<rparr>" by (cases ec') auto
  have "handler_gives (h_put junk r0) (be64 eid @ enc_string buf) (app w) OK (be32 r0) es'"
    using put_gives assms(7) ec'(1) es' by blast
  from service_once [OF assms(1-3,5) _ this, of mem] assms(4) ec'(2,3) es' show ?thesis
    by (auto simp: OK_def)
qed

text \<open>A running extent server with one client connection.\<close>

lemma running_service:
  obtains w where "service_ok junk r0 a0 {} w" "sv_nonce (srv w) = 77" "sv_reply_window (srv w) = Map.empty"
    "conn_ready w 5 1" "store_view \<lparr>ec_es = app w\<rparr> = [1 \<mapsto> (1, [])]"
    "store_free \<lparr>ec_es = app w\<rparr> = BLOCK_NUM - DATA_START"
proof -
  obtain w where w: "extent_smain junk r0 a0 77 0 = Inr (Some w)"
    "sv_procs (srv w) = extent_procs junk r0 a0 77" "sv_nonce (srv w) = 77"
    "sv_reply_window (srv w) = Map.empty" "sv_conns (srv w) = Map.empty" "sv_counting (srv w) = 0"
    "heap w = Map.empty" "out w = []"
    "store_inv \<lparr>ec_es = app w\<rparr>" "store_view \<lparr>ec_es = app w\<rparr> = [1 \<mapsto> (1, [])]"
    "store_free \<lparr>ec_es = app w\<rparr> = BLOCK_NUM - DATA_START"
    by (rule smain_ok) (rule that)
  let ?w = "w\<lparr>heap := [1 \<mapsto> incref (connection_new 10 0 0)]\<rparr>"
  show ?thesis
    using w by (intro that [of ?w])
      (simp_all add: service_ok_def win_inv_empty conn_ready_def connection_new_def incref_def)
qed

lemma first_request_fresh:
  "sv_nonce (srv w) = 77 \<Longrightarrow> sv_reply_window (srv w) = Map.empty \<Longrightarrow>
   fresh_request {} w \<lparr>rq_xid = 2, rq_proc = p, rq_clt_nonce = 5, rq_srv_nonce = 77, rq_xid_rep = 1\<rparr>"
  by (simp add: fresh_request_def window_of_def)

theorem rpc_put_exactly_once_witness:
  "\<exists>w w1 pkt. store_view \<lparr>ec_es = app w\<rparr> = [1 \<mapsto> (1, [])] \<and>
     dispatch (\<lambda>_. 0) 1
       ((!) (request_bytes \<lparr>rq_xid = 2, rq_proc = PUT, rq_clt_nonce = 5, rq_srv_nonce = 77, rq_xid_rep = 1\<rparr>
              (be64 1 @ enc_string [1, 2, 3])))
       (int (length (request_bytes \<lparr>rq_xid = 2, rq_proc = PUT, rq_clt_nonce = 5, rq_srv_nonce = 77, rq_xid_rep = 1\<rparr>
              (be64 1 @ enc_string [1, 2, 3])))) w = Inr w1 \<and>
     out w1 = out w @ [(1, pkt)] \<and> store_view \<lparr>ec_es = app w1\<rparr> = [1 \<mapsto> (1, [1, 2, 3])]"
proof -
  obtain w where w: "service_ok (\<lambda>_. 0) 0 attr_zero {} w" "sv_nonce (srv w) = 77" "sv_reply_window (srv w) = Map.empty"
    "conn_ready w 5 1" "store_view \<lparr>ec_es = app w\<rparr> = [1 \<mapsto> (1, [])]"
    "store_free \<lparr>ec_es = app w\<rparr> = BLOCK_NUM - DATA_START"
    by (rule running_service)
  let ?h = "\<lparr>rq_xid = 2, rq_proc = PUT, rq_clt_nonce = 5, rq_srv_nonce = 77, rq_xid_rep = 1\<rparr>"
  let ?args = "be64 1 @ enc_string [1, 2, 3]"
  have k: "key 1 = 1" using key_of_nat [of 1] by (simp add: layout_values)
  have req: "carries_request ((!) (request_bytes ?h ?args)) (int (length (request_bytes ?h ?args))) ?h ?args"
    by (rule request_bytes_carry) (simp add: be64_def enc_string_def)
  have "nown (nblk (length [1, 2, 3 :: byte])) \<le> 1" by (rule nown_small) simp
  then have fit: "nown (nblk (length [1, 2, 3 :: byte])) \<le>
      nown (nblk (length ([] :: byte list))) + store_free \<lparr>ec_es = app w\<rparr>"
    using w(6) by (simp add: layout_values DATA_START_def)
  have "store_view \<lparr>ec_es = app w\<rparr> (key 1) = Some (1, [])" using w(5) k by simp
  from rpc_put_exactly_once [OF w(1) first_request_fresh [OF w(2,3)] _ _ req this _ fit, of 1 "\<lambda>_. 0"] w(4,5) k
  show ?thesis by (auto simp: MAXBYTES_value)
qed

text \<open>A get request is answered with the contents of the file, and the file system stays as it is.\<close>

lemma rpc_get_returns_contents:
  assumes "service_ok junk r0 a0 A w" "fresh_request A w h" "conn_ready w (rq_clt_nonce h) c"
    "rq_proc h = GET" "carries_request b sz h (be64 eid)"
    "store_view \<lparr>ec_es = app w\<rparr> (key eid) = Some (t, d)" "int (length d) + 28 \<le> MAX_MSG"
  shows "\<exists>w1 pkt. dispatch mem c b sz w = Inr w1 \<and> app w1 = app w \<and> out w1 = out w @ [(c, pkt)] \<and>
    carries_reply ((!) pkt) (int (length pkt)) \<lparr>rp_xid = rq_xid h, rp_ret = 0\<rparr> (enc_string d)"
proof -
  have "store_inv \<lparr>ec_es = app w\<rparr>" using assms(1) by (simp add: service_ok_def)
  from service_once [OF assms(1-3,5) _ get_gives [OF this assms(6,7)], of mem] assms(4) show ?thesis
    by (auto simp: OK_def)
qed

text \<open>A remove request deletes exactly the named file, once, and copies of the request do nothing more.\<close>

lemma rpc_remove_exactly_once:
  assumes "service_ok junk r0 a0 A w" "fresh_request A w h" "conn_ready w (rq_clt_nonce h) c"
    "rq_proc h = REMOVE" "carries_request b sz h (be64 eid)"
  shows "\<exists>w1 pkt. dispatch mem c b sz w = Inr w1 \<and> out w1 = out w @ [(c, pkt)] \<and>
    carries_reply ((!) pkt) (int (length pkt)) \<lparr>rp_xid = rq_xid h, rp_ret = 0\<rparr> (be32 r0) \<and>
    store_inv \<lparr>ec_es = app w1\<rparr> \<and>
    store_view \<lparr>ec_es = app w1\<rparr> = (store_view \<lparr>ec_es = app w\<rparr>)(key eid := None) \<and>
    (\<forall>c2 b2 sz2 rep2. carries_request b2 sz2 (h\<lparr>rq_xid_rep := rep2\<rparr>) (be64 eid) \<longrightarrow>
       conn_ready w1 (rq_clt_nonce h) c2 \<longrightarrow>
       (\<exists>w2. dispatch mem c2 b2 sz2 w1 = Inr w2 \<and> app w2 = app w1 \<and> out w2 = out w1 @ [(c2, pkt)]))"
proof -
  have "store_inv \<lparr>ec_es = app w\<rparr>" using assms(1) by (simp add: service_ok_def)
  from ec.remove_law [OF this, of eid] obtain ec' where
    ec': "extent_client_remove \<lparr>ec_es = app w\<rparr> eid = Inr (OK, ec')" "store_inv ec'"
    "store_view ec' = (store_view \<lparr>ec_es = app w\<rparr>)(key eid := None)"
    by blast
  obtain es' where es': "ec' = \<lparr>ec_es = es'\<rparr>" by (cases ec') auto
  have "handler_gives (h_remove r0) (be64 eid) (app w) OK (be32 r0) es'"
    using remove_gives ec'(1) es' by blast
  from service_once [OF assms(1-3,5) _ this, of mem] assms(4) ec'(2,3) es' show ?thesis
    by (auto simp: OK_def)
qed

text \<open>C21: A request for another instance of the server is refused with \<open>oldsrv_failure\<close> and changes nothing, but the
  reference to the connection that came with it is not given back.\<close>

theorem old_server_refused_and_leaks:
  assumes "carries_request b sz h args" "rq_srv_nonce h \<noteq> 0" "rq_srv_nonce h \<noteq> sv_nonce (srv w)"
    "heap w c = Some k" "\<not> c_dead k"
  shows "\<exists>pkt. dispatch mem c b sz w = Inr (w\<lparr>out := out w @ [(c, pkt)]\<rparr>) \<and>
    carries_reply ((!) pkt) (int (length pkt)) \<lparr>rp_xid = rq_xid h, rp_ret = word_of_int oldsrv_failure\<rparr> []"
  by (rule dispatch_old_server [OF assms, of mem]) blast

theorem old_server_refused_and_leaks_witness:
  "\<exists>w k pkt. heap w 1 = Some k \<and>
     dispatch (\<lambda>_. 0) 1
       ((!) (request_bytes \<lparr>rq_xid = 2, rq_proc = GET, rq_clt_nonce = 5, rq_srv_nonce = 76, rq_xid_rep = 1\<rparr> []))
       (int (length (request_bytes
          \<lparr>rq_xid = 2, rq_proc = GET, rq_clt_nonce = 5, rq_srv_nonce = 76, rq_xid_rep = 1\<rparr> []))) w =
     Inr ((w :: extent_server world)\<lparr>out := out w @ [(1, pkt)]\<rparr>)"
proof -
  obtain w where "service_ok (\<lambda>_. 0) 0 attr_zero {} w" and w: "sv_nonce (srv w) = 77"
    "sv_reply_window (srv w) = Map.empty" "conn_ready w 5 1"
    by (rule running_service)
  let ?h = "\<lparr>rq_xid = 2, rq_proc = GET, rq_clt_nonce = 5, rq_srv_nonce = 76, rq_xid_rep = 1\<rparr>"
  obtain k where k: "heap w 1 = Some k" "\<not> c_dead k" using w(3) by (rule conn_readyE)
  have req: "carries_request ((!) (request_bytes ?h [])) (int (length (request_bytes ?h []))) ?h []"
    by (rule request_bytes_carry) simp
  from old_server_refused_and_leaks [OF req _ _ k, of "\<lambda>_. 0"] w(1) k(1) show ?thesis by auto
qed

section \<open>At most once\<close>

text \<open>C22: Whatever requests arrive at the server in whatever order and multiplicity, with answers recorded in
  between, no request of a client is admitted for execution twice, as long as no client acknowledges a
  request it is only sending.\<close>

theorem requests_admitted_at_most_once:
  assumes "\<forall>e\<in>set es. honest e"
  shows "distinct (fst (admit checkduplicate_and_update add_reply Map.empty es))"
  using rw.admit_once [OF win_inv_empty assms] by simp

theorem requests_admitted_at_most_once_witness:
  "distinct (fst (admit checkduplicate_and_update add_reply Map.empty
     [Arrive 5 2 1, Arrive 5 2 1, Answer 5 2 [9], Arrive 5 3 2, Arrive 5 2 2, Arrive 5 1 0]))"
  by (rule requests_admitted_at_most_once) simp

text \<open>A request that was admitted and answered is answered from the record, with the same bytes, until the
  client acknowledges it; the check does not change the record.\<close>

lemma answered_request_is_replayed:
  assumes "win_inv A win" "checkduplicate_and_update win clt xid rep = (NEW, win1)" "rep \<le> xid"
  shows "checkduplicate_and_update (add_reply win1 clt xid pkt) clt xid rep' =
    (DONE pkt, add_reply win1 clt xid pkt)"
  using assms by (rule checkdup_answered)

text \<open>C23: After any sequence of replies, in any order and with repetitions, the number the client acknowledges is
  the largest one such that every request up to it is answered.\<close>

theorem acknowledged_prefix_is_exact:
  assumes "front = hd (foldl (\<lambda>win xid. update_xid_rep xid win) [0] xids)" "front < front + 1"
  shows "(\<forall>x. 1 \<le> x \<and> x \<le> front \<longrightarrow> x \<in> set xids) \<and> front + 1 \<notin> set xids"
  using window_front [OF update_all, of _ xids] window_maximal [OF update_all, of xids] assms by simp

theorem acknowledged_prefix_is_exact_witness:
  "hd (foldl (\<lambda>win xid. update_xid_rep xid win) [0] [3, 1, 1, 2, 5]) = 3 \<and>
   (3 :: u32) + 1 \<notin> set [3, 1, 1, 2, 5]"
proof -
  have f: "3 = hd (foldl (\<lambda>win xid. update_xid_rep xid win) [0] [3, 1, 1, 2, 5])"
    by (simp add: update_xid_rep_def word_le_nat_alt)
  from acknowledged_prefix_is_exact [OF this] f show ?thesis by simp
qed

section \<open>Wire format\<close>

text \<open>C24: A map from strings to vectors of integers, the nested templates of \<open>marshall.h\<close>, comes back unchanged
  when it is marshalled and the content unmarshalled, whatever the fresh buffers contain, up to the
  message size at which the buffer's capacity could overflow.\<close>

theorem nested_map_round_trip:
  assumes "distinct (map fst d)"
    "int (length (enc_vector (\<lambda>(x, y). enc_string x @ enc_vector be32 y) d)) + RPC_HEADER_SZ \<le> MAX_MSG"
  shows "\<exists>m u'. put_map put_string (put_vector put_u32) (marshall_new mem) d = Inr m \<and>
    get_map (\<lambda>u. get_string u []) (\<lambda>u. get_vector get_u32 u []) (unmarshall_of_string mem' (get_content m)) =
      Inr (map_of d, u') \<and> okdone u'"
  by (rule map_round_trip [OF c_string.codec_axioms vector_codec [OF c_u32.codec_axioms] assms])

theorem nested_map_round_trip_witness:
  "\<exists>m u'. put_map put_string (put_vector put_u32) (marshall_new (\<lambda>_. 7)) [([1, 2], [3]), ([], [4, 5])] = Inr m \<and>
    get_map (\<lambda>u. get_string u []) (\<lambda>u. get_vector get_u32 u []) (unmarshall_of_string (\<lambda>_. 8) (get_content m)) =
      Inr (map_of [([1, 2], [3]), ([], [4, 5])], u') \<and> okdone u'"
  by (rule nested_map_round_trip)
     (simp_all add: enc_vector_def enc_string_def MAX_MSG_def rpc_sizes)

text \<open>C25: Reading a vector of integers from arbitrary bytes never touches memory outside the packet, and \<open>ok\<close>
  tells whether the packet held all the elements it announces.\<close>

theorem vector_read_is_safe:
  assumes "u_inv u" "u_rest u = be32 n @ r"
  shows "\<exists>v u'. get_vector get_u32 u acc = Inr (v, u') \<and> length v = length acc + unat n \<and> u_inv u' \<and>
    (u_ok u' \<longleftrightarrow> u_ok u \<and> 4 * unat n \<le> length r)"
proof -
  obtain u1 where u1: "get_u32 u = Inr (n, u1)" "advanced u u1 r"
    using get_u32_be [OF assms] by blast
  obtain v u2 where "get_all (unat n) get_u32 u1 acc = Inr (v, u2)" "length v = length acc + unat n"
    "consumed u1 u2 (unat n * 4)"
    using c_u32.get_all_total [OF advanced_inv(1) [OF u1(2)], of "unat n" acc] by blast
  with u1 show ?thesis by (auto simp: get_vector_def consumed_def advanced_def mult.commute)
qed

theorem vector_read_is_safe_witness:
  "\<exists>v u'. get_vector get_u32 (unmarshall_of_string (\<lambda>_. 0) (be32 3 @ be32 9)) [] = Inr (v, u') \<and>
     length v = 3 \<and> \<not> u_ok u'"
proof -
  let ?u = "unmarshall_of_string (\<lambda>_. 0) (be32 3 @ be32 9)"
  have "u_inv ?u" "u_rest ?u = be32 3 @ be32 9"
    by (simp_all add: unmarshall_of_string_def take_content_def unmarshall_empty_def rpc_sizes u_inv_def u_rest_def
        be32_def upt_rec [of _ "_ + _"])
  from vector_read_is_safe [OF this, of "[]"] show ?thesis by auto
qed

text \<open>C26: A string whose announced length is so large that the sum with the read position wraps around passes the
  bounds check, and the copy runs past the packet.\<close>

theorem string_length_wraps:
  assumes "u_inv u" "u_ok u" "u_rest u = be32 n @ r" "2 ^ 32 \<le> u_ind u + 4 + int (unat n)"
  shows "get_string u s0 = Inl OutOfBounds"
  using assms by (rule get_string_wraps)

theorem string_length_wraps_witness:
  "get_string (unmarshall_of_string (\<lambda>_. 0) (be32 0xFFFFFFFF)) [] = Inl OutOfBounds"
proof -
  let ?u = "unmarshall_of_string (\<lambda>_. 0) (be32 0xFFFFFFFF)"
  have "u_inv ?u" "u_ok ?u" "u_rest ?u = be32 0xFFFFFFFF @ []" "2 ^ 32 \<le> u_ind ?u + 4 + int (unat (0xFFFFFFFF :: u32))"
    by (simp_all add: unmarshall_of_string_def take_content_def unmarshall_empty_def rpc_sizes u_inv_def u_rest_def be32_def)
  then show ?thesis by (rule string_length_wraps)
qed

section \<open>Deadlines\<close>

text \<open>C27: \<open>add_timespec\<close> terminates and adds the given milliseconds exactly; the nanoseconds of the result are within a
  second, the full second included.\<close>

theorem add_timespec_exact:
  assumes "normal a" "0 \<le> b"
  shows "\<exists>r. add_timespec a b = Inr r \<and> ns r = ns a + b * 1000000 \<and> 0 \<le> tv_nsec r \<and> tv_nsec r \<le> 1000000000"
  by (rule add_timespec_ok [OF assms]) blast

theorem add_timespec_exact_witness:
  "\<exists>r. add_timespec \<lparr>tv_sec = 1, tv_nsec = 500000000\<rparr> 2500 = Inr r \<and> ns r = 4000000000"
  using add_timespec_exact [of "\<lparr>tv_sec = 1, tv_nsec = 500000000\<rparr>" 2500] by (auto simp: normal_def ns_def)

section \<open>Connections\<close>





end
