(* ===== verification/Rpc_Client.thy ===== *)
theory Rpc_Client
  imports Rpc_Packet Xid_Window Timespec
begin

text \<open>
  Class \<open>rpcc\<close> (\<open>rpc/rpc.h\<close>, \<open>rpc/rpc.cc\<close>): the client end of the RPC library. \<open>call1\<close> is cut where it takes and
  releases its locks: \<open>call1_begin\<close> registers the call and packs the header, \<open>call1_transmit\<close> sends,
  \<open>call1_deadline\<close> and \<open>call1_round\<close> are the body of the retry loop, \<open>call1_end\<close> and \<open>call1_dup\<close> the two
  blocks after it. \<open>got_pdu\<close> and \<open>cancel\<close> run in other threads in between. A \<open>caller\<close> object lives in the
  table \<open>calls_\<close> from its registration to \<open>call1_end\<close>, which hands it back to its thread.
\<close>

section \<open>State\<close>

record caller =
  ca_xid :: u32
  ca_un :: unmarshall
  ca_intret :: int
  ca_done :: bool

record request =
  rq_buf :: "byte list"
  rq_no :: int

definition request_clear :: request where
  "request_clear = \<lparr>rq_buf = [], rq_no = -1\<rparr>"

definition request_valid :: "request \<Rightarrow> bool" where
  "request_valid r \<longleftrightarrow> rq_no r \<noteq> -1"

record rpcc =
  cl_clt_nonce :: u32
  cl_srv_nonce :: u32
  cl_bind_done :: bool
  cl_xid :: u32
  cl_lossytest :: int
  cl_retrans :: bool
  cl_reachable :: bool
  cl_destroy_wait :: bool
  cl_calls :: "u32 \<rightharpoonup> caller"
  cl_window :: "u32 list"
  cl_dup_req :: request
  cl_xid_rep_done :: int

definition to_max :: int where "to_max = 120000"
definition to_min :: int where "to_min = 1000"

definition rpcc_new :: "bool \<Rightarrow> u32 \<Rightarrow> int \<Rightarrow> rpcc" where
  "rpcc_new retrans rnd lossy =
     \<lparr>cl_clt_nonce = (if retrans then rnd else 0), cl_srv_nonce = 0, cl_bind_done = False, cl_xid = 1,
      cl_lossytest = lossy, cl_retrans = retrans, cl_reachable = True, cl_destroy_wait = False,
      cl_calls = Map.empty, cl_window = [0], cl_dup_req = request_clear, cl_xid_rep_done = -1\<rparr>"

section \<open>call1\<close>

text \<open>The first critical section. \<open>Inl\<close>: the early returns; \<open>Inr\<close>: number of the call, \<open>xid_rep\<close>, the packed request.
  \<open>i0\<close> is the uninitialised \<open>intret\<close>.\<close>

definition call1_begin ::
  "int \<Rightarrow> u32 \<Rightarrow> marshall \<Rightarrow> rpcc \<Rightarrow> (int + (u32 \<times> u32 \<times> marshall \<times> rpcc)) res" where
  "call1_begin i0 proc req s =
     (if (proc \<noteq> RPC_BIND \<and> \<not> cl_bind_done s) \<or> (proc = RPC_BIND \<and> cl_bind_done s) then Inr (Inl bind_failure)
      else if cl_destroy_wait s then Inr (Inl cancel_failure)
      else
        (let xid = cl_xid s;
             ca = \<lparr>ca_xid = xid, ca_un = unmarshall_empty, ca_intret = i0, ca_done = False\<rparr>;
             s1 = s\<lparr>cl_xid := xid + 1, cl_calls := (cl_calls s)(xid \<mapsto> ca)\<rparr>;
             h = \<lparr>rq_xid = xid, rq_proc = proc, rq_clt_nonce = cl_clt_nonce s, rq_srv_nonce = cl_srv_nonce s,
                  rq_xid_rep = hd (cl_window s)\<rparr>
         in bindE (pack_req_header req h) (\<lambda>req. Inr (Inr (xid, hd (cl_window s), req, s1)))))"

text \<open>One transmission on a connection: an old duplicate first if there is one to provoke, then the request. The
  result is what is handed to the connection.\<close>

definition call1_transmit :: "byte list \<Rightarrow> bool \<Rightarrow> rpcc \<Rightarrow> byte list list \<times> rpcc" where
  "call1_transmit pkt connected s =
     (if connected \<and> cl_reachable s
      then (if request_valid (cl_dup_req s) \<and> cl_xid_rep_done s > rq_no (cl_dup_req s)
            then ([rq_buf (cl_dup_req s), pkt], s\<lparr>cl_dup_req := request_clear\<rparr>)
            else ([pkt], s))
      else ([], s))"

text \<open>The end of a wait at the latest: the next deadline, and the final one, whose seconds become zero when it is the
  next.\<close>

definition call1_deadline :: "timespec \<Rightarrow> int \<Rightarrow> timespec \<Rightarrow> (timespec \<times> timespec) res" where
  "call1_deadline now curr_to final =
     bindE (add_timespec now curr_to) (\<lambda>nextd.
       Inr (if cmp_timespec nextd final > 0 then (final, final\<lparr>tv_sec := 0\<rparr>) else (nextd, final)))"

text \<open>The retry loop. A round is given by the clock reading, whether the call is done when the wait is over, and
  whether the connection is dead then; the result is whether the loop left with the call done and in
  which rounds the request was sent. \<open>None\<close>: the rounds given do not suffice.\<close>

fun call1_loop ::
  "bool \<Rightarrow> timespec \<Rightarrow> int \<Rightarrow> bool \<Rightarrow> (timespec \<times> bool \<times> bool) list \<Rightarrow> (bool \<times> bool list) option res" where
  "call1_loop retrans final curr_to transmit rounds =
     (if tv_sec final = 0 then Inr (Some (False, [transmit]))
      else case rounds of
             [] \<Rightarrow> Inr None
           | (now, isdone, dead) # rest \<Rightarrow>
               bindE (call1_deadline now curr_to final) (\<lambda>(_, final').
                 if isdone then Inr (Some (True, [transmit]))
                 else if curr_to \<ge> 2 ^ 30 then Inl SignedOverflow
                 else bindE (call1_loop retrans final' (2 * curr_to) (retrans \<and> dead) rest)
                        (\<lambda>r. Inr (map_option (\<lambda>(d, ts). (d, transmit # ts)) r))))"

text \<open>The block after the loop: the call leaves the table.\<close>

definition call1_end :: "u32 \<Rightarrow> rpcc \<Rightarrow> (caller \<times> rpcc) option" where
  "call1_end xid s =
     (case cl_calls s xid of
        None \<Rightarrow> None
      | Some ca \<Rightarrow> Some (ca, s\<lparr>cl_calls := (cl_calls s)(xid := None), cl_window := update_xid_rep xid (cl_window s)\<rparr>))"

text \<open>The lossy-test block: keep the request to send it again later, and note the highest \<open>xid_rep\<close> sent with a call
  that is done.\<close>

definition call1_dup :: "caller \<Rightarrow> byte list \<Rightarrow> u32 \<Rightarrow> rpcc \<Rightarrow> rpcc" where
  "call1_dup ca pkt xid_rep s =
     (if ca_done ca \<and> cl_lossytest s \<noteq> 0
      then (let s1 = (if \<not> request_valid (cl_dup_req s)
                      then s\<lparr>cl_dup_req := \<lparr>rq_buf = pkt, rq_no = sint (ca_xid ca)\<rparr>\<rparr> else s)
            in if sint xid_rep > cl_xid_rep_done s1 then s1\<lparr>cl_xid_rep_done := sint xid_rep\<rparr> else s1)
      else s)"

definition call1_result :: "caller \<Rightarrow> int" where
  "call1_result ca = (if ca_done ca then ca_intret ca else timeout_failure)"

section \<open>Other threads\<close>

text \<open>\<open>got_pdu\<close>: a reply arrives. A broken header is dropped; the answer to the connection is always that the packet
  is consumed.\<close>

definition rpcc_got_pdu :: "(nat \<Rightarrow> byte) \<Rightarrow> int \<Rightarrow> rpcc \<Rightarrow> rpcc res" where
  "rpcc_got_pdu b sz s =
     bindE (unpack_reply_header (unmarshall_new b sz)) (\<lambda>(h, rep).
       if \<not> u_ok rep then Inr s
       else
         (let s1 = s\<lparr>cl_window := update_xid_rep (rp_xid h) (cl_window s)\<rparr>
          in case cl_calls s1 (rp_xid h) of
               None \<Rightarrow> Inr s1
             | Some ca \<Rightarrow>
                 if ca_done ca then Inr s1
                 else Inr (s1\<lparr>cl_calls := (cl_calls s1)(rp_xid h \<mapsto>
                        ca\<lparr>ca_un := fst (take_in (ca_un ca) rep), ca_intret := sint (rp_ret h), ca_done := True\<rparr>)\<rparr>)))"

text \<open>\<open>cancel\<close> up to its wait for the callers to leave: every pending call is made to fail. The wait is over when the
  table is empty.\<close>

definition rpcc_cancel :: "rpcc \<Rightarrow> rpcc" where
  "rpcc_cancel s =
     (let s1 = s\<lparr>cl_calls := (\<lambda>x. map_option (\<lambda>ca. ca\<lparr>ca_done := True, ca_intret := cancel_failure\<rparr>) (cl_calls s x))\<rparr>
      in if cl_calls s1 = Map.empty then s1 else s1\<lparr>cl_destroy_wait := True\<rparr>)"

text \<open>\<open>bind\<close> after its call has returned \<open>ret\<close> with result \<open>r\<close>.\<close>

definition rpcc_bind_finish :: "int \<Rightarrow> u32 \<Rightarrow> rpcc \<Rightarrow> int \<times> rpcc" where
  "rpcc_bind_finish ret r s = (if ret = 0 then (ret, s\<lparr>cl_bind_done := True, cl_srv_nonce := r\<rparr>) else (ret, s))"

definition rpcc_set_reachable :: "bool \<Rightarrow> rpcc \<Rightarrow> rpcc" where
  "rpcc_set_reachable r s = s\<lparr>cl_reachable := r\<rparr>"

definition islossy :: "rpcc \<Rightarrow> bool" where
  "islossy s \<longleftrightarrow> cl_lossytest s > 0"

section \<open>The typed interface\<close>

text \<open>\<open>call_m\<close> after \<open>call1\<close>: \<open>intret\<close> and the reader it filled; the result is the return code and \<open>r\<close>.\<close>

definition call_m_finish ::
  "(unmarshall \<Rightarrow> ('r \<times> unmarshall) res) \<Rightarrow> 'r \<Rightarrow> int \<Rightarrow> unmarshall \<Rightarrow> (int \<times> 'r) res" where
  "call_m_finish get r0 intret u =
     (if intret < 0 then Inr (intret, r0)
      else bindE (get u) (\<lambda>(r, u). if \<not> okdone u then Inl VerifyFailed else Inr (intret, r)))"

text \<open>The argument part of the \<open>call\<close> templates: a fresh \<open>marshall\<close> and one \<open><<\<close> per argument.\<close>

definition call_args0 :: "(nat \<Rightarrow> byte) \<Rightarrow> marshall res" where
  "call_args0 mem = Inr (marshall_new mem)"

definition call_args1 :: "(marshall \<Rightarrow> 'a \<Rightarrow> marshall res) \<Rightarrow> (nat \<Rightarrow> byte) \<Rightarrow> 'a \<Rightarrow> marshall res" where
  "call_args1 put_a mem a1 = put_a (marshall_new mem) a1"

definition call_args2 ::
  "(marshall \<Rightarrow> 'a \<Rightarrow> marshall res) \<Rightarrow> (marshall \<Rightarrow> 'b \<Rightarrow> marshall res) \<Rightarrow> (nat \<Rightarrow> byte) \<Rightarrow> 'a \<Rightarrow> 'b \<Rightarrow> marshall res" where
  "call_args2 put_a put_b mem a1 a2 = bindE (put_a (marshall_new mem) a1) (\<lambda>m. put_b m a2)"

definition call_args3 ::
  "(marshall \<Rightarrow> 'a \<Rightarrow> marshall res) \<Rightarrow>
     (marshall \<Rightarrow> 'b \<Rightarrow> marshall res) \<Rightarrow>
     (marshall \<Rightarrow> 'c \<Rightarrow> marshall res) \<Rightarrow>
     (nat \<Rightarrow> byte) \<Rightarrow> 'a \<Rightarrow> 'b \<Rightarrow> 'c \<Rightarrow> marshall res" where
  "call_args3 put_a put_b put_c mem a1 a2 a3 =
     bindE (put_a (marshall_new mem) a1) (\<lambda>m.
     bindE (put_b m a2) (\<lambda>m.
     put_c m a3))"

definition call_args4 ::
  "(marshall \<Rightarrow> 'a \<Rightarrow> marshall res) \<Rightarrow>
     (marshall \<Rightarrow> 'b \<Rightarrow> marshall res) \<Rightarrow>
     (marshall \<Rightarrow> 'c \<Rightarrow> marshall res) \<Rightarrow>
     (marshall \<Rightarrow> 'd \<Rightarrow> marshall res) \<Rightarrow>
     (nat \<Rightarrow> byte) \<Rightarrow> 'a \<Rightarrow> 'b \<Rightarrow> 'c \<Rightarrow> 'd \<Rightarrow> marshall res" where
  "call_args4 put_a put_b put_c put_d mem a1 a2 a3 a4 =
     bindE (put_a (marshall_new mem) a1) (\<lambda>m.
     bindE (put_b m a2) (\<lambda>m.
     bindE (put_c m a3) (\<lambda>m.
     put_d m a4)))"

definition call_args5 ::
  "(marshall \<Rightarrow> 'a \<Rightarrow> marshall res) \<Rightarrow>
     (marshall \<Rightarrow> 'b \<Rightarrow> marshall res) \<Rightarrow>
     (marshall \<Rightarrow> 'c \<Rightarrow> marshall res) \<Rightarrow>
     (marshall \<Rightarrow> 'd \<Rightarrow> marshall res) \<Rightarrow>
     (marshall \<Rightarrow> 'e \<Rightarrow> marshall res) \<Rightarrow>
     (nat \<Rightarrow> byte) \<Rightarrow> 'a \<Rightarrow> 'b \<Rightarrow> 'c \<Rightarrow> 'd \<Rightarrow> 'e \<Rightarrow> marshall res" where
  "call_args5 put_a put_b put_c put_d put_e mem a1 a2 a3 a4 a5 =
     bindE (put_a (marshall_new mem) a1) (\<lambda>m.
     bindE (put_b m a2) (\<lambda>m.
     bindE (put_c m a3) (\<lambda>m.
     bindE (put_d m a4) (\<lambda>m.
     put_e m a5))))"

definition call_args6 ::
  "(marshall \<Rightarrow> 'a \<Rightarrow> marshall res) \<Rightarrow>
     (marshall \<Rightarrow> 'b \<Rightarrow> marshall res) \<Rightarrow>
     (marshall \<Rightarrow> 'c \<Rightarrow> marshall res) \<Rightarrow>
     (marshall \<Rightarrow> 'd \<Rightarrow> marshall res) \<Rightarrow>
     (marshall \<Rightarrow> 'e \<Rightarrow> marshall res) \<Rightarrow>
     (marshall \<Rightarrow> 'f \<Rightarrow> marshall res) \<Rightarrow>
     (nat \<Rightarrow> byte) \<Rightarrow> 'a \<Rightarrow> 'b \<Rightarrow> 'c \<Rightarrow> 'd \<Rightarrow> 'e \<Rightarrow> 'f \<Rightarrow> marshall res" where
  "call_args6 put_a put_b put_c put_d put_e put_f mem a1 a2 a3 a4 a5 a6 =
     bindE (put_a (marshall_new mem) a1) (\<lambda>m.
     bindE (put_b m a2) (\<lambda>m.
     bindE (put_c m a3) (\<lambda>m.
     bindE (put_d m a4) (\<lambda>m.
     bindE (put_e m a5) (\<lambda>m.
     put_f m a6)))))"

definition call_args7 ::
  "(marshall \<Rightarrow> 'a \<Rightarrow> marshall res) \<Rightarrow>
     (marshall \<Rightarrow> 'b \<Rightarrow> marshall res) \<Rightarrow>
     (marshall \<Rightarrow> 'c \<Rightarrow> marshall res) \<Rightarrow>
     (marshall \<Rightarrow> 'd \<Rightarrow> marshall res) \<Rightarrow>
     (marshall \<Rightarrow> 'e \<Rightarrow> marshall res) \<Rightarrow>
     (marshall \<Rightarrow> 'f \<Rightarrow> marshall res) \<Rightarrow>
     (marshall \<Rightarrow> 'g \<Rightarrow> marshall res) \<Rightarrow>
     (nat \<Rightarrow> byte) \<Rightarrow> 'a \<Rightarrow> 'b \<Rightarrow> 'c \<Rightarrow> 'd \<Rightarrow> 'e \<Rightarrow> 'f \<Rightarrow> 'g \<Rightarrow> marshall res" where
  "call_args7 put_a put_b put_c put_d put_e put_f put_g mem a1 a2 a3 a4 a5 a6 a7 =
     bindE (put_a (marshall_new mem) a1) (\<lambda>m.
     bindE (put_b m a2) (\<lambda>m.
     bindE (put_c m a3) (\<lambda>m.
     bindE (put_d m a4) (\<lambda>m.
     bindE (put_e m a5) (\<lambda>m.
     bindE (put_f m a6) (\<lambda>m.
     put_g m a7))))))"

section \<open>Connections of the client\<close>

definition obj_incref :: "nat \<Rightarrow> (nat \<rightharpoonup> connection) \<Rightarrow> (nat \<rightharpoonup> connection) res" where
  "obj_incref c hp = (case hp c of None \<Rightarrow> Inl NullDeref | Some k \<Rightarrow> Inr (hp(c \<mapsto> incref k)))"

definition obj_decref :: "nat \<Rightarrow> (nat \<rightharpoonup> connection) \<Rightarrow> (nat \<rightharpoonup> connection) res" where
  "obj_decref c hp =
     (case hp c of None \<Rightarrow> Inl NullDeref | Some k \<Rightarrow> bindE (decref k) (\<lambda>k'. Inr (hp(c := k'))))"

text \<open>The destructor: the channel is closed and released, and no call may be pending.\<close>

definition rpcc_delete :: "nat option \<Rightarrow> rpcc \<Rightarrow> (nat \<rightharpoonup> connection) \<Rightarrow> (nat \<rightharpoonup> connection) res" where
  "rpcc_delete chan s hp =
     bindE
       (case chan of
          None \<Rightarrow> Inr hp
        | Some c \<Rightarrow> (case hp c of None \<Rightarrow> Inl NullDeref | Some k \<Rightarrow> obj_decref c (hp(c \<mapsto> closeconn k))))
       (\<lambda>hp. bindE (VERIFY (cl_calls s = Map.empty)) (\<lambda>_. Inr hp))"

text \<open>\<open>connect_to_dst\<close>: \<open>fd\<close> is the address of the new object when the system call succeeds.\<close>

definition connect_to_dst :: "int \<Rightarrow> int \<Rightarrow> int \<Rightarrow> nat option \<Rightarrow> (nat \<rightharpoonup> connection) \<Rightarrow> nat option \<times> (nat \<rightharpoonup> connection)" where
  "connect_to_dst sec usec lossy fd hp =
     (case fd of None \<Rightarrow> (None, hp) | Some c \<Rightarrow> (Some c, hp(c \<mapsto> connection_new sec usec lossy)))"

text \<open>\<open>get_refconn\<close> on the channel of the client and the caller's own pointer.\<close>

definition get_refconn ::
  "int \<Rightarrow> int \<Rightarrow> int \<Rightarrow> nat option \<Rightarrow> nat option \<Rightarrow> nat option \<Rightarrow> (nat \<rightharpoonup> connection) \<Rightarrow>
     (nat option \<times> nat option \<times> (nat \<rightharpoonup> connection)) res" where
  "get_refconn sec usec lossy fd chan ch hp =
     bindE
       (case chan of
          None \<Rightarrow> Inr (connect_to_dst sec usec lossy fd hp)
        | Some c \<Rightarrow>
            (case hp c of
               None \<Rightarrow> Inl NullDeref
             | Some k \<Rightarrow>
                 if c_dead k then bindE (obj_decref c hp) (\<lambda>hp. Inr (connect_to_dst sec usec lossy fd hp))
                 else Inr (chan, hp)))
       (\<lambda>(chan, hp).
          case chan of
            None \<Rightarrow> Inr (chan, ch, hp)
          | Some c \<Rightarrow>
              bindE (case ch of None \<Rightarrow> Inr hp | Some c0 \<Rightarrow> obj_decref c0 hp)
                (\<lambda>hp. bindE (obj_incref c hp) (\<lambda>hp. Inr (chan, Some c, hp))))"

section \<open>What a client keeps\<close>

text \<open>\<open>R\<close> is the set of calls that are over or answered. The numbers of all calls are below \<open>xid_\<close>; a call in the table
  that is not done is not in \<open>R\<close>.\<close>

definition client_inv :: "u32 set \<Rightarrow> rpcc \<Rightarrow> bool" where
  "client_inv R s \<longleftrightarrow> window_inv R (cl_window s) \<and> 1 \<le> cl_xid s \<and> (\<forall>x\<in>R. x < cl_xid s) \<and>
     (\<forall>x ca. cl_calls s x = Some ca \<longrightarrow> x < cl_xid s \<and> ca_xid ca = x \<and> (\<not> ca_done ca \<longrightarrow> x \<notin> R))"

lemma client_inv_new: "client_inv {} (rpcc_new retrans rnd lossy)"
  by (simp add: client_inv_def rpcc_new_def window_init)

lemma window_front_old:
  assumes "client_inv R s"
  shows "hd (cl_window s) < cl_xid s"
proof (cases "1 \<le> hd (cl_window s)")
  case True
  then have "hd (cl_window s) \<in> R"
    using assms window_front [of R "cl_window s" "hd (cl_window s)"] by (simp add: client_inv_def)
  then show ?thesis using assms by (simp add: client_inv_def)
next
  case False
  then have "hd (cl_window s) = 0" by (simp add: word_le_nat_alt u32_eq_iff)
  moreover have "0 < cl_xid s" using assms by (simp add: client_inv_def word_le_nat_alt word_less_nat_alt)
  ultimately show ?thesis by simp
qed

lemma next_xid: "x + 1 \<noteq> (0 :: u32) \<Longrightarrow> x < x + 1"
  using unatSuc [of x] by (simp add: word_less_nat_alt add.commute)

text \<open>A call that begins is new to the client, acknowledges only earlier ones and is found in the table.\<close>

lemma call1_begin_ok:
  assumes inv: "client_inv R s" and m: "m_inv req" "m_ind req < 2 ^ 31" and xid: "cl_xid s + 1 \<noteq> 0"
    and bound: "proc = RPC_BIND \<longleftrightarrow> \<not> cl_bind_done s" and nowait: "\<not> cl_destroy_wait s"
  obtains req' s' b where "call1_begin i0 proc req s = Inr (Inr (cl_xid s, hd (cl_window s), req', s'))"
    "m_buf req' = Some b" "m_ind req' = m_ind req"
    "carries_request b (m_ind req')
       \<lparr>rq_xid = cl_xid s, rq_proc = proc, rq_clt_nonce = cl_clt_nonce s, rq_srv_nonce = cl_srv_nonce s,
        rq_xid_rep = hd (cl_window s)\<rparr> (get_content req)"
    "hd (cl_window s) < cl_xid s" "client_inv R s'" "cl_xid s' = cl_xid s + 1" "cl_clt_nonce s' = cl_clt_nonce s"
    "cl_calls s (cl_xid s) = None"
    "cl_calls s' = (cl_calls s)(cl_xid s \<mapsto>
       \<lparr>ca_xid = cl_xid s, ca_un = unmarshall_empty, ca_intret = i0, ca_done = False\<rparr>)"
proof -
  let ?h = "\<lparr>rq_xid = cl_xid s, rq_proc = proc, rq_clt_nonce = cl_clt_nonce s, rq_srv_nonce = cl_srv_nonce s,
        rq_xid_rep = hd (cl_window s)\<rparr>"
  let ?ca = "\<lparr>ca_xid = cl_xid s, ca_un = unmarshall_empty, ca_intret = i0, ca_done = False\<rparr>"
  obtain req' b where r: "pack_req_header req ?h = Inr req'" "m_buf req' = Some b" "m_ind req' = m_ind req"
    "carries_request b (m_ind req') ?h (get_content req)"
    by (rule pack_req_carries [OF m, of ?h]) (rule that)
  let ?s = "s\<lparr>cl_xid := cl_xid s + 1, cl_calls := (cl_calls s)(cl_xid s \<mapsto> ?ca)\<rparr>"
  have lt: "cl_xid s < cl_xid s + 1" using next_xid [OF xid] .
  have "cl_xid s \<notin> R" using inv by (auto simp: client_inv_def)
  moreover have "1 \<le> cl_xid s + 1" using inv lt by (auto simp: client_inv_def)
  ultimately have "client_inv R ?s"
    using inv lt by (auto simp: client_inv_def intro: order.strict_trans)
  moreover have "cl_calls s (cl_xid s) = None"
    using inv by (cases "cl_calls s (cl_xid s)") (auto simp: client_inv_def)
  moreover have "call1_begin i0 proc req s = Inr (Inr (cl_xid s, hd (cl_window s), req', ?s))"
    using r(1) bound nowait by (simp add: call1_begin_def Let_def)
  ultimately show ?thesis
    using r window_front_old [OF inv] by (intro that [of req' ?s b]) simp_all
qed

text \<open>A reply to a call of this client.\<close>

lemma got_pdu_ok:
  assumes inv: "client_inv R s" and rep: "carries_reply b sz h res" and old: "rp_xid h < cl_xid s"
  obtains s' where "rpcc_got_pdu b sz s = Inr s'" "client_inv (insert (rp_xid h) R) s'"
    "cl_xid s' = cl_xid s" "cl_clt_nonce s' = cl_clt_nonce s"
    "\<And>x. x \<noteq> rp_xid h \<Longrightarrow> cl_calls s' x = cl_calls s x"
    "\<And>ca. cl_calls s (rp_xid h) = Some ca \<Longrightarrow> \<exists>ca'. cl_calls s' (rp_xid h) = Some ca' \<and> ca_done ca' \<and>
       (if ca_done ca then ca' = ca
        else ca_intret ca' = sint (rp_ret h) \<and> u_inv (ca_un ca') \<and> u_ok (ca_un ca') \<and> u_rest (ca_un ca') = res)"
    "cl_calls s (rp_xid h) = None \<Longrightarrow> cl_calls s' (rp_xid h) = None"
proof -
  obtain u where u: "unpack_reply_header (unmarshall_new b sz) = Inr (h, u)" "u_ok u" "u_buf u = Some b"
    "u_sz u = sz" "u_inv u" "u_rest u = res"
    using rep by (rule unpack_reply)
  let ?s1 = "s\<lparr>cl_window := update_xid_rep (rp_xid h) (cl_window s)\<rparr>"
  have w: "window_inv (insert (rp_xid h) R) (update_xid_rep (rp_xid h) (cl_window s))"
    using update_keeps(1) inv by (simp add: client_inv_def)
  have sz: "sz = RPC_HEADER_SZ + int (length res)" "sz < 2 ^ 31"
    "map b [nat RPC_HEADER_SZ..<nat RPC_HEADER_SZ + length res] = res"
    using rep by (auto simp: carries_reply_def carries_def)
  show ?thesis
  proof (cases "cl_calls s (rp_xid h)")
    case None
    then have "rpcc_got_pdu b sz s = Inr ?s1" using u(1,2) by (simp add: rpcc_got_pdu_def)
    then show ?thesis
      using None w inv old by (intro that [of ?s1]) (auto simp: client_inv_def)
  next
    case (Some ca)
    show ?thesis
    proof (cases "ca_done ca")
      case True
      then have "rpcc_got_pdu b sz s = Inr ?s1" using Some u(1,2) by (simp add: rpcc_got_pdu_def)
      then show ?thesis
        using Some True w inv old by (intro that [of ?s1]) (auto simp: client_inv_def)
    next
      case False
      define un where "un = fst (take_in (ca_un ca) u)"
      have un: "u_inv un" "u_ok un" "u_rest un = res"
        using sz u by (auto simp: un_def take_in_def u_take_buf_def u_inv_def u_rest_def rpc_sizes nat_add_distrib)
      let ?ca = "ca\<lparr>ca_un := un, ca_intret := sint (rp_ret h), ca_done := True\<rparr>"
      let ?s2 = "?s1\<lparr>cl_calls := (cl_calls s)(rp_xid h \<mapsto> ?ca)\<rparr>"
      have "rpcc_got_pdu b sz s = Inr ?s2" using Some False u(1,2) by (simp add: rpcc_got_pdu_def un_def)
      moreover have "client_inv (insert (rp_xid h) R) ?s2"
        using Some w inv old by (auto simp: client_inv_def)
      ultimately show ?thesis
        using Some False un by (intro that [of ?s2]) simp_all
    qed
  qed
qed

lemma call1_end_ok:
  assumes "client_inv R s" "call1_end xid s = Some (ca, s')"
  shows "client_inv (insert xid R) s'" "cl_calls s' xid = None" "cl_calls s xid = Some ca"
  using assms update_keeps(1) [of R "cl_window s" xid]
  by (auto simp: client_inv_def call1_end_def split: option.splits if_splits)

lemma cancel_frame [simp]: "cl_clt_nonce (rpcc_cancel s) = cl_clt_nonce s" "cl_xid (rpcc_cancel s) = cl_xid s"
  by (simp_all add: rpcc_cancel_def Let_def)

lemma cancel_ok:
  assumes "client_inv R s"
  shows "client_inv R (rpcc_cancel s)"
    "cl_calls (rpcc_cancel s) x = Some ca \<Longrightarrow> ca_done ca \<and> call1_result ca = cancel_failure"
  using assms by (auto simp: client_inv_def rpcc_cancel_def call1_result_def Let_def split: if_splits)

section \<open>The retry loop ends\<close>

declare call1_loop.simps [simp del]

text \<open>The clock over the rounds of the loop: it is not set back, and a wait that ends without the call being done has
  lasted until its deadline.\<close>

fun clock_ok :: "int \<Rightarrow> (timespec \<times> bool \<times> bool) list \<Rightarrow> bool" where
  "clock_ok curr_to [] \<longleftrightarrow> True"
| "clock_ok curr_to [(now, d)] \<longleftrightarrow> normal now"
| "clock_ok curr_to ((now, d) # (now', d') # rest) \<longleftrightarrow>
     normal now \<and> ns now + curr_to * 1000000 \<le> ns now' \<and> clock_ok (2 * curr_to) ((now', d') # rest)"

lemma clock_ok_tl: "clock_ok c (r # rs) \<Longrightarrow> clock_ok (2 * c) rs"
  by (cases r; cases rs) auto

lemma clock_ok_hd: "clock_ok c ((now, d) # rs) \<Longrightarrow> normal now"
  by (cases rs) auto

lemma cmp_after:
  assumes "0 \<le> tv_nsec a" "tv_nsec a \<le> 1000000000" "0 \<le> tv_nsec b" "tv_nsec b \<le> 1000000000" "ns b < ns a"
  shows "cmp_timespec a b > 0"
  using assms by (auto simp: cmp_timespec_def ns_def)

text \<open>A round leaves the final deadline as it is and sets the next one, or it is the last.\<close>

lemma deadline_cases:
  assumes "normal now" "0 \<le> curr_to" "0 \<le> tv_nsec final" "tv_nsec final \<le> 1000000000"
  obtains (last) nextd where "call1_deadline now curr_to final = Inr (nextd, final\<lparr>tv_sec := 0\<rparr>)"
  | (more) nextd where "call1_deadline now curr_to final = Inr (nextd, final)" "ns nextd = ns now + curr_to * 1000000"
      "ns nextd \<le> ns final"
proof -
  obtain r where r: "add_timespec now curr_to = Inr r" "ns r = ns now + curr_to * 1000000" "0 \<le> tv_nsec r"
    "tv_nsec r \<le> 1000000000"
    using assms(1,2) by (rule add_timespec_ok)
  show ?thesis
  proof (cases "cmp_timespec r final > 0")
    case True
    then show ?thesis using r(1) by (intro last [of final]) (simp add: call1_deadline_def)
  next
    case False
    then have "ns r \<le> ns final" using cmp_after [OF r(3,4) assms(3,4)] by linarith
    then show ?thesis using False r by (intro more [of r]) (simp_all add: call1_deadline_def)
  qed
qed

lemma loop_bound:
  assumes "clock_ok curr_to rounds" "n \<le> length rounds" "1 \<le> n" "0 < curr_to" "curr_to * 2 ^ n \<le> 2 ^ 30"
    "0 \<le> tv_nsec final" "tv_nsec final \<le> 1000000000"
    "ns final < ns (fst (hd rounds)) + curr_to * (2 ^ n - 1) * 1000000"
  shows "\<exists>d ts. call1_loop retrans final curr_to transmit rounds = Inr (Some (d, ts)) \<and> length ts \<le> n + 1"
  using assms
proof (induction n arbitrary: curr_to rounds transmit)
  case (Suc n)
  obtain now isdone dead rest where rounds: "rounds = (now, isdone, dead) # rest"
    using Suc.prems(2) by (cases rounds) auto
  have pos: "(1 :: int) \<le> 2 ^ n" by simp
  then have small: "curr_to * 2 \<le> curr_to * 2 ^ Suc n"
    using Suc.prems(4) by (intro mult_left_mono) simp_all
  then have le: "curr_to \<le> 2 ^ 29" using Suc.prems(5) by simp
  have now: "normal now" using Suc.prems(1) by (auto simp: rounds dest: clock_ok_hd)
  show ?case
  proof (cases "tv_sec final = 0 \<or> isdone")
    case True
    from now Suc.prems(4) obtain nd fd where "call1_deadline now curr_to final = Inr (nd, fd)"
      using deadline_cases [of now curr_to final] Suc.prems(6,7) by (metis less_imp_le)
    with True show ?thesis by (auto simp: call1_loop.simps [of _ final] rounds)
  next
    case False
    have "0 \<le> curr_to" using Suc.prems(4) by simp
    from now this Suc.prems(6,7) show ?thesis
    proof (cases rule: deadline_cases)
      case (last nextd)
      have "call1_loop retrans (final\<lparr>tv_sec := 0\<rparr>) (2 * curr_to) (retrans \<and> dead) rest =
          Inr (Some (False, [retrans \<and> dead]))"
        by (simp add: call1_loop.simps)
      then show ?thesis
        using False last le by (subst call1_loop.simps) (auto simp: rounds)
    next
      case (more nextd)
      have n: "1 \<le> n"
        using more(2,3) Suc.prems(8) by (cases n) (auto simp: rounds)
      then obtain now' d' rest' where rest: "rest = (now', d') # rest'"
        using Suc.prems(2) by (cases rest) (auto simp: rounds)
      have c1: "clock_ok (2 * curr_to) rest" "ns now + curr_to * 1000000 \<le> ns now'"
        using Suc.prems(1) by (simp_all add: rounds rest)
      have "ns final < ns now + curr_to * (2 ^ Suc n - 1) * 1000000"
        using Suc.prems(8) by (simp add: rounds)
      also have "\<dots> = ns now + curr_to * 1000000 + 2 * curr_to * (2 ^ n - 1) * 1000000"
        by (simp add: algebra_simps)
      also have "\<dots> \<le> ns (fst (hd rest)) + 2 * curr_to * (2 ^ n - 1) * 1000000"
        using c1(2) by (simp add: rest)
      finally have lt: "ns final < ns (fst (hd rest)) + 2 * curr_to * (2 ^ n - 1) * 1000000" .
      have "2 * curr_to * 2 ^ n \<le> 2 ^ 30" using Suc.prems(5) by simp
      then obtain d ts where "call1_loop retrans final (2 * curr_to) (retrans \<and> dead) rest = Inr (Some (d, ts))"
        "length ts \<le> n + 1"
        using Suc.IH [OF c1(1) _ n _ _ Suc.prems(6,7) lt, of "retrans \<and> dead"] Suc.prems(2,4)
        by (auto simp: rounds)
      then show ?thesis
        using False more(1) le by (subst call1_loop.simps) (simp add: rounds)
    qed
  qed
qed simp

lemma call1_loop_ends:
  assumes "clock_ok to_min rounds" "7 \<le> length rounds" "normal start" "0 \<le> to" "to \<le> to_max"
    "add_timespec start to = Inr final" "ns start \<le> ns (fst (hd rounds))"
  shows "\<exists>d ts. call1_loop retrans final to_min True rounds = Inr (Some (d, ts)) \<and> length ts \<le> 8"
proof -
  obtain f where f: "add_timespec start to = Inr f" "ns f = ns start + to * 1000000" "0 \<le> tv_nsec f"
    "tv_nsec f \<le> 1000000000"
    using assms(3,4) by (rule add_timespec_ok)
  then have "ns final < ns (fst (hd rounds)) + to_min * (2 ^ 7 - 1) * 1000000"
    using assms(5-7) by (simp add: to_min_def to_max_def)
  from loop_bound [OF assms(1,2) _ _ _ _ _ this, of retrans True] f assms(6) show ?thesis
    by (simp add: to_min_def)
qed

section \<open>The typed result\<close>

lemma call_m_finish_ok:
  assumes "codec put get enc" "0 \<le> intret" "u_inv u" "u_ok u" "u_rest u = enc y" "int (length (enc y)) \<le> MAX_MSG"
  shows "call_m_finish get r0 intret u = Inr (intret, y)"
proof -
  obtain u' where "get u = Inr (y, u')" "advanced u u' []"
    using codec.get_law [OF assms(1,3,4), of y "[]"] assms(5,6) by auto
  moreover have "okdone u'"
    using calculation(2) assms(4) u_rest_length [of u'] by (auto simp: advanced_def okdone_def)
  ultimately show ?thesis using assms(2) by (simp add: call_m_finish_def)
qed

end
