(* ===== verification/Rpc_System.thy ===== *)
theory Rpc_System
  imports Rpc_Client Extent_Rpc
begin

text \<open>
  Clients, network and server together: the steps of all threads in any order, over a network that may
  lose, repeat and reorder packets, with connections that come and go. Rule induction over the reachable
  states shows that no request is executed twice and that the result a call returns is the one its execution
  produced.
\<close>

section \<open>Steps of the whole system\<close>

text \<open>\<open>'i\<close> names the clients. \<open>sy_jobs\<close> are the dispatch threads behind the at-most-once check, \<open>sy_replying\<close> those whose handler has run.
  \<open>sy_runs\<close> and \<open>sy_results\<close> record what was executed and what the calls returned.\<close>

record ('i, 's) system =
  sy_clients :: "'i \<Rightarrow> rpcc"
  sy_requests :: "('i \<times> byte list) set"
  sy_srv :: "'s world"
  sy_jobs :: "(nat \<times> 's job) list"
  sy_replying :: "(nat \<times> req_header \<times> byte list) list"
  sy_runs :: "((u32 \<times> u32) \<times> byte list) list"
  sy_results :: "('i \<times> u32 \<times> caller) list"

text \<open>\<open>owner\<close> says which client a connection object belongs to. A packet once sent may be delivered any number of
  times or never. The number of calls of a client stays below the range of \<open>xid_\<close>.\<close>

inductive sys_step :: "(nat \<Rightarrow> byte) \<Rightarrow> (nat \<Rightarrow> 'i) \<Rightarrow> ('i, 's) system \<Rightarrow> ('i, 's) system \<Rightarrow> bool"
  for mem :: "nat \<Rightarrow> byte" and owner :: "nat \<Rightarrow> 'i" where
  call_begin: "\<lbrakk>call1_begin i0 proc req (sy_clients s i) = Inr (Inr (xid, rep, req', cl)); m_inv req;
      m_ind req < 2 ^ 31; cl_xid (sy_clients s i) + 1 \<noteq> 0\<rbrakk> \<Longrightarrow>
    sys_step mem owner s (s\<lparr>sy_clients := (sy_clients s)(i := cl),
      sy_requests := insert (i, packet req') (sy_requests s)\<rparr>)"
| serve_admit: "\<lbrakk>(owner c, p) \<in> sy_requests s;
      dispatch_admit mem c ((!) p) (int (length p)) (sy_srv s) = Inr (Some j, w)\<rbrakk> \<Longrightarrow>
    sys_step mem owner s (s\<lparr>sy_srv := w, sy_jobs := (c, j) # sy_jobs s\<rparr>)"
| serve_stop: "\<lbrakk>(owner c, p) \<in> sy_requests s;
      dispatch_admit mem c ((!) p) (int (length p)) (sy_srv s) = Inr (None, w)\<rbrakk> \<Longrightarrow>
    sys_step mem owner s (s\<lparr>sy_srv := w\<rparr>)"
| serve_exec: "\<lbrakk>sy_jobs s = xs @ (c, h, u, f, NEW) # ys; dispatch_exec mem h u f (sy_srv s) = Inr (b1, w)\<rbrakk> \<Longrightarrow>
    sys_step mem owner s (s\<lparr>sy_srv := w, sy_jobs := xs @ ys, sy_replying := (c, h, b1) # sy_replying s,
      sy_runs := ((rq_clt_nonce h, rq_xid h), b1) # sy_runs s\<rparr>)"
| serve_reply: "\<lbrakk>sy_replying s = xs @ (c, h, b1) # ys; dispatch_reply h b1 c (sy_srv s) = Inr w\<rbrakk> \<Longrightarrow>
    sys_step mem owner s (s\<lparr>sy_srv := w, sy_replying := xs @ ys\<rparr>)"
| serve_other: "\<lbrakk>sy_jobs s = xs @ (c, h, u, f, st) # ys; st \<noteq> NEW;
      dispatch_switch mem c (h, u, f, st) (sy_srv s) = Inr w\<rbrakk> \<Longrightarrow>
    sys_step mem owner s (s\<lparr>sy_srv := w, sy_jobs := xs @ ys\<rparr>)"
| connections: "sys_step mem owner s (s\<lparr>sy_srv := (sy_srv s)\<lparr>heap := hp\<rparr>\<rparr>)"
| call_reply: "\<lbrakk>(c, pkt) \<in> set (out (sy_srv s));
      rpcc_got_pdu ((!) pkt) (int (length pkt)) (sy_clients s (owner c)) = Inr cl\<rbrakk> \<Longrightarrow>
    sys_step mem owner s (s\<lparr>sy_clients := (sy_clients s)(owner c := cl)\<rparr>)"
| call_end: "call1_end xid (sy_clients s i) = Some (ca, cl) \<Longrightarrow>
    sys_step mem owner s (s\<lparr>sy_clients := (sy_clients s)(i := cl), sy_results := (i, xid, ca) # sy_results s\<rparr>)"
| call_cancel: "sys_step mem owner s (s\<lparr>sy_clients := (sy_clients s)(i := rpcc_cancel (sy_clients s i))\<rparr>)"
| call_bound: "sys_step mem owner s
    (s\<lparr>sy_clients := (sy_clients s)(i := snd (rpcc_bind_finish ret r (sy_clients s i)))\<rparr>)"

definition sys_init :: "('i \<Rightarrow> u32) \<Rightarrow> 's world \<Rightarrow> ('i, 's) system" where
  "sys_init nonces w =
     \<lparr>sy_clients = (\<lambda>i. rpcc_new True (nonces i) 0), sy_requests = {}, sy_srv = w, sy_jobs = [], sy_replying = [],
      sy_runs = [], sy_results = []\<rparr>"

inductive sys_reach :: "(nat \<Rightarrow> byte) \<Rightarrow> (nat \<Rightarrow> 'i) \<Rightarrow> ('i, 's) system \<Rightarrow> ('i, 's) system \<Rightarrow> bool"
  for mem :: "nat \<Rightarrow> byte" and owner :: "nat \<Rightarrow> 'i" and s0 :: "('i, 's) system" where
  reach_start: "sys_reach mem owner s0 s0"
| reach_step: "sys_reach mem owner s0 s \<Longrightarrow> sys_step mem owner s t \<Longrightarrow> sys_reach mem owner s0 t"

section \<open>Writers stay valid\<close>

text \<open>What every handler built from the marshalling operators guarantees of the reply buffer.\<close>

definition writer_ok :: "marshall \<Rightarrow> bool" where
  "writer_ok m \<longleftrightarrow> m_inv m \<and> m_capa m < 2 ^ 31"

definition put_safe :: "(marshall \<Rightarrow> 'a \<Rightarrow> marshall res) \<Rightarrow> bool" where
  "put_safe put \<longleftrightarrow> (\<forall>m x m'. writer_ok m \<longrightarrow> put m x = Inr m' \<longrightarrow> writer_ok m')"

definition handler_safe :: "'s handler \<Rightarrow> bool" where
  "handler_safe f \<longleftrightarrow> (\<forall>u m s ret m' s'. writer_ok m \<longrightarrow> f u m s = Inr (ret, m', s') \<longrightarrow> writer_ok m')"

lemma store_safe:
  assumes "m_buf m \<noteq> None" "RPC_HEADER_SZ \<le> m_ind m" "DEFAULT_RPC_SZ \<le> m_capa m" "m_capa m < 2 ^ 31"
    "m_capa m \<le> max DEFAULT_RPC_SZ (2 * (m_ind m + int (length bs)))" "m_store m bs = Inr m'"
  shows "writer_ok m'"
  using assms by (auto simp: m_store_def writer_ok_def m_inv_def split: option.splits if_splits)

lemma rawbyte_safe: "writer_ok m \<Longrightarrow> m_rawbyte m x = Inr m' \<Longrightarrow> writer_ok m'"
  by (auto simp: m_rawbyte_def m_grow_def fault_simps writer_ok_def [of m] m_inv_def VERIFY_def rpc_sizes
      split: if_splits elim!: store_safe [rotated -1])

lemma rawbyte_seq_safe: "writer_ok m \<Longrightarrow> m_rawbyte_seq m bs = Inr m' \<Longrightarrow> writer_ok m'"
  by (induction bs arbitrary: m) (auto simp: fault_simps dest: rawbyte_safe)

lemma rawbytes_safe: "writer_ok m \<Longrightarrow> m_rawbytes m p n = Inr m' \<Longrightarrow> writer_ok m'"
  by (auto simp: m_rawbytes_def m_grow_def fault_simps writer_ok_def [of m] m_inv_def VERIFY_def rpc_sizes
      split: if_splits elim!: store_safe [rotated -1])

lemma put_u32_safe: "put_safe put_u32"
  unfolding put_safe_def put_u32_def by (blast intro: rawbyte_seq_safe)

lemma put_safeD: "put_safe put \<Longrightarrow> put m x = Inr m' \<Longrightarrow> writer_ok m \<Longrightarrow> writer_ok m'"
  by (auto simp: put_safe_def)

lemma put_string_safe: "put_safe put_string"
  by (auto simp: put_safe_def [of put_string] put_string_def fault_simps
      dest: rawbytes_safe put_safeD [OF put_u32_safe])

lemma put_attr_safe: "put_safe put_attr"
  by (auto simp: put_safe_def [of put_attr] put_attr_def fault_simps dest!: put_safeD [OF put_u32_safe])

lemma handler1_safe: "put_safe put \<Longrightarrow> handler_safe (handler1 get put r0 meth)"
  by (auto simp: put_safe_def handler_safe_def handler1_def fault_simps split: if_splits)

lemma extent_procs_safe: "extent_procs junk r0 a0 nonce p = Some f \<Longrightarrow> handler_safe f"
  by (auto simp: extent_procs_def h_get_def h_getattr_def h_put_def h_remove_def handler2_pair split: if_splits
      intro!: handler1_safe put_u32_safe put_string_safe put_attr_safe)

lemma writer_new: "writer_ok (marshall_new mem)"
  using marshall_new_inv(1) [of mem] by (simp add: writer_ok_def marshall_new_def rpc_sizes)

section \<open>Effects of the stages of dispatch\<close>

lemma conn_ops_frame:
  "conn_incref c w = Inr w' \<Longrightarrow> srv w' = srv w \<and> app w' = app w \<and> out w' = out w"
  "conn_decref c w = Inr w' \<Longrightarrow> srv w' = srv w \<and> app w' = app w \<and> out w' = out w"
  by (auto simp: conn_incref_def conn_decref_def fault_simps)

lemma conn_send_frame:
  "conn_send c pkt w = Inr w' \<Longrightarrow> srv w' = srv w \<and> (out w' = out w \<or> out w' = out w @ [(c, pkt)])"
  by (auto simp: conn_send_def fault_simps split: if_splits)

lemma save_conn_frame:
  assumes "save_conn clt c w = Inr w'"
  shows "out w' = out w \<and> (srv w' = srv w \<or> srv w' = (srv w)\<lparr>sv_conns := (sv_conns (srv w))(clt \<mapsto> c)\<rparr>)"
  using assms by (auto simp: save_conn_def fault_simps dest!: conn_ops_frame split: option.splits if_splits)

lemma send_release_frame:
  assumes "bindE (conn_send c pkt w) (conn_decref c) = Inr w'"
  shows "srv w' = srv w \<and> (out w' = out w \<or> out w' = out w @ [(c, pkt)])"
  using assms by (auto simp: fault_simps dest!: conn_send_frame conn_ops_frame)

lemma admit_frame:
  assumes req: "carries_request b sz h0 args"
    and ad: "dispatch_admit mem c b sz w = Inr (Some (h, u, f, st), w')" and clt: "rq_clt_nonce h0 \<noteq> 0"
  shows "h = h0" "out w' = out w" "sv_procs (srv w) (rq_proc h) = Some f" "sv_procs (srv w') = sv_procs (srv w)"
    "checkduplicate_and_update (sv_reply_window (srv w)) (rq_clt_nonce h) (rq_xid h) (rq_xid_rep h) =
       (st, sv_reply_window (srv w'))"
    "sv_conns (srv w') = sv_conns (srv w) \<or> sv_conns (srv w') = (sv_conns (srv w))(rq_clt_nonce h \<mapsto> c)"
proof -
  obtain u0 where u0: "unpack_req_header (unmarshall_new b sz) = Inr (h0, u0)"
    using req by (rule unpack_request)
  let ?chk = "\<lambda>w. checkduplicate_and_update (sv_reply_window (srv w)) (rq_clt_nonce h) (rq_xid h) (rq_xid_rep h)"
  from ad u0 clt obtain w1 where a: "h = h0" "sv_procs (srv w) (rq_proc h) = Some f"
    "save_conn (rq_clt_nonce h) c w = Inr w1" "fst (?chk w1) = st"
    "w' = w1\<lparr>srv := (srv w1)\<lparr>sv_reply_window := snd (?chk w1)\<rparr>\<rparr>"
    by (auto simp: dispatch_admit_def fault_simps case_prod_beta split: if_split_asm option.split_asm)
  from save_conn_frame [OF a(3)] a show "h = h0" "out w' = out w" "sv_procs (srv w) (rq_proc h) = Some f"
    "sv_procs (srv w') = sv_procs (srv w)"
    "checkduplicate_and_update (sv_reply_window (srv w)) (rq_clt_nonce h) (rq_xid h) (rq_xid_rep h) =
       (st, sv_reply_window (srv w'))"
    "sv_conns (srv w') = sv_conns (srv w) \<or> sv_conns (srv w') = (sv_conns (srv w))(rq_clt_nonce h \<mapsto> c)"
    by (auto simp: prod_eq_iff)
qed

text \<open>A packet that carries nothing but a failure code for a request.\<close>

definition refusal :: "u32 \<Rightarrow> byte list \<Rightarrow> bool" where
  "refusal xid pkt \<longleftrightarrow> (\<exists>h. carries_reply ((!) pkt) (int (length pkt)) h [] \<and> rp_xid h = xid \<and> sint (rp_ret h) < 0)"

lemma header_reply_refusal:
  assumes "header_reply mem xid ret = Inr pkt" "ret = oldsrv_failure \<or> ret = atmostonce_failure"
  shows "refusal xid pkt"
proof -
  obtain pkt' where "header_reply mem xid ret = Inr pkt'"
    "carries_reply ((!) pkt') (int (length pkt')) \<lparr>rp_xid = xid, rp_ret = word_of_int ret\<rparr> []"
    by (rule header_reply_ok)
  moreover have "sint (word_of_int ret :: u32) < 0"
    using assms(2) by (auto simp: oldsrv_failure_def atmostonce_failure_def)
  ultimately show ?thesis using assms(1) by (auto simp: refusal_def)
qed

lemma stop_frame:
  assumes req: "carries_request b sz h args" and ad: "dispatch_admit mem c b sz w = Inr (None, w')"
  shows "srv w' = srv w" "out w' = out w \<or> (\<exists>pkt. out w' = out w @ [(c, pkt)] \<and> refusal (rq_xid h) pkt)"
proof -
  obtain u where u: "unpack_req_header (unmarshall_new b sz) = Inr (h, u)" "u_ok u"
    by (rule unpack_request [OF req]) (rule that)
  then obtain pkt where "header_reply mem (rq_xid h) oldsrv_failure = Inr pkt" "conn_send c pkt w = Inr w'"
    using ad by (auto simp: dispatch_admit_def fault_simps case_prod_beta split: if_split_asm option.split_asm)
  then show "srv w' = srv w" "out w' = out w \<or> (\<exists>pkt. out w' = out w @ [(c, pkt)] \<and> refusal (rq_xid h) pkt)"
    using header_reply_refusal by (auto dest!: conn_send_frame)
qed

lemma exec_frame:
  assumes "dispatch_exec mem h u f w = Inr (b1, w')" "handler_safe f"
  shows "out w' = out w" "sv_procs (srv w') = sv_procs (srv w)" "sv_reply_window (srv w') = sv_reply_window (srv w)"
    "sv_conns (srv w') = sv_conns (srv w)"
    "\<exists>ret res. 0 \<le> ret \<and> carries_reply ((!) b1) (int (length b1)) \<lparr>rp_xid = rq_xid h, rp_ret = word_of_int ret\<rparr> res"
proof -
  from assms(1) obtain ret rep a rep' where r: "f u (marshall_new mem) (app w) = Inr (ret, rep, a)" "0 \<le> ret"
    "pack_reply_header rep \<lparr>rp_xid = rq_xid h, rp_ret = word_of_int ret\<rparr> = Inr rep'" "b1 = packet rep'"
    "w' = w\<lparr>srv := if sv_counting (srv w) \<noteq> 0 then updatestat (rq_proc h) (srv w) else srv w, app := a\<rparr>"
    by (auto simp: dispatch_exec_def Let_def fault_simps VERIFY_def split: if_splits)
  then show "out w' = out w" "sv_procs (srv w') = sv_procs (srv w)"
    "sv_reply_window (srv w') = sv_reply_window (srv w)" "sv_conns (srv w') = sv_conns (srv w)"
    by simp_all
  have "writer_ok rep" using assms(2) writer_new [of mem] r(1) unfolding handler_safe_def by blast
  then have m: "m_inv rep" "m_ind rep < 2 ^ 31" by (auto simp: writer_ok_def m_inv_def)
  let ?h = "\<lparr>rp_xid = rq_xid h, rp_ret = word_of_int ret\<rparr>"
  obtain m' b where m': "pack_reply_header rep ?h = Inr m'" "m_buf m' = Some b" "m_inv m'" "m_ind m' = m_ind rep"
    "carries_reply b (m_ind m') ?h (get_content rep)"
    by (rule pack_reply_carries [OF m, of ?h]) (rule that)
  have "int (length (packet m')) = m_ind m'" using m'(3) by (simp add: packet_def m_inv_def rpc_sizes)
  then have "carries_reply ((!) (packet m')) (int (length (packet m'))) ?h (get_content rep)"
    using carries_list [OF m'(5) [unfolded carries_reply_def]] m'(2) by (simp add: carries_reply_def packet_def)
  with r m'(1) show "\<exists>ret res. 0 \<le> ret \<and> carries_reply ((!) b1) (int (length b1)) \<lparr>rp_xid = rq_xid h, rp_ret = word_of_int ret\<rparr> res"
    by auto
qed

lemma reply_frame:
  assumes "dispatch_reply h b1 c w = Inr w'" "rq_clt_nonce h \<noteq> 0"
  shows "sv_procs (srv w') = sv_procs (srv w)" "sv_conns (srv w') = sv_conns (srv w)"
    "sv_reply_window (srv w') = add_reply (sv_reply_window (srv w)) (rq_clt_nonce h) (rq_xid h) b1"
    "out w' = out w \<or> (\<exists>c'. out w' = out w @ [(c', b1)] \<and> (c' = c \<or> sv_conns (srv w) (rq_clt_nonce h) = Some c'))"
proof -
  have pos: "rq_clt_nonce h > 0" using assms(2) by (simp add: word_neq_0_conv)
  let ?w = "w\<lparr>srv := (srv w)\<lparr>sv_reply_window := add_reply (sv_reply_window (srv w)) (rq_clt_nonce h) (rq_xid h) b1\<rparr>\<rparr>"
  obtain c' w1 where l: "latest_conn (rq_clt_nonce h) c ?w = Inr (c', w1)"
    "bindE (conn_send c' b1 w1) (conn_decref c') = Inr w'"
    using assms(1) pos by (auto simp: dispatch_reply_def fault_simps)
  have "srv w1 = srv ?w \<and> out w1 = out w \<and> (c' = c \<or> sv_conns (srv w) (rq_clt_nonce h) = Some c')"
    using l(1) by (auto simp: latest_conn_def fault_simps dest!: conn_ops_frame split: if_splits option.splits)
  with send_release_frame [OF l(2)] show "sv_procs (srv w') = sv_procs (srv w)" "sv_conns (srv w') = sv_conns (srv w)"
    "sv_reply_window (srv w') = add_reply (sv_reply_window (srv w)) (rq_clt_nonce h) (rq_xid h) b1"
    "out w' = out w \<or> (\<exists>c'. out w' = out w @ [(c', b1)] \<and> (c' = c \<or> sv_conns (srv w) (rq_clt_nonce h) = Some c'))"
    by auto
qed

lemma switch_frame:
  assumes "dispatch_switch mem c (h, u, f, st) w = Inr w'" "st \<noteq> NEW"
  shows "srv w' = srv w"
    "out w' = out w \<or> (\<exists>pkt. out w' = out w @ [(c, pkt)] \<and> (st = DONE pkt \<or> refusal (rq_xid h) pkt))"
proof -
  have "srv w' = srv w \<and>
    (out w' = out w \<or> (\<exists>pkt. out w' = out w @ [(c, pkt)] \<and> (st = DONE pkt \<or> refusal (rq_xid h) pkt)))"
  proof (cases st)
    case INPROGRESS
    then show ?thesis using assms(1) by (auto simp: dispatch_switch_def dest!: conn_ops_frame)
  next
    case (DONE b1)
    then have "bindE (conn_send c b1 w) (conn_decref c) = Inr w'" using assms(1) by (simp add: dispatch_switch_def)
    from send_release_frame [OF this] DONE show ?thesis by auto
  next
    case FORGOTTEN
    then obtain pkt where p: "header_reply mem (rq_xid h) atmostonce_failure = Inr pkt"
      "bindE (conn_send c pkt w) (conn_decref c) = Inr w'"
      using assms(1) by (auto simp: dispatch_switch_def bindE_eq_Inr [of "header_reply _ _ _"])
    from send_release_frame [OF p(2)] header_reply_refusal [OF p(1)] show ?thesis by auto
  qed (use assms(2) in simp)
  then show "srv w' = srv w"
    "out w' = out w \<or> (\<exists>pkt. out w' = out w @ [(c, pkt)] \<and> (st = DONE pkt \<or> refusal (rq_xid h) pkt))"
    by auto
qed

section \<open>The invariant\<close>

text \<open>Nonces are non-zero and different; this is what the clients' random numbers are relied on for.\<close>

definition nonce_of :: "('i, 's) system \<Rightarrow> 'i \<Rightarrow> u32" where
  "nonce_of s i = cl_clt_nonce (sy_clients s i)"

definition clients_ok :: "('i, 's) system \<Rightarrow> bool" where
  "clients_ok s \<longleftrightarrow> inj (nonce_of s) \<and> (\<forall>i. nonce_of s i \<noteq> 0 \<and> (\<exists>R. client_inv R (sy_clients s i)))"

definition procs_ok :: "('i, 's) system \<Rightarrow> bool" where
  "procs_ok s \<longleftrightarrow> (\<forall>p f. sv_procs (srv (sy_srv s)) p = Some f \<longrightarrow> handler_safe f) \<and>
     (\<forall>c h u f st. (c, h, u, f, st) \<in> set (sy_jobs s) \<longrightarrow> handler_safe f)"

definition requests_ok :: "('i, 's) system \<Rightarrow> bool" where
  "requests_ok s \<longleftrightarrow> (\<forall>i p. (i, p) \<in> sy_requests s \<longrightarrow>
     (\<exists>h args. carries_request ((!) p) (int (length p)) h args \<and> rq_clt_nonce h = nonce_of s i \<and>
        rq_xid_rep h \<le> rq_xid h \<and> rq_xid h < cl_xid (sy_clients s i)))"

text \<open>Every header a server thread works on came from the client its connection belongs to.\<close>

definition from_owner :: "(nat \<Rightarrow> 'i) \<Rightarrow> ('i, 's) system \<Rightarrow> nat \<Rightarrow> req_header \<Rightarrow> bool" where
  "from_owner owner s c h \<longleftrightarrow> rq_clt_nonce h = nonce_of s (owner c) \<and> rq_xid h < cl_xid (sy_clients s (owner c))"

definition threads_ok :: "(nat \<Rightarrow> 'i) \<Rightarrow> ('i, 's) system \<Rightarrow> bool" where
  "threads_ok owner s \<longleftrightarrow>
     (\<forall>c h u f st. (c, h, u, f, st) \<in> set (sy_jobs s) \<longrightarrow> from_owner owner s c h \<and>
        (\<forall>b. st = DONE b \<longrightarrow> ((rq_clt_nonce h, rq_xid h), b) \<in> set (sy_runs s))) \<and>
     (\<forall>c h b. (c, h, b) \<in> set (sy_replying s) \<longrightarrow> from_owner owner s c h \<and>
        ((rq_clt_nonce h, rq_xid h), b) \<in> set (sy_runs s)) \<and>
     (\<forall>clt c. sv_conns (srv (sy_srv s)) clt = Some c \<longrightarrow> nonce_of s (owner c) = clt)"

text \<open>The requests being executed or executed: each was admitted, and none twice.\<close>

definition job_keys :: "('i, 's) system \<Rightarrow> (u32 \<times> u32) list" where
  "job_keys s = map (\<lambda>(c, h, u, f, st). (rq_clt_nonce h, rq_xid h)) (filter (\<lambda>(c, h, u, f, st). st = NEW) (sy_jobs s))"

definition once_ok :: "('i, 's) system \<Rightarrow> bool" where
  "once_ok s \<longleftrightarrow> (\<exists>A. win_inv A (sv_reply_window (srv (sy_srv s))) \<and>
     distinct (job_keys s @ map fst (sy_runs s)) \<and> set (job_keys s @ map fst (sy_runs s)) \<subseteq> A)"

text \<open>What was executed gave a proper reply; what is recorded, sent and returned is what was executed.\<close>

definition runs_ok :: "('i, 's) system \<Rightarrow> bool" where
  "runs_ok s \<longleftrightarrow> (\<forall>clt xid b. ((clt, xid), b) \<in> set (sy_runs s) \<longrightarrow>
     (\<exists>ret res. 0 \<le> ret \<and> carries_reply ((!) b) (int (length b)) \<lparr>rp_xid = xid, rp_ret = word_of_int ret\<rparr> res))"

definition recorded_ok :: "('i, 's) system \<Rightarrow> bool" where
  "recorded_ok s \<longleftrightarrow> (\<forall>clt r. r \<in> set (window_of (sv_reply_window (srv (sy_srv s))) clt) \<longrightarrow> cb_present r \<longrightarrow>
     ((clt, r_xid r), r_buf r) \<in> set (sy_runs s))"

definition sent_ok :: "(nat \<Rightarrow> 'i) \<Rightarrow> ('i, 's) system \<Rightarrow> bool" where
  "sent_ok owner s \<longleftrightarrow> (\<forall>c pkt. (c, pkt) \<in> set (out (sy_srv s)) \<longrightarrow>
     (\<exists>xid. xid < cl_xid (sy_clients s (owner c)) \<and>
        (refusal xid pkt \<or> ((nonce_of s (owner c), xid), pkt) \<in> set (sy_runs s))))"

text \<open>A call that is done with a non-negative code holds the reply of its execution.\<close>

definition answered :: "('i, 's) system \<Rightarrow> 'i \<Rightarrow> u32 \<Rightarrow> caller \<Rightarrow> bool" where
  "answered s i xid ca \<longleftrightarrow> (ca_done ca \<and> 0 \<le> ca_intret ca \<longrightarrow>
     (\<exists>pkt h res. ((nonce_of s i, xid), pkt) \<in> set (sy_runs s) \<and> carries_reply ((!) pkt) (int (length pkt)) h res \<and>
        rp_xid h = xid \<and> ca_intret ca = sint (rp_ret h) \<and> u_inv (ca_un ca) \<and> u_ok (ca_un ca) \<and> u_rest (ca_un ca) = res))"

definition calls_ok :: "('i, 's) system \<Rightarrow> bool" where
  "calls_ok s \<longleftrightarrow> (\<forall>i xid ca. cl_calls (sy_clients s i) xid = Some ca \<longrightarrow> answered s i xid ca) \<and>
     (\<forall>i xid ca. (i, xid, ca) \<in> set (sy_results s) \<longrightarrow> answered s i xid ca)"

definition sys_inv :: "(nat \<Rightarrow> 'i) \<Rightarrow> ('i, 's) system \<Rightarrow> bool" where
  "sys_inv owner s \<longleftrightarrow> clients_ok s \<and> procs_ok s \<and> requests_ok s \<and> threads_ok owner s \<and> once_ok s \<and> runs_ok s \<and>
     recorded_ok s \<and> sent_ok owner s \<and> calls_ok s"

lemmas sys_parts = clients_ok_def procs_ok_def requests_ok_def threads_ok_def once_ok_def runs_ok_def recorded_ok_def
  sent_ok_def calls_ok_def

lemma sys_inv_init:
  assumes "inj nonces" "\<forall>i. nonces i \<noteq> 0" "\<forall>p f. sv_procs (srv w) p = Some f \<longrightarrow> handler_safe f"
    "sv_reply_window (srv w) = Map.empty" "sv_conns (srv w) = Map.empty" "out w = []"
  shows "sys_inv owner (sys_init nonces w)"
proof -
  let ?s = "sys_init nonces w"
  have n: "nonce_of ?s = nonces" by (simp add: fun_eq_iff nonce_of_def sys_init_def rpcc_new_def)
  have "clients_ok ?s"
    using assms(1,2) client_inv_new unfolding clients_ok_def n
    by (auto simp: sys_init_def intro!: exI [of _ "{}"])
  moreover have "once_ok ?s"
    using assms(4) win_inv_empty by (auto simp: once_ok_def sys_init_def job_keys_def)
  moreover have "procs_ok ?s" "requests_ok ?s" "threads_ok owner ?s" "runs_ok ?s" "recorded_ok ?s" "sent_ok owner ?s"
    "calls_ok ?s"
    using assms(3-6)
    by (simp_all add: procs_ok_def requests_ok_def threads_ok_def runs_ok_def recorded_ok_def sent_ok_def calls_ok_def
        sys_init_def window_of_def rpcc_new_def)
  ultimately show ?thesis by (simp add: sys_inv_def)
qed

section \<open>Steps of the clients\<close>

lemma client_update:
  assumes inv: "sys_inv owner s" and n: "cl_clt_nonce cl = cl_clt_nonce (sy_clients s i)"
    and x: "cl_xid (sy_clients s i) \<le> cl_xid cl" and c: "client_inv R cl"
    and ans: "\<And>xid ca. cl_calls cl xid = Some ca \<Longrightarrow> answered s i xid ca"
  shows "sys_inv owner (s\<lparr>sy_clients := (sy_clients s)(i := cl)\<rparr>)"
proof -
  let ?t = "s\<lparr>sy_clients := (sy_clients s)(i := cl)\<rparr>"
  have non: "nonce_of ?t = nonce_of s" using n by (simp add: fun_eq_iff nonce_of_def)
  have old: "y < cl_xid (sy_clients ?t j)" if "y < cl_xid (sy_clients s j)" for y j
    using that x by auto
  have a: "answered ?t = answered s" by (simp add: fun_eq_iff answered_def non)
  have "clients_ok ?t" using inv c by (auto simp: sys_inv_def clients_ok_def non)
  moreover have "procs_ok ?t" "once_ok ?t" "runs_ok ?t" "recorded_ok ?t"
    using inv by (auto simp: sys_inv_def procs_ok_def once_ok_def runs_ok_def recorded_ok_def job_keys_def)
  moreover have "requests_ok ?t"
    using inv old by (auto simp: sys_inv_def requests_ok_def non simp del: fun_upd_apply) blast
  moreover have "from_owner owner ?t c h" if "from_owner owner s c h" for c h
    using that old by (auto simp: from_owner_def non simp del: fun_upd_apply)
  then have "threads_ok owner ?t"
    using inv by (auto simp: sys_inv_def threads_ok_def non)
  moreover have "sent_ok owner ?t"
    using inv old by (auto simp: sys_inv_def sent_ok_def non simp del: fun_upd_apply) blast
  moreover have "calls_ok ?t"
    using inv ans by (auto simp: sys_inv_def calls_ok_def a)
  ultimately show ?thesis by (simp add: sys_inv_def)
qed

lemma add_request:
  assumes "sys_inv owner s" "carries_request ((!) p) (int (length p)) h args" "rq_clt_nonce h = nonce_of s i"
    "rq_xid_rep h \<le> rq_xid h" "rq_xid h < cl_xid (sy_clients s i)"
  shows "sys_inv owner (s\<lparr>sy_requests := insert (i, p) (sy_requests s)\<rparr>)"
proof -
  let ?t = "s\<lparr>sy_requests := insert (i, p) (sy_requests s)\<rparr>"
  have non: "nonce_of ?t = nonce_of s" by (simp add: fun_eq_iff nonce_of_def)
  have a: "answered ?t = answered s" by (simp add: fun_eq_iff answered_def non)
  have fo: "from_owner owner ?t = from_owner owner s" by (simp add: fun_eq_iff from_owner_def non)
  have "requests_ok ?t" using assms by (auto simp: sys_inv_def requests_ok_def non)
  then show ?thesis
    using assms(1) by (simp add: sys_inv_def sys_parts non job_keys_def fo a)
qed

lemma add_result:
  assumes "sys_inv owner s" "answered s i xid ca"
  shows "sys_inv owner (s\<lparr>sy_results := (i, xid, ca) # sy_results s\<rparr>)"
proof -
  let ?t = "s\<lparr>sy_results := (i, xid, ca) # sy_results s\<rparr>"
  have non: "nonce_of ?t = nonce_of s" by (simp add: fun_eq_iff nonce_of_def)
  have a: "answered ?t = answered s" by (simp add: fun_eq_iff answered_def non)
  have fo: "from_owner owner ?t = from_owner owner s" by (simp add: fun_eq_iff from_owner_def non)
  have "calls_ok ?t" using assms by (auto simp: sys_inv_def calls_ok_def a)
  then show ?thesis
    using assms(1) by (simp add: sys_inv_def sys_parts non job_keys_def fo a)
qed

lemma inv_client:
  assumes "sys_inv owner s"
  shows "\<exists>R. client_inv R (sy_clients s i) \<and>
    (\<forall>x ca. cl_calls (sy_clients s i) x = Some ca \<longrightarrow> answered s i x ca)"
proof -
  obtain R where "client_inv R (sy_clients s i)" using assms unfolding sys_inv_def clients_ok_def by blast
  moreover have "\<forall>x ca. cl_calls (sy_clients s i) x = Some ca \<longrightarrow> answered s i x ca"
    using assms by (auto simp: sys_inv_def calls_ok_def)
  ultimately show ?thesis by blast
qed

lemma begin_step:
  assumes inv: "sys_inv owner s" and b: "call1_begin i0 proc req (sy_clients s i) = Inr (Inr (xid, rep, req', cl))"
    and m: "m_inv req" "m_ind req < 2 ^ 31" and nz: "cl_xid (sy_clients s i) + 1 \<noteq> 0"
  shows "sys_inv owner (s\<lparr>sy_clients := (sy_clients s)(i := cl), sy_requests := insert (i, packet req') (sy_requests s)\<rparr>)"
proof -
  let ?c = "sy_clients s i"
  obtain R where R: "client_inv R ?c" "\<And>x ca. cl_calls ?c x = Some ca \<Longrightarrow> answered s i x ca"
    using inv_client [OF inv] by blast
  have bound: "proc = RPC_BIND \<longleftrightarrow> \<not> cl_bind_done ?c" "\<not> cl_destroy_wait ?c"
    using b by (auto simp: call1_begin_def split: if_splits)
  let ?h = "\<lparr>rq_xid = cl_xid ?c, rq_proc = proc, rq_clt_nonce = cl_clt_nonce ?c, rq_srv_nonce = cl_srv_nonce ?c,
      rq_xid_rep = hd (cl_window ?c)\<rparr>"
  obtain req1 s1 buf where c: "call1_begin i0 proc req ?c = Inr (Inr (cl_xid ?c, hd (cl_window ?c), req1, s1))"
    "m_buf req1 = Some buf" "m_ind req1 = m_ind req" "carries_request buf (m_ind req1) ?h (get_content req)"
    "hd (cl_window ?c) < cl_xid ?c" "client_inv R s1" "cl_xid s1 = cl_xid ?c + 1" "cl_clt_nonce s1 = cl_clt_nonce ?c"
    "cl_calls ?c (cl_xid ?c) = None"
    "cl_calls s1 = (cl_calls ?c)(cl_xid ?c \<mapsto>
       \<lparr>ca_xid = cl_xid ?c, ca_un = unmarshall_empty, ca_intret = i0, ca_done = False\<rparr>)"
    by (rule call1_begin_ok [OF R(1) m nz bound]) (rule that)
  then have eq: "s1 = cl" "req1 = req'" using b by simp_all
  have lt: "cl_xid ?c < cl_xid ?c + 1" using next_xid [OF nz] .
  let ?t = "s\<lparr>sy_clients := (sy_clients s)(i := cl)\<rparr>"
  have "answered s i x ca" if "cl_calls cl x = Some ca" for x ca
    using that R(2) c(10) eq by (auto simp: answered_def split: if_splits)
  then have t: "sys_inv owner ?t"
    using client_update [OF inv, of cl i R] c(6-8) lt eq by simp
  have "int (length (packet req')) = m_ind req'"
    using c(3) eq(2) m(1) by (simp add: packet_def m_inv_def rpc_sizes)
  then have "carries_request ((!) (packet req')) (int (length (packet req'))) ?h (get_content req)"
    using carries_list [OF c(4) [unfolded carries_request_def]] c(2) eq(2)
    by (simp add: carries_request_def packet_def)
  from add_request [OF t this, of i] c(5,7) lt eq show ?thesis
    by (simp add: nonce_of_def c(8) [unfolded eq])
qed

lemma reply_step:
  assumes inv: "sys_inv owner s" and o: "(c, pkt) \<in> set (out (sy_srv s))"
    and g: "rpcc_got_pdu ((!) pkt) (int (length pkt)) (sy_clients s (owner c)) = Inr cl"
  shows "sys_inv owner (s\<lparr>sy_clients := (sy_clients s)(owner c := cl)\<rparr>)"
proof -
  let ?i = "owner c" and ?c = "sy_clients s (owner c)"
  obtain R where R: "client_inv R ?c" "\<And>x ca. cl_calls ?c x = Some ca \<Longrightarrow> answered s ?i x ca"
    using inv_client [OF inv] by blast
  obtain xid where x: "xid < cl_xid ?c" "refusal xid pkt \<or> ((nonce_of s ?i, xid), pkt) \<in> set (sy_runs s)"
    using inv o by (auto simp: sys_inv_def sent_ok_def)
  obtain h res where h: "carries_reply ((!) pkt) (int (length pkt)) h res" "rp_xid h = xid"
    "0 \<le> sint (rp_ret h) \<longrightarrow> ((nonce_of s ?i, xid), pkt) \<in> set (sy_runs s)"
  proof (cases "refusal xid pkt")
    case True
    then obtain h where "carries_reply ((!) pkt) (int (length pkt)) h []" "rp_xid h = xid" "sint (rp_ret h) < 0"
      by (auto simp: refusal_def)
    then show ?thesis by (intro that [of h "[]"]) simp_all
  next
    case False
    then have r: "((nonce_of s ?i, xid), pkt) \<in> set (sy_runs s)" using x(2) by simp
    then obtain ret res where
      "carries_reply ((!) pkt) (int (length pkt)) \<lparr>rp_xid = xid, rp_ret = word_of_int ret\<rparr> res"
      using inv unfolding sys_inv_def runs_ok_def by blast
    with r show ?thesis by (intro that [of "\<lparr>rp_xid = xid, rp_ret = word_of_int ret\<rparr>" res]) simp_all
  qed
  have lt: "rp_xid h < cl_xid ?c" using h(2) x(1) by simp
  obtain s' where s': "rpcc_got_pdu ((!) pkt) (int (length pkt)) ?c = Inr s'" "client_inv (insert (rp_xid h) R) s'"
    "cl_xid s' = cl_xid ?c" "cl_clt_nonce s' = cl_clt_nonce ?c"
    "\<And>x. x \<noteq> rp_xid h \<Longrightarrow> cl_calls s' x = cl_calls ?c x"
    "\<And>ca. cl_calls ?c (rp_xid h) = Some ca \<Longrightarrow> \<exists>ca'. cl_calls s' (rp_xid h) = Some ca' \<and> ca_done ca' \<and>
       (if ca_done ca then ca' = ca
        else ca_intret ca' = sint (rp_ret h) \<and> u_inv (ca_un ca') \<and> u_ok (ca_un ca') \<and> u_rest (ca_un ca') = res)"
    "cl_calls ?c (rp_xid h) = None \<Longrightarrow> cl_calls s' (rp_xid h) = None"
    by (rule got_pdu_ok [OF R(1) h(1) lt]) (rule that)
  have eq: "s' = cl" using s'(1) g by simp
  have "answered s ?i x ca" if ca: "cl_calls cl x = Some ca" for x ca
  proof (cases "x = rp_xid h")
    case True
    then obtain ca0 where ca0: "cl_calls ?c (rp_xid h) = Some ca0"
      using s'(7) ca eq by (cases "cl_calls ?c (rp_xid h)") auto
    show ?thesis
      using s'(6) [OF ca0] R(2) [OF ca0] ca h eq True by (auto simp: answered_def split: if_splits)
  next
    case False
    then show ?thesis using s'(5) R(2) ca eq by auto
  qed
  then show ?thesis
    using client_update [OF inv, of cl ?i "insert (rp_xid h) R"] s' eq by simp
qed

lemma end_step:
  assumes inv: "sys_inv owner s" and e: "call1_end xid (sy_clients s i) = Some (ca, cl)"
  shows "sys_inv owner (s\<lparr>sy_clients := (sy_clients s)(i := cl), sy_results := (i, xid, ca) # sy_results s\<rparr>)"
proof -
  obtain R where R: "client_inv R (sy_clients s i)" "\<And>x ca. cl_calls (sy_clients s i) x = Some ca \<Longrightarrow> answered s i x ca"
    using inv_client [OF inv] by blast
  let ?t = "s\<lparr>sy_clients := (sy_clients s)(i := cl)\<rparr>"
  have cl: "cl_clt_nonce cl = cl_clt_nonce (sy_clients s i)" "cl_xid cl = cl_xid (sy_clients s i)"
    "\<And>x ca. cl_calls cl x = Some ca \<Longrightarrow> cl_calls (sy_clients s i) x = Some ca"
    using e by (auto simp: call1_end_def split: option.splits if_splits)
  have t: "sys_inv owner ?t"
    using client_update [OF inv cl(1) _ call1_end_ok(1) [OF R(1) e]] cl(2,3) R(2) by simp
  have "answered s i xid ca" using R(2) call1_end_ok(3) [OF R(1) e] by simp
  then have "answered ?t i xid ca" using cl(1) by (auto simp: answered_def nonce_of_def)
  from add_result [OF t this] show ?thesis by simp
qed

lemma cancel_step:
  assumes inv: "sys_inv owner s"
  shows "sys_inv owner (s\<lparr>sy_clients := (sy_clients s)(i := rpcc_cancel (sy_clients s i))\<rparr>)"
proof -
  obtain R where R: "client_inv R (sy_clients s i)"
    using inv_client [OF inv] by blast
  have "answered s i x ca" if "cl_calls (rpcc_cancel (sy_clients s i)) x = Some ca" for x ca
    using cancel_ok(2) [OF R that] by (auto simp: answered_def call1_result_def cancel_failure_def)
  then show ?thesis
    by (intro client_update [OF inv _ _ cancel_ok(1) [OF R]]) simp_all
qed

lemma bound_step:
  assumes inv: "sys_inv owner s"
  shows "sys_inv owner (s\<lparr>sy_clients := (sy_clients s)(i := snd (rpcc_bind_finish ret r (sy_clients s i)))\<rparr>)"
proof -
  obtain R where R: "client_inv R (sy_clients s i)" "\<And>x ca. cl_calls (sy_clients s i) x = Some ca \<Longrightarrow> answered s i x ca"
    using inv_client [OF inv] by blast
  let ?cl = "snd (rpcc_bind_finish ret r (sy_clients s i))"
  have "client_inv R ?cl" using R(1) by (simp add: rpcc_bind_finish_def client_inv_def)
  then show ?thesis
    using R(2) by (intro client_update [OF inv]) (auto simp: rpcc_bind_finish_def split: if_splits)
qed

section \<open>Steps of the server\<close>

lemma server_update:
  assumes inv: "sys_inv owner s"
    and t: "t = s\<lparr>sy_srv := w, sy_jobs := js, sy_replying := rs, sy_runs := rns\<rparr>" and sub: "set (sy_runs s) \<subseteq> set rns"
    and new: "procs_ok t" "threads_ok owner t" "once_ok t" "runs_ok t" "recorded_ok t" "sent_ok owner t"
  shows "sys_inv owner t"
proof -
  have non: "nonce_of t = nonce_of s" by (simp add: fun_eq_iff nonce_of_def t)
  have "answered t i x ca" if "answered s i x ca" for i x ca
    using that sub unfolding answered_def non by (auto simp: t)
  then have "calls_ok t" using inv by (auto simp: sys_inv_def calls_ok_def t)
  moreover have "clients_ok t" "requests_ok t"
    using inv by (simp_all add: sys_inv_def clients_ok_def requests_ok_def non) (simp_all add: t)
  ultimately show ?thesis using new by (simp add: sys_inv_def)
qed

lemma nonce_of_server [simp]:
  "nonce_of (s\<lparr>sy_srv := w\<rparr>) = nonce_of s" "nonce_of (s\<lparr>sy_jobs := js\<rparr>) = nonce_of s"
  "nonce_of (s\<lparr>sy_replying := rs\<rparr>) = nonce_of s" "nonce_of (s\<lparr>sy_runs := rns\<rparr>) = nonce_of s"
  by (simp_all add: fun_eq_iff nonce_of_def)

lemma from_owner_server [simp]:
  "from_owner owner (s\<lparr>sy_srv := w\<rparr>) = from_owner owner s" "from_owner owner (s\<lparr>sy_jobs := js\<rparr>) = from_owner owner s"
  "from_owner owner (s\<lparr>sy_replying := rs\<rparr>) = from_owner owner s" "from_owner owner (s\<lparr>sy_runs := rns\<rparr>) = from_owner owner s"
  by (simp_all add: fun_eq_iff from_owner_def)

text \<open>The same system, written with the fields a server step may change.\<close>

lemma server_fields:
  "s\<lparr>sy_srv := w, sy_jobs := js\<rparr> = s\<lparr>sy_srv := w, sy_jobs := js, sy_replying := sy_replying s, sy_runs := sy_runs s\<rparr>"
  "s\<lparr>sy_srv := w\<rparr> = s\<lparr>sy_srv := w, sy_jobs := sy_jobs s, sy_replying := sy_replying s, sy_runs := sy_runs s\<rparr>"
  "s\<lparr>sy_srv := w, sy_replying := rs\<rparr> = s\<lparr>sy_srv := w, sy_jobs := sy_jobs s, sy_replying := rs, sy_runs := sy_runs s\<rparr>"
  by simp_all

lemma checkdup_done:
  assumes "checkduplicate_and_update win clt xid rep = (DONE b, win')"
  shows "\<exists>r\<in>set (window_of win clt). r_xid r = xid \<and> cb_present r \<and> r_buf r = b"
  using assms
  by (auto simp: checkduplicate_and_update_def check_list_def find_Some_iff split: option.splits if_splits prod.splits)

lemma checkdup_present:
  assumes "checkduplicate_and_update win clt xid rep = (st, win')" "r \<in> set (window_of win' c)" "cb_present r"
  shows "r \<in> set (window_of win c)"
  using assms
  by (auto simp: checkduplicate_and_update_def check_list_def dest!: set_dropWhileD
      split: option.splits if_splits prod.splits)

lemma admit_step:
  assumes inv: "sys_inv owner s" and req: "(owner c, p) \<in> sy_requests s"
    and ad: "dispatch_admit mem c ((!) p) (int (length p)) (sy_srv s) = Inr (Some j, w)"
  shows "sys_inv owner (s\<lparr>sy_srv := w, sy_jobs := (c, j) # sy_jobs s\<rparr>)"
proof -
  obtain h u f st where j: "j = (h, u, f, st)" by (cases j)
  obtain h0 args where h0: "carries_request ((!) p) (int (length p)) h0 args" "rq_clt_nonce h0 = nonce_of s (owner c)"
    "rq_xid_rep h0 \<le> rq_xid h0" "rq_xid h0 < cl_xid (sy_clients s (owner c))"
    using inv req unfolding sys_inv_def requests_ok_def by blast
  have nz: "rq_clt_nonce h0 \<noteq> 0" using inv h0(2) by (simp add: sys_inv_def clients_ok_def)
  note fr = admit_frame [OF h0(1) ad [unfolded j] nz]
  let ?t = "s\<lparr>sy_srv := w, sy_jobs := (c, j) # sy_jobs s\<rparr>"
  have owner: "from_owner owner s c h" using h0 fr(1) by (simp add: from_owner_def)
  have "procs_ok ?t" using inv fr(3,4) by (auto simp: sys_inv_def procs_ok_def j)
  moreover have "((rq_clt_nonce h, rq_xid h), b) \<in> set (sy_runs s)" if d: "st = DONE b" for b
  proof -
    obtain r where r: "r \<in> set (window_of (sv_reply_window (srv (sy_srv s))) (rq_clt_nonce h))" "r_xid r = rq_xid h"
      "cb_present r" "r_buf r = b"
      using checkdup_done [OF fr(5) [unfolded d]] by blast
    then have "((rq_clt_nonce h, r_xid r), r_buf r) \<in> set (sy_runs s)"
      using inv unfolding sys_inv_def recorded_ok_def by blast
    with r show ?thesis by simp
  qed
  then have "threads_ok owner ?t"
    using inv owner fr(6) h0(2) fr(1) by (auto simp: sys_inv_def threads_ok_def j split: if_splits)
  moreover have "once_ok ?t"
  proof -
    obtain A where A: "win_inv A (sv_reply_window (srv (sy_srv s)))" "distinct (job_keys s @ map fst (sy_runs s))"
      "set (job_keys s @ map fst (sy_runs s)) \<subseteq> A"
      using inv by (auto simp: sys_inv_def once_ok_def)
    show ?thesis
    proof (cases "st = NEW")
      case True
      then have new: "(rq_clt_nonce h, rq_xid h) \<notin> A"
        "win_inv (insert (rq_clt_nonce h, rq_xid h) A) (sv_reply_window (srv w))"
        using rw.admit_new [OF A(1) fr(5) [unfolded True]] h0(3) fr(1) by simp_all
      have "job_keys ?t = (rq_clt_nonce h, rq_xid h) # job_keys s" using True by (simp add: job_keys_def j)
      with new A show ?thesis
        unfolding once_ok_def by (intro exI [of _ "insert (rq_clt_nonce h, rq_xid h) A"]) auto
    next
      case False
      then have "job_keys ?t = job_keys s" "win_inv A (sv_reply_window (srv w))"
        using rw.keep_other [OF A(1) fr(5)] by (simp_all add: job_keys_def j)
      with A show ?thesis by (auto simp: once_ok_def)
    qed
  qed
  moreover have "runs_ok ?t" "recorded_ok ?t" "sent_ok owner ?t"
    using inv checkdup_present [OF fr(5)] fr(2) by (auto simp: sys_inv_def runs_ok_def recorded_ok_def sent_ok_def)
  ultimately show ?thesis
    using server_update [OF inv server_fields(1)] by simp
qed

text \<open>A step that only sends.\<close>

lemma sending_step:
  assumes inv: "sys_inv owner s" and t: "t = s\<lparr>sy_srv := w, sy_jobs := js\<rparr>" "set js \<subseteq> set (sy_jobs s)"
    "job_keys t = job_keys s"
    and w: "srv w = srv (sy_srv s)" "out w = out (sy_srv s) \<or> (\<exists>pkt. out w = out (sy_srv s) @ [(c, pkt)] \<and>
      (\<exists>xid. xid < cl_xid (sy_clients s (owner c)) \<and>
        (refusal xid pkt \<or> ((nonce_of s (owner c), xid), pkt) \<in> set (sy_runs s))))"
  shows "sys_inv owner t"
proof -
  have "procs_ok t" using inv w(1) t(1,2) unfolding sys_inv_def procs_ok_def by (simp add: subset_iff) blast
  moreover have "threads_ok owner t" using inv w(1) t(1,2) unfolding sys_inv_def threads_ok_def
    by (simp add: subset_iff) blast
  moreover have "runs_ok t" "recorded_ok t"
    using inv w(1) t(1) unfolding sys_inv_def runs_ok_def recorded_ok_def by auto
  moreover have "once_ok t" using inv w(1) t(1,3) by (simp add: sys_inv_def once_ok_def)
  moreover have "sent_ok owner t" using inv w(2) t(1) by (auto simp: sys_inv_def sent_ok_def)
  moreover have "t = s\<lparr>sy_srv := w, sy_jobs := js, sy_replying := sy_replying s, sy_runs := sy_runs s\<rparr>"
    using t(1) by simp
  ultimately show ?thesis
    using server_update [OF inv _ subset_refl, where t = t and w = w and js = js and rs = "sy_replying s"] by blast
qed

lemma stop_step:
  assumes inv: "sys_inv owner s" and req: "(owner c, p) \<in> sy_requests s"
    and ad: "dispatch_admit mem c ((!) p) (int (length p)) (sy_srv s) = Inr (None, w)"
  shows "sys_inv owner (s\<lparr>sy_srv := w\<rparr>)"
proof -
  obtain h args where h: "carries_request ((!) p) (int (length p)) h args" "rq_xid h < cl_xid (sy_clients s (owner c))"
    using inv req unfolding sys_inv_def requests_ok_def by blast
  note fr = stop_frame [OF h(1) ad]
  have "s\<lparr>sy_srv := w\<rparr> = s\<lparr>sy_srv := w, sy_jobs := sy_jobs s\<rparr>" by simp
  from sending_step [OF inv this _ _ fr(1), of c] fr(2) h(2) show ?thesis
    by (auto simp: job_keys_def)
qed

lemma other_step:
  assumes inv: "sys_inv owner s" and js: "sy_jobs s = xs @ (c, h, u, f, st) # ys" and st: "st \<noteq> NEW"
    and sw: "dispatch_switch mem c (h, u, f, st) (sy_srv s) = Inr w"
  shows "sys_inv owner (s\<lparr>sy_srv := w, sy_jobs := xs @ ys\<rparr>)"
proof -
  have th: "from_owner owner s c h" "\<forall>b. st = DONE b \<longrightarrow> ((rq_clt_nonce h, rq_xid h), b) \<in> set (sy_runs s)"
    using inv js unfolding sys_inv_def threads_ok_def by auto
  note fr = switch_frame [OF sw st]
  have "job_keys (s\<lparr>sy_srv := w, sy_jobs := xs @ ys\<rparr>) = job_keys s" using js st by (simp add: job_keys_def)
  from sending_step [OF inv refl _ this fr(1), of c] fr(2) th js show ?thesis
    by (auto simp: from_owner_def)
qed

lemma exec_step:
  assumes inv: "sys_inv owner s" and js: "sy_jobs s = xs @ (c, h, u, f, NEW) # ys"
    and ex: "dispatch_exec mem h u f (sy_srv s) = Inr (b1, w)"
  shows "sys_inv owner (s\<lparr>sy_srv := w, sy_jobs := xs @ ys, sy_replying := (c, h, b1) # sy_replying s,
      sy_runs := ((rq_clt_nonce h, rq_xid h), b1) # sy_runs s\<rparr>)" (is "sys_inv owner ?t")
proof -
  have f: "handler_safe f" "from_owner owner s c h"
    using inv js unfolding sys_inv_def procs_ok_def threads_ok_def by auto
  note fr = exec_frame [OF ex f(1)]
  have "procs_ok ?t" using inv js fr(2) unfolding sys_inv_def procs_ok_def by auto
  moreover have "threads_ok owner ?t" using inv js fr(4) f(2) unfolding sys_inv_def threads_ok_def by auto
  moreover have "once_ok ?t"
    using inv fr(3) unfolding sys_inv_def once_ok_def by (auto simp: job_keys_def js)
  moreover have "runs_ok ?t" using inv fr(5) unfolding sys_inv_def runs_ok_def by auto
  moreover have "recorded_ok ?t" using inv fr(3) unfolding sys_inv_def recorded_ok_def by auto
  moreover have "sent_ok owner ?t" using inv fr(1) unfolding sys_inv_def sent_ok_def by simp blast
  ultimately show ?thesis
    by (intro server_update [OF inv refl]) auto
qed

lemma answer_step:
  assumes inv: "sys_inv owner s" and rs: "sy_replying s = xs @ (c, h, b1) # ys"
    and rp: "dispatch_reply h b1 c (sy_srv s) = Inr w"
  shows "sys_inv owner (s\<lparr>sy_srv := w, sy_replying := xs @ ys\<rparr>)" (is "sys_inv owner ?t")
proof -
  have o: "from_owner owner s c h" "((rq_clt_nonce h, rq_xid h), b1) \<in> set (sy_runs s)"
    using inv rs unfolding sys_inv_def threads_ok_def by auto
  then have nz: "rq_clt_nonce h \<noteq> 0" using inv by (simp add: sys_inv_def clients_ok_def from_owner_def)
  note fr = reply_frame [OF rp nz]
  have "procs_ok ?t" using inv fr(1) unfolding sys_inv_def procs_ok_def by auto
  moreover have "threads_ok owner ?t" using inv rs fr(2) unfolding sys_inv_def threads_ok_def by auto
  moreover have "once_ok ?t"
    using inv fr(3) rw.keep_answer unfolding sys_inv_def once_ok_def by (auto simp: job_keys_def) blast
  moreover have "runs_ok ?t" using inv unfolding sys_inv_def runs_ok_def by auto
  moreover have "recorded_ok ?t"
    using inv fr(3) o(2) unfolding sys_inv_def recorded_ok_def by (auto simp: add_reply_def split: if_splits)
  moreover have "sent_ok owner ?t"
  proof -
    have "owner c' = owner c" if "sv_conns (srv (sy_srv s)) (rq_clt_nonce h) = Some c'" for c'
    proof -
      have "nonce_of s (owner c') = nonce_of s (owner c)"
        using inv that o(1) unfolding sys_inv_def threads_ok_def from_owner_def by auto
      moreover have "inj (nonce_of s)" using inv by (simp add: sys_inv_def clients_ok_def)
      ultimately show ?thesis by (rule injD [rotated])
    qed
    then have new: "pkt = b1 \<and> owner c2 = owner c" if "(c2, pkt) \<in> set (out w)" "(c2, pkt) \<notin> set (out (sy_srv s))"
      for c2 pkt using fr(4) that by auto
    have mine: "\<exists>xid<cl_xid (sy_clients s (owner c)). refusal xid b1 \<or>
        ((nonce_of s (owner c), xid), b1) \<in> set (sy_runs s)"
      using o by (auto simp: from_owner_def)
    have "\<exists>xid<cl_xid (sy_clients s (owner c2)). refusal xid pkt \<or> ((nonce_of s (owner c2), xid), pkt) \<in> set (sy_runs s)"
      if p: "(c2, pkt) \<in> set (out w)" for c2 pkt
    proof (cases "(c2, pkt) \<in> set (out (sy_srv s))")
      case True then show ?thesis using inv unfolding sys_inv_def sent_ok_def by blast
    next
      case False then show ?thesis using new [OF p] mine by simp
    qed
    then show ?thesis unfolding sent_ok_def by simp
  qed
  ultimately show ?thesis
    using server_update [OF inv server_fields(3)] by simp
qed

section \<open>Every reachable state\<close>

lemma sys_step_inv: "sys_step mem owner s t \<Longrightarrow> sys_inv owner s \<Longrightarrow> sys_inv owner t"
proof (induction rule: sys_step.induct)
  case (connections s hp)
  then show ?case
    by (intro sending_step [OF connections, where js = "sy_jobs s" and w = "(sy_srv s)\<lparr>heap := hp\<rparr>"])
       (simp_all add: job_keys_def)
qed (blast intro: begin_step admit_step stop_step exec_step answer_step other_step reply_step end_step cancel_step
    bound_step)+

lemma sys_reach_inv: "sys_reach mem owner s0 s \<Longrightarrow> sys_inv owner s0 \<Longrightarrow> sys_inv owner s"
  by (induction rule: sys_reach.induct) (blast intro: sys_step_inv)+

end
