(* ===== verification/System_Properties.thy ===== *)
theory System_Properties
  imports Rpc_System
begin

text \<open>
  The properties of the client and of the whole RPC system, with the extent server as application. The witnesses
  rest on one complete session: a client binds to a fresh server.
\<close>

section \<open>A complete session\<close>

definition two_nonces :: "bool \<Rightarrow> u32" where
  "two_nonces i = (if i then 6 else 5)"

lemma two_nonces_ok: "inj two_nonces" "\<forall>i. two_nonces i \<noteq> 0"
  by (auto simp: inj_def two_nonces_def)

text \<open>The server's part: the request of a client with nonce 5 is admitted, executed and answered.\<close>

lemma bind_served:
  assumes w: "sv_procs (srv w) RPC_BIND = Some (handler1 get_u32 put_u32 r0 (rpcbind nonce))"
    "sv_reply_window (srv w) = Map.empty" "sv_conns (srv w) = Map.empty" "heap w 1 = Some (incref (connection_new 0 0 0))"
    and req: "carries_request b sz h (be32 0)" "rq_proc h = RPC_BIND" "rq_srv_nonce h = 0" "rq_clt_nonce h = 5" "rq_xid_rep h \<le> rq_xid h"
  obtains u f w1 pkt w2 w3 where "dispatch_admit mem 1 b sz w = Inr (Some (h, u, f, NEW), w1)"
    "dispatch_exec mem h u f w1 = Inr (pkt, w2)" "dispatch_reply h pkt 1 w2 = Inr w3" "out w3 = out w @ [(1, pkt)]"
    "carries_reply ((!) pkt) (int (length pkt)) \<lparr>rp_xid = rq_xid h, rp_ret = 0\<rparr> (be32 nonce)"
proof -
  let ?f = "handler1 get_u32 put_u32 r0 (rpcbind nonce) :: 'a handler"
  have sv: "servable w h ?f" using w req by (simp add: servable_def)
  have conn: "conn_ready w (rq_clt_nonce h) 1" using w(3,4) by (simp add: conn_ready_def connection_new_def incref_def)
  obtain win where chk: "checkduplicate_and_update (sv_reply_window (srv w)) (rq_clt_nonce h) (rq_xid h) (rq_xid_rep h) = (NEW, win)"
    using w(2) by (simp add: checkduplicate_and_update_def check_list_def window_of_def)
  obtain w1 u k where w1: "dispatch_admit mem 1 b sz w = Inr (Some (h, u, ?f, NEW), w1)"
    "u_inv u" "u_ok u" "u_rest u = be32 0" "same_server w w1 win" "app w1 = app w" "out w1 = out w"
    "heap w1 1 = Some k" "\<not> c_dead k" "c_refno k \<ge> 1"
    by (rule admit_ok [OF req(1) sv conn chk, of mem]) (rule that)
  obtain w2 pkt where w2: "dispatch_exec mem h u ?f w1 = Inr (pkt, w2)"
    "carries_reply ((!) pkt) (int (length pkt)) \<lparr>rp_xid = rq_xid h, rp_ret = word_of_int 0\<rparr> (be32 nonce)"
    "same_server w1 w2 (sv_reply_window (srv w1))" "app w2 = app w1" "out w2 = out w1" "heap w2 = heap w1"
    by (rule exec_ok [OF bind_gives [of r0 nonce 0 "app w1"] w1(2-4) order_refl, of mem h]) (rule that)
  define w3 where "w3 = w2\<lparr>srv := (srv w2)\<lparr>sv_reply_window := add_reply (sv_reply_window (srv w2)) (rq_clt_nonce h) (rq_xid h) pkt\<rparr>\<rparr>"
  have h3: "heap w3 1 = Some k" using w1(8) w2(6) by (simp add: w3_def)
  have "dispatch_reply h pkt 1 w2 = bindE (conn_send 1 pkt w3) (conn_decref 1)"
    using latest_live [OF h3 w1(9)] req(4) by (simp add: dispatch_reply_def w3_def)
  then show ?thesis
    using that [OF w1(1) w2(1)] send_release [OF h3 w1(9,10)] w1(7) w2(2,5) by (simp add: w3_def)
qed

text \<open>The whole of it: two clients exist, the first one binds.\<close>

lemma bind_session:
  assumes w: "sv_procs (srv w) RPC_BIND = Some (handler1 get_u32 put_u32 r0 (rpcbind nonce))"
    "sv_reply_window (srv w) = Map.empty" "sv_conns (srv w) = Map.empty" "out w = []"
  obtains s pkt ca where "sys_reach mem (\<lambda>_. False) (sys_init two_nonces w) s" "sy_runs s = [((5, 1), pkt)]"
    "sy_results s = [(False, 1, ca)]" "call1_result ca = 0"
proof -
  let ?step = "sys_step mem (\<lambda>_. False)" and ?reach = "sys_reach mem (\<lambda>_. False) (sys_init two_nonces w)"
  define s0 where "s0 = sys_init two_nonces w"
  have cl0: "sy_clients s0 False = rpcc_new True 5 0" by (simp add: s0_def sys_init_def two_nonces_def)
  have m0: "m_inv (marshall_new mem)" "m_ind (marshall_new mem) + int (length (be32 0)) \<le> MAX_MSG"
    using marshall_new_inv(1) [of mem] by (simp_all add: marshall_new_def rpc_sizes MAX_MSG_def)
  obtain req where m: "put_u32 (marshall_new mem) 0 = Inr req" "appended (marshall_new mem) req (be32 0)"
    using c_u32.put_law [OF m0] by blast
  then have req: "m_inv req" "m_ind req < 2 ^ 31" "get_content req = be32 0"
    by (auto simp: appended_def marshall_new_inv) (simp_all add: marshall_new_def rpc_sizes)
  let ?h = "\<lparr>rq_xid = 1, rq_proc = RPC_BIND, rq_clt_nonce = 5, rq_srv_nonce = 0, rq_xid_rep = 0\<rparr>"
  let ?ca = "\<lparr>ca_xid = 1, ca_un = unmarshall_empty, ca_intret = 0, ca_done = False\<rparr>"
  let ?c = "rpcc_new True 5 0"
  have c: "cl_xid ?c = 1" "hd (cl_window ?c) = 0" "cl_clt_nonce ?c = 5" "cl_srv_nonce ?c = 0" "cl_calls ?c = Map.empty"
    and pre: "cl_xid ?c + 1 \<noteq> 0" "RPC_BIND = RPC_BIND \<longleftrightarrow> \<not> cl_bind_done ?c" "\<not> cl_destroy_wait ?c"
    by (simp_all add: rpcc_new_def)
  obtain req' cl1 b where raw: "call1_begin 0 RPC_BIND req ?c = Inr (Inr (cl_xid ?c, hd (cl_window ?c), req', cl1))"
    "m_buf req' = Some b" "m_ind req' = m_ind req"
    "carries_request b (m_ind req')
       \<lparr>rq_xid = cl_xid ?c, rq_proc = RPC_BIND, rq_clt_nonce = cl_clt_nonce ?c, rq_srv_nonce = cl_srv_nonce ?c,
        rq_xid_rep = hd (cl_window ?c)\<rparr> (get_content req)"
    "hd (cl_window ?c) < cl_xid ?c" "client_inv {} cl1" "cl_xid cl1 = cl_xid ?c + 1" "cl_clt_nonce cl1 = cl_clt_nonce ?c"
    "cl_calls ?c (cl_xid ?c) = None"
    "cl_calls cl1 = (cl_calls ?c)(cl_xid ?c \<mapsto>
       \<lparr>ca_xid = cl_xid ?c, ca_un = unmarshall_empty, ca_intret = 0, ca_done = False\<rparr>)"
    by (rule call1_begin_ok [OF client_inv_new req(1,2) pre, of 0]) (rule that)
  have c1: "call1_begin 0 RPC_BIND req (sy_clients s0 False) = Inr (Inr (1, 0, req', cl1))"
    "m_buf req' = Some b" "m_ind req' = m_ind req" "carries_request b (m_ind req') ?h (be32 0)" "client_inv {} cl1"
    "cl_xid cl1 = 2" "cl_calls cl1 = [1 \<mapsto> ?ca]"
    using raw by (simp_all add: c cl0 req(3))
  define p where "p = packet req'"
  define s1 where "s1 = s0\<lparr>sy_clients := (sy_clients s0)(False := cl1), sy_requests := insert (False, p) (sy_requests s0)\<rparr>"
  have "?step s0 s1"
    unfolding s1_def p_def by (rule call_begin [OF c1(1) req(1,2)]) (simp add: cl0 rpcc_new_def)
  then have r1: "?reach s1" using reach_step [OF reach_start] by (simp add: s0_def)
  define w' where "w' = w\<lparr>heap := [1 \<mapsto> incref (connection_new 0 0 0)]\<rparr>"
  define s2 where "s2 = s1\<lparr>sy_srv := w'\<rparr>"
  have srv1: "sy_srv s1 = w" by (simp add: s1_def s0_def sys_init_def)
  have "?step s1 s2"
    using connections [of mem "\<lambda>_. False" s1 "[1 \<mapsto> incref (connection_new 0 0 0)]"] by (simp add: s2_def srv1 w'_def)
  with r1 have r2: "?reach s2" by (rule reach_step)
  have len: "int (length p) = m_ind req'"
    using req(1) c1(3) by (simp add: p_def packet_def m_inv_def rpc_sizes)
  have p: "carries_request ((!) p) (int (length p)) ?h (be32 0)"
    using carries_list [OF c1(4) [unfolded carries_request_def]] c1(2)
    unfolding len by (simp add: carries_request_def p_def packet_def)
  obtain u f w1 pkt w2 w3 where sv: "dispatch_admit mem 1 ((!) p) (int (length p)) w' = Inr (Some (?h, u, f, NEW), w1)"
    "dispatch_exec mem ?h u f w1 = Inr (pkt, w2)" "dispatch_reply ?h pkt 1 w2 = Inr w3" "out w3 = out w' @ [(1, pkt)]"
    "carries_reply ((!) pkt) (int (length pkt)) \<lparr>rp_xid = rq_xid ?h, rp_ret = 0\<rparr> (be32 nonce)"
  proof (rule bind_served [of w' r0 nonce "(!) p" "int (length p)" ?h mem])
  qed (use w p in \<open>simp_all add: w'_def that\<close>)
  define s3 where "s3 = s2\<lparr>sy_srv := w1, sy_jobs := [(1, ?h, u, f, NEW)]\<rparr>"
  have "?step s2 s3"
    using serve_admit [of "\<lambda>_. False" 1 p s2 mem "(?h, u, f, NEW)" w1] sv(1)
    by (simp add: s3_def s2_def s1_def s0_def sys_init_def)
  with r2 have r3: "?reach s3" by (rule reach_step)
  define s4 where "s4 = s3\<lparr>sy_srv := w2, sy_jobs := [], sy_replying := [(1, ?h, pkt)], sy_runs := [((5, 1), pkt)]\<rparr>"
  have "?step s3 s4"
    using serve_exec [of s3 "[]" 1 ?h u f "[]" mem pkt w2 "\<lambda>_. False"] sv(2)
    by (simp add: s4_def s3_def s2_def s1_def s0_def sys_init_def)
  with r3 have r4: "?reach s4" by (rule reach_step)
  define s5 where "s5 = s4\<lparr>sy_srv := w3, sy_replying := []\<rparr>"
  have "?step s4 s5"
    using serve_reply [of s4 "[]" 1 ?h pkt "[]" w3 mem "\<lambda>_. False"] sv(3) by (simp add: s5_def s4_def)
  with r4 have r5: "?reach s5" by (rule reach_step)
  have cl5: "sy_clients s5 False = cl1" by (simp add: s5_def s4_def s3_def s2_def s1_def)
  obtain cl2 ca where cl2: "rpcc_got_pdu ((!) pkt) (int (length pkt)) cl1 = Inr cl2" "cl_calls cl2 1 = Some ca"
    "ca_done ca" "ca_intret ca = 0"
    by (rule got_pdu_ok [OF c1(5) sv(5)]) (use c1(6,7) in \<open>auto intro: that\<close>)
  define s6 where "s6 = s5\<lparr>sy_clients := (sy_clients s5)(False := cl2)\<rparr>"
  have "?step s5 s6"
    unfolding s6_def
  proof (rule call_reply [of 1 pkt s5 "\<lambda>_. False" cl2 mem])
    show "(1, pkt) \<in> set (out (sy_srv s5))" using sv(4) by (simp add: s5_def)
    show "rpcc_got_pdu ((!) pkt) (int (length pkt)) (sy_clients s5 False) = Inr cl2" using cl2(1) by (simp add: cl5)
  qed
  with r5 have r6: "?reach s6" by (rule reach_step)
  obtain cl3 where cl3: "call1_end 1 (sy_clients s6 False) = Some (ca, cl3)"
    using cl2(2) by (simp add: call1_end_def s6_def)
  define s7 where "s7 = s6\<lparr>sy_clients := (sy_clients s6)(False := cl3), sy_results := (False, 1, ca) # sy_results s6\<rparr>"
  have "?step s6 s7" unfolding s7_def by (rule call_end [OF cl3])
  with r6 have r7: "?reach s7" by (rule reach_step)
  then show ?thesis
    by (rule that [of s7 pkt ca])
       (use cl2 in \<open>simp_all add: s7_def s6_def s5_def s4_def s3_def s2_def s1_def s0_def sys_init_def call1_result_def\<close>)
qed

lemma smain_inv:
  assumes "inj nonces" "\<forall>i. nonces i \<noteq> 0" "extent_smain junk r0 a0 nonce count = Inr (Some w)"
  shows "sys_inv owner (sys_init nonces w)"
proof -
  obtain w' where w': "extent_smain junk r0 a0 nonce count = Inr (Some w')"
    "sv_procs (srv w') = extent_procs junk r0 a0 nonce" "sv_nonce (srv w') = nonce"
    "sv_reply_window (srv w') = Map.empty" "sv_conns (srv w') = Map.empty" "sv_counting (srv w') = count"
    "heap w' = Map.empty" "out w' = []"
    by (rule smain_ok)
  then show ?thesis
    using assms extent_procs_safe by (intro sys_inv_init) auto
qed

text \<open>A server as \<open>extent_smain\<close> starts it, with the session above.\<close>

lemma extent_session:
  obtains w s pkt ca where "extent_smain (\<lambda>_. 0) 0 attr_zero 77 0 = Inr (Some w)"
    "sys_reach (\<lambda>_. 0) (\<lambda>_. False) (sys_init two_nonces w) s" "sy_runs s = [((5, 1), pkt)]"
    "sy_results s = [(False, 1, ca)]" "call1_result ca = 0"
proof -
  obtain w where w: "extent_smain (\<lambda>_. 0) 0 attr_zero 77 0 = Inr (Some w)"
    "sv_procs (srv w) = extent_procs (\<lambda>_. 0) 0 attr_zero 77" "sv_nonce (srv w) = 77"
    "sv_reply_window (srv w) = Map.empty" "sv_conns (srv w) = Map.empty" "sv_counting (srv w) = 0"
    "heap w = Map.empty" "out w = []"
    by (rule smain_ok)
  have "sv_procs (srv w) RPC_BIND = Some (handler1 get_u32 put_u32 0 (rpcbind 77))"
    by (simp add: w(2) extent_procs_def proc_defs)
  from bind_session [OF this w(4,5,8), of "\<lambda>_. 0"] that [OF w(1)] show ?thesis by blast
qed

section \<open>The system\<close>

text \<open>C30: In every reachable state of the system of clients, network and extent server, whatever was lost, repeated
  or reordered and however the threads were interleaved, no request was executed more than once.\<close>

theorem system_executes_at_most_once:
  assumes "inj nonces" "\<forall>i. nonces i \<noteq> 0" "extent_smain junk r0 a0 nonce count = Inr (Some w)"
    "sys_reach mem owner (sys_init nonces w) s"
  shows "distinct (map fst (sy_runs s))"
  using sys_reach_inv [OF assms(4) smain_inv [OF assms(1-3)]] by (auto simp: sys_inv_def once_ok_def)

theorem system_executes_at_most_once_witness:
  "\<exists>w s pkt. sys_reach (\<lambda>_. 0) (\<lambda>_. False) (sys_init two_nonces w) s \<and> sy_runs s = [((5, 1), pkt)] \<and>
     distinct (map fst (sy_runs (s :: (bool, extent_server) system)))"
proof -
  obtain w s pkt ca where s: "extent_smain (\<lambda>_. 0) 0 attr_zero 77 0 = Inr (Some w)"
    "sys_reach (\<lambda>_. 0) (\<lambda>_. False) (sys_init two_nonces w) s" "sy_runs s = [((5, 1), pkt)]"
    "sy_results s = [(False, 1, ca)]" "call1_result ca = 0"
    by (rule extent_session)
  from system_executes_at_most_once [OF two_nonces_ok s(1,2)] s show ?thesis by blast
qed

text \<open>C31: A call that returns a non-negative code was executed, exactly once, and returns the code and the result bytes
  of that execution, in every reachable state of the system.\<close>

theorem call_returns_result_of_its_execution:
  assumes "inj nonces" "\<forall>i. nonces i \<noteq> 0" "extent_smain junk r0 a0 nonce count = Inr (Some w)"
    "sys_reach mem owner (sys_init nonces w) s" "(i, xid, ca) \<in> set (sy_results s)" "0 \<le> call1_result ca"
  shows "\<exists>!pkt. ((nonce_of s i, xid), pkt) \<in> set (sy_runs s) \<and>
    (\<exists>h. carries_reply ((!) pkt) (int (length pkt)) h (u_rest (ca_un ca)) \<and> rp_xid h = xid \<and>
       call1_result ca = sint (rp_ret h))"
proof -
  have inv: "sys_inv owner s" using sys_reach_inv [OF assms(4) smain_inv [OF assms(1-3)]] .
  have d: "ca_done ca" "0 \<le> ca_intret ca" "call1_result ca = ca_intret ca"
    using assms(6) by (auto simp: call1_result_def timeout_failure_def split: if_splits)
  have "answered s i xid ca" using inv assms(5) by (auto simp: sys_inv_def calls_ok_def)
  then obtain pkt h where p: "((nonce_of s i, xid), pkt) \<in> set (sy_runs s)"
    "carries_reply ((!) pkt) (int (length pkt)) h (u_rest (ca_un ca))" "rp_xid h = xid" "ca_intret ca = sint (rp_ret h)"
    using d by (auto simp: answered_def)
  have "distinct (map fst (sy_runs s))" using inv by (auto simp: sys_inv_def once_ok_def)
  then have one: "pkt' = pkt" if "((nonce_of s i, xid), pkt') \<in> set (sy_runs s)" for pkt'
    using p(1) that by (metis eq_key_imp_eq_value)
  have "((nonce_of s i, xid), pkt) \<in> set (sy_runs s) \<and>
    (\<exists>h. carries_reply ((!) pkt) (int (length pkt)) h (u_rest (ca_un ca)) \<and> rp_xid h = xid \<and>
       call1_result ca = sint (rp_ret h))"
    using p d(3) by (intro conjI exI [of _ h]) simp_all
  then show ?thesis by (rule ex1I) (rule one, erule conjunct1)
qed

theorem call_returns_result_of_its_execution_witness:
  "\<exists>w s ca. sys_reach (\<lambda>_. 0) (\<lambda>_. False) (sys_init two_nonces w) s \<and>
     (False, 1, ca) \<in> set (sy_results (s :: (bool, extent_server) system)) \<and> call1_result ca = 0 \<and>
     (\<exists>!pkt. ((nonce_of s False, 1), pkt) \<in> set (sy_runs s) \<and>
        (\<exists>h. carries_reply ((!) pkt) (int (length pkt)) h (u_rest (ca_un ca)) \<and> rp_xid h = 1 \<and>
           call1_result ca = sint (rp_ret h)))"
proof -
  obtain w s pkt ca where s: "extent_smain (\<lambda>_. 0) 0 attr_zero 77 0 = Inr (Some w)"
    "sys_reach (\<lambda>_. 0) (\<lambda>_. False) (sys_init two_nonces w) s" "sy_runs s = [((5, 1), pkt)]"
    "sy_results s = [(False, 1, ca)]" "call1_result ca = 0"
    by (rule extent_session)
  have r: "(False, 1, ca) \<in> set (sy_results s)" "0 \<le> call1_result ca" using s(4,5) by simp_all
  note u = call_returns_result_of_its_execution [OF two_nonces_ok s(1,2) r]
  show ?thesis
    by (rule exI [of _ w], rule exI [of _ s], rule exI [of _ ca]) (intro conjI s(2) r(1) s(5) u)
qed

section \<open>The client\<close>



text \<open>A request that a client sends acknowledges only calls before it, its number is new to the client, and the
  packet carries the marshalled arguments; the client's bookkeeping stays consistent.\<close>

lemma request_is_honest:
  assumes "client_inv R s" "m_inv req" "m_ind req < 2 ^ 31" "cl_xid s + 1 \<noteq> 0"
    "proc = RPC_BIND \<longleftrightarrow> \<not> cl_bind_done s" "\<not> cl_destroy_wait s"
  shows "\<exists>req' s' b h. call1_begin i0 proc req s = Inr (Inr (rq_xid h, rq_xid_rep h, req', s')) \<and>
    m_buf req' = Some b \<and> carries_request b (m_ind req') h (get_content req) \<and> rq_xid_rep h < rq_xid h \<and>
    rq_clt_nonce h = cl_clt_nonce s \<and> cl_calls s (rq_xid h) = None \<and> rq_xid h \<notin> R \<and> client_inv R s'"
proof -
  let ?h = "\<lparr>rq_xid = cl_xid s, rq_proc = proc, rq_clt_nonce = cl_clt_nonce s, rq_srv_nonce = cl_srv_nonce s,
        rq_xid_rep = hd (cl_window s)\<rparr>"
  have new: "cl_xid s \<notin> R" using assms(1) by (auto simp: client_inv_def)
  obtain req' s' b where c: "call1_begin i0 proc req s = Inr (Inr (cl_xid s, hd (cl_window s), req', s'))"
    "m_buf req' = Some b" "m_ind req' = m_ind req" "carries_request b (m_ind req') ?h (get_content req)"
    "hd (cl_window s) < cl_xid s" "client_inv R s'" "cl_xid s' = cl_xid s + 1" "cl_clt_nonce s' = cl_clt_nonce s"
    "cl_calls s (cl_xid s) = None"
    by (rule call1_begin_ok [OF assms, of i0]) (rule that)
  with new show ?thesis
    by (intro exI [of _ req'] exI [of _ s'] exI [of _ b] exI [of _ ?h]) simp
qed

text \<open>C33: The first reply to a pending call completes it with the code and the bytes of the reply, typed reading of
  them gives the server's value, and further replies to the same call change nothing of it.\<close>

theorem first_reply_completes_call:
  assumes "client_inv R s" "carries_reply b sz h (enc_string d)" "rp_xid h < cl_xid s"
    "cl_calls s (rp_xid h) = Some ca" "\<not> ca_done ca" "0 \<le> sint (rp_ret h)" "int (length (enc_string d)) \<le> MAX_MSG"
  shows "\<exists>s' ca'. rpcc_got_pdu b sz s = Inr s' \<and> cl_calls s' (rp_xid h) = Some ca' \<and>
    call1_result ca' = sint (rp_ret h) \<and>
    call_m_finish (\<lambda>u. get_string u []) r0 (call1_result ca') (ca_un ca') = Inr (sint (rp_ret h), d) \<and>
    (\<forall>b2 sz2 h2 res2. carries_reply b2 sz2 h2 res2 \<and> rp_xid h2 = rp_xid h \<longrightarrow>
       (\<exists>s2. rpcc_got_pdu b2 sz2 s' = Inr s2 \<and> cl_calls s2 (rp_xid h) = Some ca'))"
proof -
  obtain s' ca' where s': "rpcc_got_pdu b sz s = Inr s'" "client_inv (insert (rp_xid h) R) s'" "cl_xid s' = cl_xid s"
    "cl_calls s' (rp_xid h) = Some ca'" "ca_done ca'" "ca_intret ca' = sint (rp_ret h)" "u_inv (ca_un ca')"
    "u_ok (ca_un ca')" "u_rest (ca_un ca') = enc_string d"
    by (rule got_pdu_ok [OF assms(1-3)]) (use assms(4,5) that in fastforce)
  have again: "\<exists>s2. rpcc_got_pdu b2 sz2 s' = Inr s2 \<and> cl_calls s2 (rp_xid h) = Some ca'"
    if c2: "carries_reply b2 sz2 h2 res2" "rp_xid h2 = rp_xid h" for b2 sz2 h2 res2
    by (rule got_pdu_ok [OF s'(2) c2(1)]) (use c2(2) s'(3-5) assms(3) in \<open>auto\<close>)
  have fin: "call_m_finish (\<lambda>u. get_string u []) r0 (call1_result ca') (ca_un ca') = Inr (sint (rp_ret h), d)"
    using call_m_finish_ok [OF c_string.codec_axioms _ s'(7-9) assms(7)] s'(5,6) assms(6) by (simp add: call1_result_def)
  have res: "call1_result ca' = sint (rp_ret h)" using s'(5,6) by (simp add: call1_result_def)
  show ?thesis
    by (rule exI [of _ s'], rule exI [of _ ca'], intro conjI allI impI s'(1,4) res fin) (elim conjE, rule again)
qed

theorem first_reply_completes_call_witness:
  "\<exists>s s' ca'. rpcc_got_pdu ((!) (reply_bytes \<lparr>rp_xid = 1, rp_ret = 0\<rparr> (enc_string [7])))
       (int (length (reply_bytes \<lparr>rp_xid = 1, rp_ret = 0\<rparr> (enc_string [7])))) s = Inr s' \<and>
     cl_calls s' 1 = Some ca' \<and>
     call_m_finish (\<lambda>u. get_string u []) [] (call1_result ca') (ca_un ca') = Inr (0, [7])"
proof -
  let ?h = "\<lparr>rp_xid = 1, rp_ret = 0\<rparr>" and ?p = "reply_bytes \<lparr>rp_xid = 1, rp_ret = 0\<rparr> (enc_string [7])"
  let ?ca = "\<lparr>ca_xid = 1, ca_un = unmarshall_empty, ca_intret = 0, ca_done = False\<rparr>"
  let ?s = "(rpcc_new True 5 0)\<lparr>cl_xid := 2, cl_calls := [1 \<mapsto> ?ca]\<rparr>"
  have "client_inv {} ?s"
    using client_inv_new [of True 5 0] by (auto simp: client_inv_def rpcc_new_def word_less_nat_alt word_le_nat_alt)
  moreover have "carries_reply ((!) ?p) (int (length ?p)) ?h (enc_string [7])"
    by (rule reply_bytes_carry) (simp add: enc_string_def)
  moreover have "rp_xid ?h < cl_xid ?s" "cl_calls ?s (rp_xid ?h) = Some ?ca" "\<not> ca_done ?ca" "0 \<le> sint (rp_ret ?h)"
    "int (length (enc_string [7 :: byte])) \<le> MAX_MSG"
    by (simp_all add: word_less_nat_alt enc_string_def MAX_MSG_def)
  ultimately obtain s' ca' where "rpcc_got_pdu ((!) ?p) (int (length ?p)) ?s = Inr s'" "cl_calls s' (rp_xid ?h) = Some ca'"
    "call_m_finish (\<lambda>u. get_string u []) [] (call1_result ca') (ca_un ca') = Inr (sint (rp_ret ?h), [7])"
    using first_reply_completes_call [of "{}" ?s "(!) ?p" "int (length ?p)" ?h "[7]" ?ca "[]"] by blast
  then show ?thesis
    by (intro exI [of _ ?s] exI [of _ s'] exI [of _ ca']) simp
qed

end
