(* ===== verification/Thread_Pool.thy ===== *)
theory Thread_Pool
  imports Prelude "HOL-Library.Multiset"
begin

text \<open>
  The bounded queue \<open>fifo\<close> (\<open>rpc/fifo.h\<close>) and the thread pool built on it (\<open>rpc/thr_pool.h\<close>, \<open>rpc/thr_pool.cc\<close>), in
  which the server runs \<open>dispatch\<close>. One pass through the loops of \<open>enq\<close> and \<open>deq\<close> is an operation that may
  have to wait; the locale \<open>bounded_queue\<close> states the contract of such a queue and proves that items come out
  in the order in which they were accepted. The shutdown of a pool by poison pills is a step relation, shown
  to end with every queued job executed and every worker gone.
\<close>

section \<open>fifo\<close>

record 'a fifo =
  ff_q :: "'a list"
  ff_max :: nat

definition fifo_new :: "nat \<Rightarrow> 'a fifo" where
  "fifo_new limit = \<lparr>ff_q = [], ff_max = limit\<rparr>"

text \<open>\<open>size\<close> is declared to return a \<open>bool\<close>.\<close>

definition fifo_size :: "'a fifo \<Rightarrow> bool" where
  "fifo_size f \<longleftrightarrow> length (ff_q f) \<noteq> 0"

text \<open>\<open>Wait\<close>: the thread sleeps on the condition variable and tries again.\<close>

datatype 'b attempt = Done 'b | Wait

definition enq :: "'a \<Rightarrow> bool \<Rightarrow> 'a fifo \<Rightarrow> (bool \<times> 'a fifo) attempt" where
  "enq e blocking f =
     (if ff_max f = 0 \<or> length (ff_q f) < ff_max f then Done (True, f\<lparr>ff_q := ff_q f @ [e]\<rparr>)
      else if blocking then Wait
      else Done (False, f))"

definition deq :: "'a fifo \<Rightarrow> ('a \<times> 'a fifo) attempt" where
  "deq f = (case ff_q f of [] \<Rightarrow> Wait | x # xs \<Rightarrow> Done (x, f\<lparr>ff_q := xs\<rparr>))"

section \<open>The contract of a bounded queue\<close>

text \<open>What a queue is asked to do, in the order in which its lock is taken.\<close>

datatype 'a queue_op = Put 'a | Take

text \<open>A history of non-blocking calls: the accepted items, the items handed out, the final queue.\<close>

fun history :: "('a \<Rightarrow> bool \<Rightarrow> 'q \<Rightarrow> (bool \<times> 'q) attempt) \<Rightarrow> ('q \<Rightarrow> ('a \<times> 'q) attempt) \<Rightarrow> 'q \<Rightarrow> 'a queue_op list \<Rightarrow>
    'a list \<times> 'a list \<times> 'q" where
  "history put take_one q [] = ([], [], q)"
| "history put take_one q (Put x # ops) =
     (case put x False q of
        Done (ok, q') \<Rightarrow> (case history put take_one q' ops of (ins, outs, r) \<Rightarrow> (if ok then x # ins else ins, outs, r))
      | Wait \<Rightarrow> history put take_one q ops)"
| "history put take_one q (Take # ops) =
     (case take_one q of
        Done (x, q') \<Rightarrow> (case history put take_one q' ops of (ins, outs, r) \<Rightarrow> (ins, x # outs, r))
      | Wait \<Rightarrow> history put take_one q ops)"

locale bounded_queue =
  fixes items :: "'q \<Rightarrow> 'a list" and cap :: "'q \<Rightarrow> nat"
    and put :: "'a \<Rightarrow> bool \<Rightarrow> 'q \<Rightarrow> (bool \<times> 'q) attempt" and take_one :: "'q \<Rightarrow> ('a \<times> 'q) attempt"
  assumes put_space: "cap q = 0 \<or> length (items q) < cap q \<Longrightarrow>
      \<exists>q'. put x b q = Done (True, q') \<and> items q' = items q @ [x] \<and> cap q' = cap q"
    and put_full: "\<not> (cap q = 0 \<or> length (items q) < cap q) \<Longrightarrow> put x b q = (if b then Wait else Done (False, q))"
    and take_some: "items q = x # xs \<Longrightarrow> \<exists>q'. take_one q = Done (x, q') \<and> items q' = xs \<and> cap q' = cap q"
    and take_none: "items q = [] \<Longrightarrow> take_one q = Wait"
begin

lemma in_order:
  assumes "history put take_one q ops = (ins, outs, q')"
  shows "items q @ ins = outs @ items q'"
  using assms
proof (induction ops arbitrary: q ins outs)
  case (Cons op ops)
  show ?case
  proof (cases op)
    case (Put x)
    show ?thesis
    proof (cases "cap q = 0 \<or> length (items q) < cap q")
      case True
      then obtain q1 where "put x False q = Done (True, q1)" "items q1 = items q @ [x]"
        using put_space by blast
      with Cons Put show ?thesis by (auto split: prod.splits dest: Cons.IH)
    next
      case False
      with Cons.IH [of q] Cons.prems Put show ?thesis by (auto simp: put_full split: prod.splits)
    qed
  next
    case Take
    show ?thesis
    proof (cases "items q")
      case Nil
      with Cons.IH [of q ins outs] Cons.prems Take show ?thesis by (auto simp: take_none)
    next
      case (Cons x xs)
      then obtain q1 where "take_one q = Done (x, q1)" "items q1 = xs"
        using take_some by blast
      with Cons.prems Cons.IH Take Cons show ?thesis by (auto split: prod.splits)
    qed
  qed
qed simp

lemma within_cap:
  assumes "history put take_one q ops = (ins, outs, q')" "cap q = 0 \<or> length (items q) \<le> cap q"
  shows "cap q' = cap q \<and> (cap q' = 0 \<or> length (items q') \<le> cap q')"
  using assms
proof (induction ops arbitrary: q ins outs)
  case (Cons op ops)
  show ?case
  proof (cases op)
    case (Put x)
    show ?thesis
    proof (cases "cap q = 0 \<or> length (items q) < cap q")
      case True
      then obtain q1 where "put x False q = Done (True, q1)" "items q1 = items q @ [x]" "cap q1 = cap q"
        using put_space by blast
      with Cons Put True show ?thesis by (fastforce split: prod.splits)
    next
      case False
      with Cons.IH [of q] Cons.prems Put show ?thesis by (auto simp: put_full split: prod.splits)
    qed
  next
    case Take
    show ?thesis
    proof (cases "items q")
      case Nil
      with Cons.IH [of q ins outs] Cons.prems Take show ?thesis by (auto simp: take_none)
    next
      case (Cons x xs)
      then obtain q1 where "take_one q = Done (x, q1)" "items q1 = xs" "cap q1 = cap q"
        using take_some by blast
      with Cons.prems Cons.IH Take Cons show ?thesis by (fastforce split: prod.splits)
    qed
  qed
qed simp

end

interpretation fq: bounded_queue ff_q ff_max enq deq
  by unfold_locales (auto simp: enq_def deq_def)

section \<open>ThrPool\<close>

text \<open>A job; \<open>None\<close> is the job with a null function, the poison pill.\<close>

record 'j thr_pool =
  tp_nthreads :: nat
  tp_blockadd :: bool
  tp_jobq :: "'j option fifo"

definition ThrPool_new :: "nat \<Rightarrow> bool \<Rightarrow> 'j thr_pool" where
  "ThrPool_new sz blocking = \<lparr>tp_nthreads = sz, tp_blockadd = blocking, tp_jobq = fifo_new (100 * sz)\<rparr>"

definition addJob :: "'j \<Rightarrow> 'j thr_pool \<Rightarrow> (bool \<times> 'j thr_pool) attempt" where
  "addJob j p =
     (case enq (Some j) (tp_blockadd p) (tp_jobq p) of
        Wait \<Rightarrow> Wait | Done (ok, f) \<Rightarrow> Done (ok, p\<lparr>tp_jobq := f\<rparr>))"

text \<open>\<open>addObjJob\<close> wraps an object, a method and its argument into one job.\<close>

definition addObjJob :: "'c \<Rightarrow> ('c \<Rightarrow> 'a \<Rightarrow> unit) \<Rightarrow> 'a \<Rightarrow> ('c \<times> ('c \<Rightarrow> 'a \<Rightarrow> unit) \<times> 'a) thr_pool \<Rightarrow>
    (bool \<times> ('c \<times> ('c \<Rightarrow> 'a \<Rightarrow> unit) \<times> 'a) thr_pool) attempt" where
  "addObjJob ob m a p = addJob (ob, m, a) p"

text \<open>\<open>takeJob\<close>: the result is whether the job is one to run.\<close>

definition takeJob :: "'j thr_pool \<Rightarrow> (bool \<times> 'j option \<times> 'j thr_pool) attempt" where
  "takeJob p =
     (case deq (tp_jobq p) of Wait \<Rightarrow> Wait | Done (j, f) \<Rightarrow> Done (j \<noteq> None, j, p\<lparr>tp_jobq := f\<rparr>))"

section \<open>Workers and shutdown\<close>

text \<open>A worker of \<open>do_worker\<close>: about to take a job, running one, or gone. \<open>pl_pills\<close> is the number of pills the
  destructor has still to put into the queue, \<open>pl_done\<close> what has been run.\<close>

datatype 'j worker = Idle | Busy 'j | Gone

record 'j pool_state =
  pl_pool :: "'j thr_pool"
  pl_workers :: "'j worker list"
  pl_pills :: nat
  pl_done :: "'j list"

inductive shut_step :: "'j pool_state \<Rightarrow> 'j pool_state \<Rightarrow> bool" where
  put_pill: "\<lbrakk>pl_pills s = Suc k; enq None True (tp_jobq (pl_pool s)) = Done (ok, f)\<rbrakk> \<Longrightarrow>
    shut_step s (s\<lparr>pl_pool := (pl_pool s)\<lparr>tp_jobq := f\<rparr>, pl_pills := k\<rparr>)"
| take_job: "\<lbrakk>i < length (pl_workers s); pl_workers s ! i = Idle; takeJob (pl_pool s) = Done (True, Some j, p)\<rbrakk> \<Longrightarrow>
    shut_step s (s\<lparr>pl_pool := p, pl_workers := (pl_workers s)[i := Busy j]\<rparr>)"
| take_pill: "\<lbrakk>i < length (pl_workers s); pl_workers s ! i = Idle; takeJob (pl_pool s) = Done (False, x, p)\<rbrakk> \<Longrightarrow>
    shut_step s (s\<lparr>pl_pool := p, pl_workers := (pl_workers s)[i := Gone]\<rparr>)"
| run_job: "\<lbrakk>i < length (pl_workers s); pl_workers s ! i = Busy j\<rbrakk> \<Longrightarrow>
    shut_step s (s\<lparr>pl_workers := (pl_workers s)[i := Idle], pl_done := pl_done s @ [j]\<rparr>)"

text \<open>The pool at the moment its destructor starts: no external thread uses it any more.\<close>

definition shut_start :: "'j thr_pool \<Rightarrow> 'j worker list \<Rightarrow> 'j pool_state" where
  "shut_start p ws = \<lparr>pl_pool = p, pl_workers = ws, pl_pills = tp_nthreads p, pl_done = []\<rparr>"

text \<open>Between construction and destruction the queue holds jobs only.\<close>

definition pool_holds :: "'j list \<Rightarrow> 'j thr_pool \<Rightarrow> bool" where
  "pool_holds js p \<longleftrightarrow> ff_q (tp_jobq p) = map Some js \<and> ff_max (tp_jobq p) = 100 * tp_nthreads p"

lemma pool_holds_new: "pool_holds [] (ThrPool_new sz b)"
  by (simp add: pool_holds_def ThrPool_new_def fifo_new_def)

lemma pool_holds_addJob:
  assumes "pool_holds js p" "addJob j p = Done (ok, p')"
  shows "pool_holds (if ok then js @ [j] else js) p'" "tp_nthreads p' = tp_nthreads p"
  using assms by (auto simp: pool_holds_def addJob_def enq_def split: if_splits)

lemma pool_holds_takeJob:
  assumes "pool_holds js p" "takeJob p = Done (ok, x, p')"
  shows "\<exists>j. ok \<and> x = Some j \<and> js = j # tl js \<and> pool_holds (tl js) p'" "tp_nthreads p' = tp_nthreads p"
  using assms by (auto simp: pool_holds_def takeJob_def deq_def split: list.splits)

section \<open>Shutdown ends, with every job run\<close>

fun running :: "'j worker \<Rightarrow> 'j list" where
  "running (Busy j) = [j]"
| "running Idle = []"
| "running Gone = []"

definition busy_jobs :: "'j worker list \<Rightarrow> 'j list" where
  "busy_jobs ws = concat (map running ws)"

definition alive :: "'j worker list \<Rightarrow> nat" where
  "alive ws = length (filter (\<lambda>w. w \<noteq> Gone) ws)"

lemma busy_jobs_split: "busy_jobs (us @ w # vs) = busy_jobs us @ running w @ busy_jobs vs"
  by (simp add: busy_jobs_def)

lemma alive_split: "alive (us @ w # vs) = alive us + (if w = Gone then 0 else 1) + alive vs"
  by (simp add: alive_def)

lemma alive_0: "alive ws = 0 \<longleftrightarrow> set ws \<subseteq> {Gone}"
  by (auto simp: alive_def filter_empty_conv)

lemma alive_all: "Gone \<notin> set ws \<Longrightarrow> alive ws = length ws"
  by (induction ws) (auto simp: alive_def)

lemma worker_split:
  assumes "i < length ws" "ws ! i = w"
  obtains us vs where "ws = us @ w # vs" "i = length us" "\<And>v. ws[i := v] = us @ v # vs"
proof (rule that)
  show "ws = take i ws @ w # drop (Suc i) ws"
    using assms id_take_nth_drop by blast
  show "i = length (take i ws)" using assms by simp
  show "ws[i := v] = take i ws @ v # drop (Suc i) ws" for v
    using assms by (simp add: upd_conv_take_nth_drop)
qed

text \<open>The jobs of the queue come before its pills; a pill in the queue or still to come for each live worker.\<close>

definition pill_for_each :: "'j multiset \<Rightarrow> nat \<Rightarrow> 'j list \<Rightarrow> nat \<Rightarrow> 'j pool_state \<Rightarrow> bool" where
  "pill_for_each todo n js k s \<longleftrightarrow>
     ff_q (tp_jobq (pl_pool s)) = map Some js @ replicate k None \<and>
     ff_max (tp_jobq (pl_pool s)) = 100 * n \<and>
     alive (pl_workers s) = k + pl_pills s \<and>
     (js \<noteq> [] \<longrightarrow> 0 < k + pl_pills s) \<and>
     mset (pl_done s) + mset (busy_jobs (pl_workers s)) + mset js = todo"

definition shut_inv :: "'j multiset \<Rightarrow> nat \<Rightarrow> 'j pool_state \<Rightarrow> bool" where
  "shut_inv todo n s \<longleftrightarrow> (\<exists>js k. pill_for_each todo n js k s)"

lemma shut_invI: "pill_for_each todo n js k s \<Longrightarrow> shut_inv todo n s"
  by (auto simp: shut_inv_def)

lemma shut_start_inv:
  assumes "pool_holds js p" "length ws = tp_nthreads p" "0 < tp_nthreads p" "Gone \<notin> set ws"
  shows "shut_inv (mset js + mset (busy_jobs ws)) (tp_nthreads p) (shut_start p ws)"
  using assms
  by (intro shut_invI [of _ _ js 0])
    (simp add: pill_for_each_def pool_holds_def shut_start_def alive_all add.commute)

lemma shut_step_inv:
  assumes "shut_step s s'" "shut_inv todo n s"
  shows "shut_inv todo n s'"
proof -
  obtain js m where inv: "pill_for_each todo n js m s"
    using assms(2) by (auto simp: shut_inv_def)
  then have q: "ff_q (tp_jobq (pl_pool s)) = map Some js @ replicate m None"
    by (simp add: pill_for_each_def)
  from assms(1) show ?thesis
  proof cases
    case (put_pill k ok f)
    from put_pill(3) have "f = (tp_jobq (pl_pool s))\<lparr>ff_q := ff_q (tp_jobq (pl_pool s)) @ [None]\<rparr>"
      by (auto simp: enq_def split: if_splits)
    with inv put_pill have "pill_for_each todo n js (Suc m) s'"
      by (simp add: pill_for_each_def replicate_append_same)
    then show ?thesis by (rule shut_invI)
  next
    case (take_job i j p)
    obtain us vs where ws: "pl_workers s = us @ Idle # vs" "(pl_workers s)[i := Busy j] = us @ Busy j # vs"
      using worker_split [OF take_job(2,3)] by metis
    from take_job(4) q obtain js' where "js = j # js'"
        "p = (pl_pool s)\<lparr>tp_jobq := (tp_jobq (pl_pool s))\<lparr>ff_q := map Some js' @ replicate m None\<rparr>\<rparr>"
      by (cases js; cases m) (auto simp: takeJob_def deq_def)
    with inv ws take_job(1) have "pill_for_each todo n js' m s'"
      by (auto simp: pill_for_each_def alive_split busy_jobs_split)
    then show ?thesis by (rule shut_invI)
  next
    case (take_pill i x p)
    obtain us vs where ws: "pl_workers s = us @ Idle # vs" "(pl_workers s)[i := Gone] = us @ Gone # vs"
      using worker_split [OF take_pill(2,3)] by metis
    from take_pill(4) q obtain m' where "js = []" "m = Suc m'"
        "p = (pl_pool s)\<lparr>tp_jobq := (tp_jobq (pl_pool s))\<lparr>ff_q := replicate m' None\<rparr>\<rparr>"
      by (cases js; cases m) (auto simp: takeJob_def deq_def)
    with inv ws take_pill(1) have "pill_for_each todo n [] m' s'"
      by (auto simp: pill_for_each_def alive_split busy_jobs_split)
    then show ?thesis by (rule shut_invI)
  next
    case (run_job i j)
    obtain us vs where "pl_workers s = us @ Busy j # vs" "(pl_workers s)[i := Idle] = us @ Idle # vs"
      using worker_split [OF run_job(2,3)] by metis
    with inv run_job(1) have "pill_for_each todo n js m s'"
      by (auto simp: pill_for_each_def alive_split busy_jobs_split)
    then show ?thesis by (rule shut_invI)
  qed
qed

text \<open>Work left: a queued job is taken and run, a pill put and taken.\<close>

definition work :: "'j pool_state \<Rightarrow> nat" where
  "work s = (\<Sum>x\<leftarrow>ff_q (tp_jobq (pl_pool s)). if x = None then 1 else 3) +
     2 * length (busy_jobs (pl_workers s)) + 2 * pl_pills s"

lemma shut_step_work: "shut_step s s' \<Longrightarrow> work s' < work s"
proof (induction rule: shut_step.induct)
  case (put_pill s k ok f)
  then show ?case by (auto simp: work_def enq_def split: if_splits)
next
  case (take_job i s j p)
  obtain us vs where "pl_workers s = us @ Idle # vs" "(pl_workers s)[i := Busy j] = us @ Busy j # vs"
    using worker_split [OF take_job(1,2)] by metis
  with take_job(3) show ?case
    by (auto simp: work_def takeJob_def deq_def busy_jobs_split split: list.splits)
next
  case (take_pill i s x p)
  obtain us vs where "pl_workers s = us @ Idle # vs" "(pl_workers s)[i := Gone] = us @ Gone # vs"
    using worker_split [OF take_pill(1,2)] by metis
  with take_pill(3) show ?case
    by (auto simp: work_def takeJob_def deq_def busy_jobs_split split: list.splits)
next
  case (run_job i s j)
  obtain us vs where "pl_workers s = us @ Busy j # vs" "(pl_workers s)[i := Idle] = us @ Idle # vs"
    using worker_split [OF run_job(1,2)] by metis
  then show ?case by (simp add: work_def busy_jobs_split)
qed

lemma shut_steps_work: "(shut_step ^^ k) s s' \<Longrightarrow> k + work s' \<le> work s"
proof (induction k arbitrary: s')
  case (Suc k)
  then show ?case by (fastforce dest: shut_step_work)
qed simp

lemma shut_steps_inv: "(shut_step ^^ k) s s' \<Longrightarrow> shut_inv todo n s \<Longrightarrow> shut_inv todo n s'"
  by (induction k arbitrary: s') (auto dest: shut_step_inv)

lemma idle_takes:
  assumes "Idle \<in> set (pl_workers s)" "ff_q (tp_jobq (pl_pool s)) \<noteq> []"
  shows "\<exists>s'. shut_step s s'"
proof -
  obtain i where i: "i < length (pl_workers s)" "pl_workers s ! i = Idle"
    using assms(1) by (metis in_set_conv_nth)
  obtain x p where "takeJob (pl_pool s) = Done (x \<noteq> None, x, p)"
    using assms(2) by (cases "ff_q (tp_jobq (pl_pool s))") (auto simp: takeJob_def deq_def)
  with i show ?thesis
    by (cases x) (auto intro: shut_step.take_job shut_step.take_pill)
qed

text \<open>A state that cannot move has nothing left to do.\<close>

lemma shut_stuck:
  assumes "shut_inv todo n s" "0 < n" "\<nexists>s'. shut_step s s'"
  shows "set (pl_workers s) \<subseteq> {Gone}" "ff_q (tp_jobq (pl_pool s)) = []" "pl_pills s = 0" "mset (pl_done s) = todo"
proof -
  obtain js m where inv: "ff_q (tp_jobq (pl_pool s)) = map Some js @ replicate m None"
      "ff_max (tp_jobq (pl_pool s)) = 100 * n" "alive (pl_workers s) = m + pl_pills s"
      "js \<noteq> [] \<longrightarrow> 0 < m + pl_pills s"
      "mset (pl_done s) + mset (busy_jobs (pl_workers s)) + mset js = todo"
    using assms(1) by (auto simp: shut_inv_def pill_for_each_def)
  have no_busy: "Busy j \<notin> set (pl_workers s)" for j
    using assms(3) by (metis in_set_conv_nth shut_step.run_job)
  have pills: "pl_pills s = 0 \<or> ff_q (tp_jobq (pl_pool s)) \<noteq> []"
  proof (rule ccontr)
    assume "\<not> ?thesis"
    then obtain k where "pl_pills s = Suc k" "enq None True (tp_jobq (pl_pool s)) =
        Done (True, (tp_jobq (pl_pool s))\<lparr>ff_q := [None]\<rparr>)"
      using inv(2) assms(2) by (auto simp: enq_def gr0_conv_Suc)
    with assms(3) show False by (blast intro: shut_step.put_pill)
  qed
  have live: "Idle \<in> set (pl_workers s)" if "0 < m + pl_pills s"
  proof -
    have "\<not> set (pl_workers s) \<subseteq> {Gone}"
      using that inv(3) by (metis alive_0 less_irrefl)
    then show ?thesis
      using no_busy by (metis insertI1 subsetI worker.exhaust)
  qed
  have none: "m + pl_pills s = 0"
  proof (rule ccontr)
    assume "\<not> ?thesis"
    then have "0 < m + pl_pills s" by simp
    moreover from this have "ff_q (tp_jobq (pl_pool s)) \<noteq> []" using pills inv(1) by auto
    ultimately have "\<exists>s'. shut_step s s'" by (intro idle_takes live)
    then show False using assms(3) by simp
  qed
  then show gone: "set (pl_workers s) \<subseteq> {Gone}" using inv(3) by (simp flip: alive_0)
  show "ff_q (tp_jobq (pl_pool s)) = []" "pl_pills s = 0" using none inv(1,4) by auto
  have "busy_jobs (pl_workers s) = []" using gone by (auto simp: busy_jobs_def)
  with none inv(4,5) show "mset (pl_done s) = todo" by auto
qed

lemma work_start:
  assumes "pool_holds js p"
  shows "work (shut_start p ws) = 3 * length js + 2 * length (busy_jobs ws) + 2 * tp_nthreads p"
proof -
  have "(\<Sum>x\<leftarrow>map Some js. if x = None then 1 else 3) = 3 * length js"
    by (induction js) auto
  with assms show ?thesis by (simp add: work_def shut_start_def pool_holds_def)
qed

section \<open>Properties\<close>

text \<open>C35: Items leave a \<open>fifo\<close> in exactly the order in which \<open>enq\<close> accepted them: for every interleaving of \<open>enq\<close>
  (non-blocking) and \<open>deq\<close> calls on a queue, what was in it followed by what was accepted is what came out
  followed by what is left; and a queue with a limit never holds more than the limit.\<close>

theorem fifo_in_order_and_bounded:
  assumes "history enq deq f ops = (ins, outs, f')" "ff_max f = 0 \<or> length (ff_q f) \<le> ff_max f"
  shows "ff_q f @ ins = outs @ ff_q f' \<and> ff_max f' = ff_max f \<and> (ff_max f' = 0 \<or> length (ff_q f') \<le> ff_max f')"
  using fq.in_order [OF assms(1)] fq.within_cap [OF assms] by auto

lemma fifo_in_order_and_bounded_witness:
  "history enq deq (fifo_new 2) [Put CHR ''a'', Put CHR ''b'', Put CHR ''c'', Take, Put CHR ''d'', Take] =
     (''abd'', ''ab'', \<lparr>ff_q = ''d'', ff_max = 2\<rparr>) \<and> ff_q (fifo_new 2) @ ''abd'' = ''ab'' @ ''d''"
proof -
  have "history enq deq (fifo_new 2) [Put CHR ''a'', Put CHR ''b'', Put CHR ''c'', Take, Put CHR ''d'', Take] =
      (''abd'', ''ab'', \<lparr>ff_q = ''d'', ff_max = 2\<rparr>)"
    by (simp add: enq_def deq_def fifo_new_def)
  from this and fifo_in_order_and_bounded [OF this] show ?thesis by (simp add: fifo_new_def)
qed

text \<open>C34: Destroying a \<open>ThrPool\<close> that no other thread uses terminates and loses no job: whatever the interleaving
  of the destructor's poison pills with the workers, at most \<open>3 * queued + 2 * running + 2 * nthreads\<close> steps are
  possible, and when no further step is possible every worker has exited (so that the joins return), the queue is
  empty, all pills are taken and the jobs run since the destructor started are exactly the queued and the running ones.\<close>

theorem pool_shutdown_completes:
  assumes "pool_holds js p" "length ws = tp_nthreads p" "0 < tp_nthreads p" "Gone \<notin> set ws"
    and "(shut_step ^^ k) (shut_start p ws) s"
  shows "k \<le> 3 * length js + 2 * length (busy_jobs ws) + 2 * tp_nthreads p \<and>
    ((\<exists>s'. shut_step s s') \<or>
     set (pl_workers s) \<subseteq> {Gone} \<and> ff_q (tp_jobq (pl_pool s)) = [] \<and> pl_pills s = 0 \<and>
     mset (pl_done s) = mset js + mset (busy_jobs ws))"
proof -
  have "k \<le> work (shut_start p ws)"
    using shut_steps_work [OF assms(5)] by simp
  moreover have "shut_inv (mset js + mset (busy_jobs ws)) (tp_nthreads p) s"
    using shut_steps_inv [OF assms(5) shut_start_inv [OF assms(1-4)]] .
  ultimately show ?thesis
    using shut_stuck [OF _ assms(3)] work_start [OF assms(1), of ws] by fastforce
qed

lemma pool_shutdown_completes_witness:
  "\<exists>p s. addJob (7 :: nat) (ThrPool_new 1 True) = Done (True, p) \<and>
     (shut_step ^^ 5) (shut_start p [Busy 5]) s \<and> (\<nexists>s'. (shut_step ^^ 8) (shut_start p [Busy 5]) s') \<and>
     pl_workers s = [Gone] \<and> mset (pl_done s) = {#7, 5#}"
proof -
  let ?p = "\<lambda>q :: nat option list. \<lparr>tp_nthreads = 1, tp_blockadd = True, tp_jobq = \<lparr>ff_q = q, ff_max = 100\<rparr>\<rparr>"
  let ?s = "\<lambda>q w k d. \<lparr>pl_pool = ?p q, pl_workers = [w], pl_pills = k, pl_done = d :: nat list\<rparr>"
  let ?pa = "?p [Some 7]" and ?e = "?s [] Gone 0 [5, 7]"
  have add: "addJob 7 (ThrPool_new 1 True) = Done (True, ?pa)"
    by (simp add: addJob_def ThrPool_new_def fifo_new_def enq_def)
  have start: "shut_start ?pa [Busy 5] = ?s [Some 7] (Busy 5) 1 []" by (simp add: shut_start_def)
  have 1: "shut_step (?s [Some 7] (Busy 5) 1 []) (?s [Some 7] Idle 1 [5])"
    using shut_step.run_job [of 0 "?s [Some 7] (Busy 5) 1 []" 5] by simp
  have 2: "shut_step (?s [Some 7] Idle 1 [5]) (?s [Some 7, None] Idle 0 [5])"
    using shut_step.put_pill [of "?s [Some 7] Idle 1 [5]" 0] by (simp add: enq_def)
  have 3: "shut_step (?s [Some 7, None] Idle 0 [5]) (?s [None] (Busy 7) 0 [5])"
    using shut_step.take_job [of 0 "?s [Some 7, None] Idle 0 [5]" 7] by (simp add: takeJob_def deq_def)
  have 4: "shut_step (?s [None] (Busy 7) 0 [5]) (?s [None] Idle 0 [5, 7])"
    using shut_step.run_job [of 0 "?s [None] (Busy 7) 0 [5]" 7] by simp
  have 5: "shut_step (?s [None] Idle 0 [5, 7]) ?e"
    using shut_step.take_pill [of 0 "?s [None] Idle 0 [5, 7]"] by (simp add: takeJob_def deq_def)
  have run: "(shut_step ^^ 5) (shut_start ?pa [Busy 5]) ?e"
    unfolding start using 1 2 3 4 5 by (simp add: numeral_eq_Suc) blast
  have holds: "pool_holds [7] ?pa" by (simp add: pool_holds_def)
  have stuck: "\<nexists>s'. shut_step ?e s'"
    by (auto simp: takeJob_def deq_def elim!: shut_step.cases)
  have "\<not> (shut_step ^^ 8) (shut_start ?pa [Busy 5]) s'" for s'
    using pool_shutdown_completes [OF holds, of "[Busy 5]" 8] by (auto simp: busy_jobs_def)
  moreover have "mset (pl_done ?e) = {#7, 5#}"
    using pool_shutdown_completes [OF holds, of "[Busy 5]" 5 ?e] run stuck by (auto simp: busy_jobs_def)
  ultimately show ?thesis using add run by (intro exI [of _ ?pa] exI [of _ ?e]) simp
qed

end
