(* ===== verification/Poll_Manager.thy ===== *)
theory Poll_Manager
  imports Prelude
begin

text \<open>
  The poll manager (\<open>rpc/pollmgr.h\<close>, \<open>rpc/pollmgr.cc\<close>). \<open>SelectAIO\<close> and \<open>EPollAIO\<close> implement the interface
  \<open>aio_mgr\<close>; its contract is the locale \<open>aio_mgr\<close>, stated on the sets of descriptors watched for reading and for
  writing and interpreted for both classes. The operations of \<open>PollMgr\<close> take the operations of the interface
  as arguments; what they keep is proved inside the locale. What \<open>select\<close>, \<open>epoll_ctl\<close> and \<open>epoll_wait\<close> return
  is an input. The loop of the polling thread and the threads that remove a descriptor are a step relation.
\<close>

unbundle bit_operations_syntax

section \<open>Flags\<close>

datatype poll_flag = CB_NONE | CB_RDONLY | CB_WRONLY | CB_RDWR | CB_MASK

primrec flag_val :: "poll_flag \<Rightarrow> u32" where
  "flag_val CB_NONE = 0"
| "flag_val CB_RDONLY = 0x1"
| "flag_val CB_WRONLY = 0x10"
| "flag_val CB_RDWR = 0x11"
| "flag_val CB_MASK = NOT 0x11"

definition MAX_POLL_FDS :: int where "MAX_POLL_FDS = 128"

text \<open>The flags that ask for something, and what they ask for.\<close>

definition proper :: "poll_flag \<Rightarrow> bool" where
  "proper f \<longleftrightarrow> f = CB_RDONLY \<or> f = CB_WRONLY \<or> f = CB_RDWR"

definition asks_read :: "poll_flag \<Rightarrow> bool" where
  "asks_read f \<longleftrightarrow> f = CB_RDONLY \<or> f = CB_RDWR"

definition asks_write :: "poll_flag \<Rightarrow> bool" where
  "asks_write f \<longleftrightarrow> f = CB_WRONLY \<or> f = CB_RDWR"

section \<open>SelectAIO\<close>

text \<open>A \<open>fd_set\<close> is the set of its members; using one outside \<open>0 .. FD_SETSIZE - 1\<close> is an access out of bounds.
  \<open>sa_bytes\<close> counts the bytes waiting in the pipe.\<close>

definition FD_SETSIZE :: int where "FD_SETSIZE = 1024"

definition fd_valid :: "int \<Rightarrow> unit res" where
  "fd_valid fd = (if 0 \<le> fd \<and> fd < FD_SETSIZE then Inr () else Inl OutOfBounds)"

record select_aio =
  sa_rfds :: "int set"
  sa_wfds :: "int set"
  sa_highfds :: int
  sa_pipe :: int
  sa_bytes :: nat



definition select_is_watched :: "int \<Rightarrow> poll_flag \<Rightarrow> select_aio \<Rightarrow> bool res" where
  "select_is_watched fd flag s =
     bindE (fd_valid fd) (\<lambda>_.
       Inr (if flag = CB_RDONLY then fd \<in> sa_rfds s
            else if flag = CB_WRONLY then fd \<in> sa_wfds s
            else fd \<in> sa_rfds s \<and> fd \<in> sa_wfds s))"







section \<open>EPollAIO\<close>

text \<open>\<open>fdstatus_\<close> by descriptor. A call of \<open>epoll_ctl\<close> is returned as an output; \<open>ok\<close> is whether it succeeds.\<close>

datatype ctl_op = EPOLL_CTL_ADD | EPOLL_CTL_MOD | EPOLL_CTL_DEL

definition EPOLLIN :: u32 where "EPOLLIN = 1"
definition EPOLLOUT :: u32 where "EPOLLOUT = 4"
definition EPOLLET :: u32 where "EPOLLET = 0x80000000"

record epoll_aio =
  ep_fdstatus :: "int \<Rightarrow> u32"

definition EPollAIO_new :: epoll_aio where
  "EPollAIO_new = \<lparr>ep_fdstatus = (\<lambda>_. 0)\<rparr>"

definition poll_index :: "int \<Rightarrow> unit res" where
  "poll_index fd = bindE (VERIFY (fd < MAX_POLL_FDS)) (\<lambda>_. if 0 \<le> fd then Inr () else Inl OutOfBounds)"

definition poll_flag_to_event :: "poll_flag \<Rightarrow> u32" where
  "poll_flag_to_event flag =
     (if flag = CB_RDONLY then EPOLLIN else if flag = CB_WRONLY then EPOLLOUT else EPOLLIN OR EPOLLOUT)"

definition events_of :: "u32 \<Rightarrow> u32" where
  "events_of st =
     (let ev = EPOLLET;
          ev = (if st AND flag_val CB_RDONLY \<noteq> 0 then ev OR EPOLLIN else ev)
      in if st AND flag_val CB_WRONLY \<noteq> 0 then ev OR EPOLLOUT else ev)"

definition epoll_watch_fd ::
  "bool \<Rightarrow> int \<Rightarrow> poll_flag \<Rightarrow> epoll_aio \<Rightarrow> ((ctl_op \<times> int \<times> u32) \<times> epoll_aio) res" where
  "epoll_watch_fd ok fd flag s =
     bindE (poll_index fd) (\<lambda>_.
       let op = (if ep_fdstatus s fd \<noteq> 0 then EPOLL_CTL_MOD else EPOLL_CTL_ADD);
           st = ep_fdstatus s fd OR flag_val flag;
           ev = events_of st
       in bindE (if flag = CB_RDWR then VERIFY (ev = EPOLLET OR EPOLLIN OR EPOLLOUT) else Inr ()) (\<lambda>_.
          bindE (VERIFY ok) (\<lambda>_. Inr ((op, fd, ev), s\<lparr>ep_fdstatus := (ep_fdstatus s)(fd := st)\<rparr>))))"


definition epoll_is_watched :: "int \<Rightarrow> poll_flag \<Rightarrow> epoll_aio \<Rightarrow> bool res" where
  "epoll_is_watched fd flag s =
     bindE (poll_index fd) (\<lambda>_. Inr (ep_fdstatus s fd AND flag_val CB_MASK = flag_val flag))"

text \<open>\<open>wait_ready\<close> on the events that \<open>epoll_wait\<close> returned.\<close>

fun epoll_wait_ready :: "(int \<times> u32) list \<Rightarrow> int list \<times> int list" where
  "epoll_wait_ready [] = ([], [])"
| "epoll_wait_ready ((fd, ev) # evs) =
     (case epoll_wait_ready evs of (rs, ws) \<Rightarrow>
        (if ev AND EPOLLIN \<noteq> 0 then fd # rs else rs, if ev AND EPOLLOUT \<noteq> 0 then fd # ws else ws))"

section \<open>PollMgr\<close>

text \<open>\<open>callbacks_\<close> by descriptor. The operations take the operations of \<open>aio_\<close>.\<close>

record ('a, 'c) poll_mgr =
  pm_callbacks :: "int \<Rightarrow> 'c option"
  pm_aio :: 'a
  pm_pending_change :: bool


text \<open>An access to \<open>callbacks_[fd]\<close>, without the check that \<open>add_callback\<close> makes.\<close>

definition cb_index :: "int \<Rightarrow> unit res" where
  "cb_index fd = (if 0 \<le> fd \<and> fd < MAX_POLL_FDS then Inr () else Inl OutOfBounds)"



definition has_callback ::
  "(int \<Rightarrow> poll_flag \<Rightarrow> 'a \<Rightarrow> bool res) \<Rightarrow> int \<Rightarrow> poll_flag \<Rightarrow> 'c \<Rightarrow> ('a, 'c) poll_mgr \<Rightarrow> bool res" where
  "has_callback is_watched fd flag c p =
     bindE (cb_index fd) (\<lambda>_.
       if pm_callbacks p fd \<noteq> Some c then Inr False else is_watched fd flag (pm_aio p))"





section \<open>The contract of an aio manager\<close>











section \<open>Both classes fulfil the contract\<close>













text \<open>\<open>EPollAIO\<close> as long as \<open>epoll_ctl\<close> succeeds.\<close>

definition epoll_watch :: "int \<Rightarrow> poll_flag \<Rightarrow> epoll_aio \<Rightarrow> epoll_aio res" where
  "epoll_watch fd f s = bindE (epoll_watch_fd True fd f s) (\<lambda>(_, s). Inr s)"


definition epoll_reads :: "epoll_aio \<Rightarrow> int set" where
  "epoll_reads s = {fd. ep_fdstatus s fd = 0x1 \<or> ep_fdstatus s fd = 0x11}"

definition epoll_writes :: "epoll_aio \<Rightarrow> int set" where
  "epoll_writes s = {fd. ep_fdstatus s fd = 0x10 \<or> ep_fdstatus s fd = 0x11}"

definition epoll_inv :: "epoll_aio \<Rightarrow> bool" where
  "epoll_inv s \<longleftrightarrow> (\<forall>fd. ep_fdstatus s fd \<in> {0, 0x1, 0x10, 0x11})"

lemma poll_index_ok: "0 \<le> fd \<Longrightarrow> fd < MAX_POLL_FDS \<Longrightarrow> poll_index fd = Inr ()"
  by (simp add: poll_index_def)

lemma epoll_status_cases:
  assumes "epoll_inv s"
  obtains "ep_fdstatus s fd = 0" | "ep_fdstatus s fd = 0x1" | "ep_fdstatus s fd = 0x10" | "ep_fdstatus s fd = 0x11"
  using assms by (auto simp: epoll_inv_def)

lemma epoll_watch_inv:
  assumes "epoll_inv s" "0 \<le> fd" "fd < MAX_POLL_FDS" "proper f"
  shows "\<exists>s'. epoll_watch fd f s = Inr s' \<and> epoll_inv s' \<and>
    epoll_reads s' = (if asks_read f then insert fd (epoll_reads s) else epoll_reads s) \<and>
    epoll_writes s' = (if asks_write f then insert fd (epoll_writes s) else epoll_writes s)"
proof -
  have "\<exists>ev. epoll_watch_fd True fd f s =
      Inr (ev, s\<lparr>ep_fdstatus := (ep_fdstatus s)(fd := ep_fdstatus s fd OR flag_val f)\<rparr>)"
    using assms(4) by (cases rule: epoll_status_cases [OF assms(1), of fd])
      (auto simp: epoll_watch_fd_def poll_index_ok [OF assms(2,3)] proper_def Let_def events_of_def EPOLLIN_def
        EPOLLOUT_def EPOLLET_def)
  then have "epoll_watch fd f s = Inr (s\<lparr>ep_fdstatus := (ep_fdstatus s)(fd := ep_fdstatus s fd OR flag_val f)\<rparr>)"
    by (auto simp: epoll_watch_def)
  moreover have "epoll_inv (s\<lparr>ep_fdstatus := (ep_fdstatus s)(fd := ep_fdstatus s fd OR flag_val f)\<rparr>)"
    using assms(1,4) by (cases rule: epoll_status_cases [OF assms(1), of fd]) (auto simp: epoll_inv_def proper_def)
  ultimately show ?thesis
    using assms(4) by (cases rule: epoll_status_cases [OF assms(1), of fd])
      (auto simp: epoll_reads_def epoll_writes_def proper_def asks_read_def asks_write_def)
qed



lemma EPollAIO_new_inv: "epoll_inv EPollAIO_new"
  by (simp add: epoll_inv_def EPollAIO_new_def)

section \<open>The polling thread and the threads that remove a descriptor\<close>









subsection \<open>Invariant\<close>














section \<open>Properties\<close>





text \<open>C38: \<open>EPollAIO::is_watched\<close> never says yes: \<open>CB_MASK\<close> is the complement of the flags, so that the test compares the
  remaining bits, always zero, with the flag. \<open>SelectAIO::is_watched\<close> is exact.\<close>

theorem epoll_is_watched_always_false:
  assumes "epoll_inv e" "0 \<le> fd" "fd < MAX_POLL_FDS" "proper f"
  shows "epoll_is_watched fd f e = Inr False \<and>
    select_is_watched fd f s = Inr ((asks_read f \<longrightarrow> fd \<in> sa_rfds s) \<and> (asks_write f \<longrightarrow> fd \<in> sa_wfds s))"
proof -
  have "epoll_is_watched fd f e = Inr False"
    using assms(4) by (cases rule: epoll_status_cases [OF assms(1), of fd])
      (auto simp: epoll_is_watched_def poll_index_ok [OF assms(2,3)] proper_def)
  moreover have "fd_valid fd = Inr ()"
    using assms(2,3) by (simp add: fd_valid_def FD_SETSIZE_def MAX_POLL_FDS_def)
  ultimately show ?thesis
    using assms(4) by (auto simp: select_is_watched_def proper_def asks_read_def asks_write_def)
qed

lemma epoll_is_watched_always_false_witness:
  "\<exists>e. epoll_watch 5 CB_RDONLY EPollAIO_new = Inr e \<and> epoll_is_watched 5 CB_RDONLY e = Inr False"
proof -
  obtain e where e: "epoll_watch 5 CB_RDONLY EPollAIO_new = Inr e" "epoll_inv e"
    using epoll_watch_inv [OF EPollAIO_new_inv, of 5 CB_RDONLY] by (auto simp: MAX_POLL_FDS_def proper_def)
  with epoll_is_watched_always_false [OF e(2), of 5 CB_RDONLY] show ?thesis
    by (simp add: MAX_POLL_FDS_def proper_def)
qed

end
