(* ===== verification/Listener.thy ===== *)
theory Listener
  imports Rpc_Client Rpc_Server Thread_Pool
begin

text \<open>
  Class \<open>tcpsconn\<close> (\<open>rpc/connection.h\<close>, \<open>rpc/connection.cc\<close>): the thread of a server that accepts connections and
  collects dead ones, and the destructors of \<open>tcpsconn\<close> and \<open>rpcs\<close>. The results of the system calls are
  inputs; connection objects live in a heap and are released by reference counting. \<open>conns_\<close> is the
  list of its entries in the order of their keys.
\<close>

section \<open>tcpsconn\<close>

record tcpsconn =
  ts_conns :: "(int \<times> nat) list"
  ts_lossy :: int

text \<open>The constructor, with the outcomes of \<open>socket\<close>, \<open>bind\<close>, \<open>listen\<close>, \<open>pipe\<close> and the creation of the thread.\<close>

definition tcpsconn_new :: "int \<Rightarrow> int \<Rightarrow> int \<Rightarrow> int \<Rightarrow> bool \<Rightarrow> int \<Rightarrow> tcpsconn res" where
  "tcpsconn_new tcp bound listening piped started lossy =
     bindE (VERIFY (\<not> tcp < 0)) (\<lambda>_.
     bindE (VERIFY (\<not> bound < 0)) (\<lambda>_.
     bindE (VERIFY (\<not> listening < 0)) (\<lambda>_.
     bindE (VERIFY (\<not> piped < 0)) (\<lambda>_.
     bindE (VERIFY started) (\<lambda>_. Inr \<lparr>ts_conns = [], ts_lossy = lossy\<rparr>)))))"

text \<open>The loop that collects dead connections nobody else refers to.\<close>

fun collect :: "(int \<times> nat) list \<Rightarrow> (nat \<rightharpoonup> connection) \<Rightarrow> ((int \<times> nat) list \<times> (nat \<rightharpoonup> connection)) res" where
  "collect [] hp = Inr ([], hp)"
| "collect ((k, c) # cs) hp =
     (case hp c of
        None \<Rightarrow> Inl NullDeref
      | Some x \<Rightarrow>
          if c_dead x \<and> c_refno x = 1 then bindE (obj_decref c hp) (collect cs)
          else bindE (collect cs hp) (\<lambda>(cs', hp'). Inr ((k, c) # cs', hp')))"

text \<open>\<open>conns_[k] = c\<close>.\<close>

fun conns_put :: "int \<Rightarrow> nat \<Rightarrow> (int \<times> nat) list \<Rightarrow> (int \<times> nat) list" where
  "conns_put k c [] = [(k, c)]"
| "conns_put k c ((k', c') # cs) =
     (if k < k' then (k, c) # (k', c') # cs
      else if k = k' then (k, c) # cs
      else (k', c') # conns_put k c cs)"

text \<open>\<open>s1\<close> is what \<open>accept\<close> returns and \<open>c\<close> the address of the object made for it; \<open>None\<close>: the thread exits.\<close>

definition process_accept ::
  "int \<Rightarrow> nat \<Rightarrow> int \<Rightarrow> int \<Rightarrow> tcpsconn \<Rightarrow> (nat \<rightharpoonup> connection) \<Rightarrow> (tcpsconn \<times> (nat \<rightharpoonup> connection)) option res" where
  "process_accept s1 c sec usec t hp =
     (if s1 < 0 then Inr None
      else
        (let hp1 = hp(c \<mapsto> connection_new sec usec (ts_lossy t))
         in bindE (collect (ts_conns t) hp1) (\<lambda>(cs, hp2). Inr (Some (t\<lparr>ts_conns := conns_put s1 c cs\<rparr>, hp2)))))"

text \<open>One return of \<open>select\<close> in \<open>accept_conn\<close>: interrupted, failed, the pipe is closed, a connection is waiting, neither.\<close>

datatype accept_event = AcIntr | AcFailed | AcPipe | AcConn int nat int int | AcNeither

text \<open>The loop of \<open>accept_conn\<close>; the result says whether the thread has ended.\<close>

fun accept_conn ::
  "accept_event list \<Rightarrow> tcpsconn \<Rightarrow> (nat \<rightharpoonup> connection) \<Rightarrow> (bool \<times> tcpsconn \<times> (nat \<rightharpoonup> connection)) res" where
  "accept_conn [] t hp = Inr (False, t, hp)"
| "accept_conn (AcIntr # es) t hp = accept_conn es t hp"
| "accept_conn (AcFailed # es) t hp = Inl VerifyFailed"
| "accept_conn (AcPipe # es) t hp = Inr (True, t, hp)"
| "accept_conn (AcConn s1 c sec usec # es) t hp =
     bindE (process_accept s1 c sec usec t hp) (\<lambda>r.
       case r of None \<Rightarrow> Inr (True, t, hp) | Some (t', hp') \<Rightarrow> accept_conn es t' hp')"
| "accept_conn (AcNeither # es) t hp = Inl VerifyFailed"

text \<open>The destructor's loop, after the accepting thread is joined.\<close>

fun close_conns :: "(int \<times> nat) list \<Rightarrow> (nat \<rightharpoonup> connection) \<Rightarrow> (nat \<rightharpoonup> connection) res" where
  "close_conns [] hp = Inr hp"
| "close_conns ((k, c) # cs) hp =
     (case hp c of
        None \<Rightarrow> Inl NullDeref
      | Some x \<Rightarrow> bindE (obj_decref c (hp(c \<mapsto> closeconn x))) (close_conns cs))"

definition tcpsconn_delete :: "tcpsconn \<Rightarrow> (nat \<rightharpoonup> connection) \<Rightarrow> (nat \<rightharpoonup> connection) res" where
  "tcpsconn_delete t hp = close_conns (ts_conns t) hp"

text \<open>\<open>rpcs::~rpcs\<close>: the listener first, then the dispatch pool (its shutdown runs the queued jobs: \<open>drain\<close> is their effect),
  then the recorded replies.\<close>

definition rpcs_delete ::
  "tcpsconn \<Rightarrow> ('s world \<Rightarrow> 's world res) \<Rightarrow> 's world \<Rightarrow> 's world res" where
  "rpcs_delete t drain w =
     bindE (tcpsconn_delete t (heap w)) (\<lambda>hp.
     bindE (drain (w\<lparr>heap := hp\<rparr>)) (\<lambda>w.
       Inr (w\<lparr>srv := (srv w)\<lparr>sv_reply_window := free_reply_window (sv_reply_window (srv w))\<rparr>\<rparr>)))"

section \<open>What the listener keeps\<close>

text \<open>Different descriptors have different objects; the listener holds a reference to each. A dead connection has no
  packet being written once only the listener refers to it.\<close>

definition collectable :: "(nat \<rightharpoonup> connection) \<Rightarrow> nat \<Rightarrow> bool" where
  "collectable hp c \<longleftrightarrow> (case hp c of None \<Rightarrow> False | Some x \<Rightarrow> c_dead x \<and> c_refno x = 1)"

definition held :: "(nat \<rightharpoonup> connection) \<Rightarrow> nat \<Rightarrow> bool" where
  "held hp c \<longleftrightarrow> (case hp c of
     None \<Rightarrow> False
   | Some x \<Rightarrow> 1 \<le> c_refno x \<and> (c_refno x = 1 \<longrightarrow> cb_buf (c_wpdu x) = None))"

definition conns_ok :: "(int \<times> nat) list \<Rightarrow> (nat \<rightharpoonup> connection) \<Rightarrow> bool" where
  "conns_ok cs hp \<longleftrightarrow> sorted_wrt (<) (map fst cs) \<and> distinct (map snd cs) \<and> (\<forall>c \<in> snd ` set cs. held hp c)"

lemma conns_ok_Cons: "conns_ok ((k, c) # cs) hp \<longleftrightarrow>
    (\<forall>x \<in> fst ` set cs. k < x) \<and> c \<notin> snd ` set cs \<and> held hp c \<and> conns_ok cs hp"
  by (auto simp: conns_ok_def)

lemma conns_ok_cong:
  assumes "conns_ok cs hp" "\<And>c. c \<in> snd ` set cs \<Longrightarrow> hp' c = hp c"
  shows "conns_ok cs hp'"
  using assms by (auto simp: conns_ok_def held_def)

lemma decref_collectable:
  assumes "held hp c" "collectable hp c"
  shows "obj_decref c hp = Inr (hp(c := None))"
  using assms by (auto simp: held_def collectable_def obj_decref_def decref_def connection_delete_def split: option.splits)

text \<open>Exactly the collectable connections go, from the list and from the heap.\<close>

lemma collect_ok:
  assumes "conns_ok cs hp"
  shows "collect cs hp = Inr (filter (\<lambda>(k, c). \<not> collectable hp c) cs,
    \<lambda>c. if c \<in> snd ` set cs \<and> collectable hp c then None else hp c)"
  using assms
proof (induction cs arbitrary: hp)
  case (Cons p cs)
  obtain k c where p: "p = (k, c)" by (cases p)
  with Cons.prems have c: "held hp c" "c \<notin> snd ` set cs" "conns_ok cs hp"
    by (simp_all add: conns_ok_Cons)
  from c(1) obtain x where x: "hp c = Some x" by (auto simp: held_def split: option.splits)
  have xc: "(c_dead x \<and> c_refno x = 1) = collectable hp c" by (simp add: x collectable_def)
  show ?case
  proof (cases "collectable hp c")
    case True
    define h where "h = hp(c := None)"
    have ok: "conns_ok cs h" by (rule conns_ok_cong [OF c(3)]) (use c(2) in \<open>auto simp: h_def\<close>)
    have same: "collectable h d = collectable hp d" if "d \<in> snd ` set cs" for d
      using that c(2) by (auto simp: collectable_def h_def)
    have "filter (\<lambda>(k, d). \<not> collectable h d) cs = filter (\<lambda>(k, d). \<not> collectable hp d) cs"
      by (rule filter_cong) (use same in force)+
    moreover have "(\<lambda>d. if d \<in> snd ` set cs \<and> collectable h d then None else h d) =
        (\<lambda>d. if d \<in> snd ` set (p # cs) \<and> collectable hp d then None else hp d)"
      using same True p by (intro ext) (auto simp: h_def)
    ultimately show ?thesis
      using Cons.IH [OF ok] True x p xc decref_collectable [OF c(1) True, folded h_def] by simp
  next
    case False
    then have "(\<lambda>d. if d \<in> snd ` set (p # cs) \<and> collectable hp d then None else hp d) =
        (\<lambda>d. if d \<in> snd ` set cs \<and> collectable hp d then None else hp d)"
      using p by (intro ext) auto
    with Cons.IH [OF c(3)] False x p xc show ?thesis by auto
  qed
qed simp

lemma conns_put_set: "k \<notin> fst ` set cs \<Longrightarrow> set (conns_put k c cs) = insert (k, c) (set cs)"
  by (induction k c cs rule: conns_put.induct) auto

lemma conns_put_ok:
  assumes "conns_ok cs hp" "k \<notin> fst ` set cs" "c \<notin> snd ` set cs" "held hp c"
  shows "conns_ok (conns_put k c cs) hp"
  using assms
  by (induction k c cs rule: conns_put.induct) (auto simp: conns_ok_Cons conns_put_set conns_ok_def [of "[]"])

lemma conns_ok_filter: "conns_ok cs hp \<Longrightarrow> conns_ok (filter P cs) hp"
  by (auto simp: conns_ok_def sorted_wrt_map sorted_wrt_filter intro: distinct_map_filter)

text \<open>\<open>process_accept\<close> on a new descriptor and a fresh object.\<close>

lemma process_accept_eq:
  assumes "conns_ok (ts_conns t) hp" "0 \<le> s1" "hp c = None"
  shows "process_accept s1 c sec usec t hp =
    Inr (Some (t\<lparr>ts_conns := conns_put s1 c (filter (\<lambda>(k, d). \<not> collectable hp d) (ts_conns t))\<rparr>,
      (\<lambda>d. if d \<in> snd ` set (ts_conns t) \<and> collectable hp d then None else hp d)
        (c \<mapsto> connection_new sec usec (ts_lossy t))))"
proof -
  define h where "h = hp(c \<mapsto> connection_new sec usec (ts_lossy t))"
  have c: "c \<notin> snd ` set (ts_conns t)"
    using assms(1,3) by (auto simp: conns_ok_def held_def)
  have ok: "conns_ok (ts_conns t) h"
    by (rule conns_ok_cong [OF assms(1)]) (use c in \<open>auto simp: h_def\<close>)
  have same: "collectable h d = collectable hp d" if "d \<in> snd ` set (ts_conns t)" for d
    using that c by (auto simp: collectable_def h_def)
  have "filter (\<lambda>(k, d). \<not> collectable h d) (ts_conns t) = filter (\<lambda>(k, d). \<not> collectable hp d) (ts_conns t)"
    by (rule filter_cong) (use same in force)+
  moreover have "(\<lambda>d. if d \<in> snd ` set (ts_conns t) \<and> collectable h d then None else h d) =
      (\<lambda>d. if d \<in> snd ` set (ts_conns t) \<and> collectable hp d then None else hp d)
        (c \<mapsto> connection_new sec usec (ts_lossy t))"
    using same c by (intro ext) (auto simp: h_def)
  ultimately show ?thesis
    using assms(2) collect_ok [OF ok] by (simp add: process_accept_def Let_def flip: h_def)
qed

lemma process_accept_ok:
  assumes "conns_ok (ts_conns t) hp" "s1 \<notin> fst ` set (ts_conns t)" "hp c = None"
  shows "conns_ok (conns_put s1 c (filter (\<lambda>(k, d). \<not> collectable hp d) (ts_conns t)))
    ((\<lambda>d. if d \<in> snd ` set (ts_conns t) \<and> collectable hp d then None else hp d)
        (c \<mapsto> connection_new sec usec lossy))"
    (is "conns_ok (conns_put s1 c ?cs) ?hp")
proof (rule conns_put_ok)
  have c: "c \<notin> snd ` set (ts_conns t)"
    using assms(1,3) by (auto simp: conns_ok_def held_def)
  show "conns_ok ?cs ?hp"
    by (rule conns_ok_cong [OF conns_ok_filter [OF assms(1)]]) (use c in auto)
  show "s1 \<notin> fst ` set ?cs" "c \<notin> snd ` set ?cs" using assms(2) c by auto
  show "held ?hp c" by (simp add: held_def connection_new_def charbuf_empty_def)
qed

text \<open>Descriptors and objects of accepted connections are new: the kernel hands out no open descriptor, and the descriptor
  of a connection is closed only when its object is deleted.\<close>

fun accepts_new :: "accept_event list \<Rightarrow> tcpsconn \<Rightarrow> (nat \<rightharpoonup> connection) \<Rightarrow> bool" where
  "accepts_new (AcConn s1 c sec usec # es) t hp \<longleftrightarrow>
     s1 \<notin> fst ` set (ts_conns t) \<and> hp c = None \<and>
     (case process_accept s1 c sec usec t hp of
        Inr (Some (t', hp')) \<Rightarrow> accepts_new es t' hp' | _ \<Rightarrow> True)"
| "accepts_new (AcIntr # es) t hp \<longleftrightarrow> accepts_new es t hp"
| "accepts_new (e # es) t hp \<longleftrightarrow> True"
| "accepts_new [] t hp \<longleftrightarrow> True"

lemma accept_conn_ok:
  assumes "conns_ok (ts_conns t) hp" "accepts_new es t hp" "accept_conn es t hp = Inr (ended, t', hp')"
  shows "conns_ok (ts_conns t') hp'"
  using assms
proof (induction es arbitrary: t hp)
  case (Cons e es)
  show ?case
  proof (cases e)
    case (AcConn s1 c sec usec)
    show ?thesis
    proof (cases "s1 < 0")
      case True
      with AcConn Cons.prems show ?thesis by (simp add: process_accept_def)
    next
      case False
      then have "0 \<le> s1" by simp
      have "s1 \<notin> fst ` set (ts_conns t)" "hp c = None" using AcConn Cons.prems(2) by simp_all
      with process_accept_eq [OF Cons.prems(1) \<open>0 \<le> s1\<close>] process_accept_ok [OF Cons.prems(1)]
      obtain t1 hp1 where "process_accept s1 c sec usec t hp = Inr (Some (t1, hp1))" "conns_ok (ts_conns t1) hp1"
        by simp
      with AcConn Cons.prems(2,3) Cons.IH [of t1 hp1] show ?thesis by simp
    qed
  qed (use Cons in auto)
qed simp

text \<open>Closing: an object only the listener refers to is deleted; the others are dead and lose one reference.\<close>

definition released :: "connection \<Rightarrow> connection option" where
  "released x = (if c_refno x = 1 then None else Some ((closeconn x)\<lparr>c_refno := c_refno x - 1\<rparr>))"

lemma close_conns_ok:
  assumes "conns_ok cs hp"
  shows "close_conns cs hp = Inr (\<lambda>c. if c \<in> snd ` set cs then Option.bind (hp c) released else hp c)"
  using assms
proof (induction cs arbitrary: hp)
  case (Cons p cs)
  obtain k c where p: "p = (k, c)" by (cases p)
  with Cons.prems have c: "held hp c" "c \<notin> snd ` set cs" "conns_ok cs hp"
    by (simp_all add: conns_ok_Cons)
  from c(1) obtain x where x: "hp c = Some x" "1 \<le> c_refno x" "c_refno x = 1 \<longrightarrow> cb_buf (c_wpdu x) = None"
    by (auto simp: held_def split: option.splits)
  define h where "h = hp(c := released x)"
  have dec: "obj_decref c (hp(c \<mapsto> closeconn x)) = Inr h"
    using x by (auto simp: obj_decref_def decref_def connection_delete_def closeconn_def released_def h_def)
  have ok: "conns_ok cs h"
    by (rule conns_ok_cong [OF c(3)]) (use c(2) in \<open>auto simp: h_def\<close>)
  have "(\<lambda>d. if d \<in> snd ` set cs then Option.bind (h d) released else h d) =
      (\<lambda>d. if d \<in> snd ` set (p # cs) then Option.bind (hp d) released else hp d)"
    using x(1) c(2) p by (intro ext) (auto simp: h_def)
  with Cons.IH [OF ok] dec x(1) p show ?case by simp
qed simp

section \<open>Property\<close>



end
