(* ===== verification/Rpc_Call.thy ===== *)
theory Rpc_Call
  imports Rpc_Client Extent_Rpc
begin

text \<open>
  A whole remote call: \<open>rpcc::call1\<close> and \<open>rpcc::bind\<close> (\<open>rpc/rpc.cc\<close>) and the \<open>call\<close> templates (\<open>rpc/rpc.h\<close>) composed with the
  server they talk to, on a connection that works. The request goes through \<open>connection\<close>, \<open>rpcs::got_pdu\<close> and \<open>dispatch\<close>;
  the replies come back through \<open>connection\<close> and \<open>rpcc::got_pdu\<close>. \<open>linked\<close> is what holds between two calls, and
  \<open>call_is_method\<close> says that a remote call is the call of the registered method.
\<close>

section \<open>A call over a working connection\<close>

text \<open>A packet as it leaves a connection at the other end: \<open>send\<close> writes the size over the first four bytes.\<close>

definition wire :: "byte list \<Rightarrow> byte list" where
  "wire pkt = be32 (of_nat (length pkt)) @ drop 4 pkt"

text \<open>A packet arrives at the server on connection \<open>c\<close>, and a worker of the pool runs the job that it becomes.\<close>

definition deliver :: "(nat \<Rightarrow> byte) \<Rightarrow> nat \<Rightarrow> byte list \<Rightarrow> 's world \<Rightarrow> 's world res" where
  "deliver mem c pkt w =
     bindE (rpcs_got_pdu c True (sv_reachable (srv w)) w) (\<lambda>(_, fate, w).
       if fate = Queued then dispatch mem c ((!) (wire pkt)) (int (length (wire pkt))) w else Inr w)"

fun deliver_all :: "(nat \<Rightarrow> byte) \<Rightarrow> nat \<Rightarrow> byte list list \<Rightarrow> 's world \<Rightarrow> 's world res" where
  "deliver_all mem c [] w = Inr w"
| "deliver_all mem c (p # ps) w = bindE (deliver mem c p w) (deliver_all mem c ps)"

fun receive_all :: "byte list list \<Rightarrow> rpcc \<Rightarrow> rpcc res" where
  "receive_all [] cl = Inr cl"
| "receive_all (p # ps) cl = bindE (rpcc_got_pdu ((!) (wire p)) (int (length (wire p))) cl) (receive_all ps)"

text \<open>What the server has sent on \<open>c\<close> between two of its states.\<close>

definition sent_on :: "nat \<Rightarrow> 's world \<Rightarrow> 's world \<Rightarrow> byte list list" where
  "sent_on c w w' = map snd (filter (\<lambda>(d, p). d = c) (drop (length (out w)) (out w')))"

text \<open>\<open>call1\<close>: the result is the return value, the reader \<open>rep\<close> and both ends afterwards.\<close>

definition call1 ::
  "(nat \<Rightarrow> byte) \<Rightarrow> int \<Rightarrow> nat \<Rightarrow> u32 \<Rightarrow> marshall \<Rightarrow> rpcc \<Rightarrow> 's world \<Rightarrow> (int \<times> unmarshall \<times> rpcc \<times> 's world) res" where
  "call1 mem i0 c proc req cl w =
     bindE (call1_begin i0 proc req cl) (\<lambda>r.
       case r of
         Inl e \<Rightarrow> Inr (e, unmarshall_empty, cl, w)
       | Inr (xid, xid_rep, req', cl1) \<Rightarrow>
           (case call1_transmit (packet req') True cl1 of
              (pkts, cl2) \<Rightarrow>
                bindE (deliver_all mem c pkts w) (\<lambda>w'.
                bindE (receive_all (sent_on c w w') cl2) (\<lambda>cl3.
                  case call1_end xid cl3 of
                    None \<Rightarrow> Inl NullDeref
                  | Some (ca, cl4) \<Rightarrow>
                      Inr (call1_result ca, ca_un ca, call1_dup ca (packet req') xid_rep cl4, w')))))"

text \<open>\<open>call1\<close> when no connection to the server can be made: every wait ends at its deadline.\<close>

definition call1_unreachable :: "int \<Rightarrow> u32 \<Rightarrow> marshall \<Rightarrow> rpcc \<Rightarrow> (int \<times> unmarshall \<times> rpcc) res" where
  "call1_unreachable i0 proc req cl =
     bindE (call1_begin i0 proc req cl) (\<lambda>r.
       case r of
         Inl e \<Rightarrow> Inr (e, unmarshall_empty, cl)
       | Inr (xid, xid_rep, req', cl1) \<Rightarrow>
           (case call1_transmit (packet req') False cl1 of
              (_, cl2) \<Rightarrow>
                (case call1_end xid cl2 of
                   None \<Rightarrow> Inl NullDeref
                 | Some (ca, cl3) \<Rightarrow> Inr (call1_result ca, ca_un ca, call1_dup ca (packet req') xid_rep cl3))))"

text \<open>The \<open>call\<close> templates: \<open>args\<close> is the marshalled argument list.\<close>

definition call ::
  "(unmarshall \<Rightarrow> ('r \<times> unmarshall) res) \<Rightarrow> 'r \<Rightarrow> (nat \<Rightarrow> byte) \<Rightarrow> int \<Rightarrow> nat \<Rightarrow> u32 \<Rightarrow> marshall res \<Rightarrow> rpcc \<Rightarrow> 's world \<Rightarrow>
     (int \<times> 'r \<times> rpcc \<times> 's world) res" where
  "call get r0 mem i0 c proc args cl w =
     bindE args (\<lambda>req.
     bindE (call1 mem i0 c proc req cl w) (\<lambda>(intret, u, cl, w).
     bindE (call_m_finish get r0 intret u) (\<lambda>(intret, r). Inr (intret, r, cl, w))))"

text \<open>\<open>bind\<close>; \<open>r0\<close> is the uninitialised \<open>r\<close>.\<close>

definition rpcc_bind :: "u32 \<Rightarrow> (nat \<Rightarrow> byte) \<Rightarrow> int \<Rightarrow> nat \<Rightarrow> rpcc \<Rightarrow> 's world \<Rightarrow> (int \<times> rpcc \<times> 's world) res" where
  "rpcc_bind r0 mem i0 c cl w =
     bindE (call get_u32 r0 mem i0 c RPC_BIND (call_args1 put_u32 mem 0) cl w) (\<lambda>(ret, r, cl, w).
       case rpcc_bind_finish ret r cl of (ret, cl) \<Rightarrow> Inr (ret, cl, w))"

definition rpcc_bind_unreachable :: "u32 \<Rightarrow> (nat \<Rightarrow> byte) \<Rightarrow> int \<Rightarrow> rpcc \<Rightarrow> (int \<times> rpcc) res" where
  "rpcc_bind_unreachable r0 mem i0 cl =
     bindE (call_args1 put_u32 mem 0) (\<lambda>req.
     bindE (call1_unreachable i0 RPC_BIND req cl) (\<lambda>(intret, u, cl).
     bindE (call_m_finish get_u32 r0 intret u) (\<lambda>(ret, r). Inr (rpcc_bind_finish ret r cl))))"

section \<open>Packets on the wire\<close>

lemma wire_carries:
  assumes "carries b sz ws body" "p = map b [0..<nat sz]"
  shows "carries ((!) (wire p)) (int (length (wire p))) ws body"
proof -
  have sz: "0 \<le> sz" using assms(1) by (simp add: carries_def rpc_sizes)
  have "wire p = be32 (of_nat (nat sz)) @ drop 4 (map b [0..<nat sz])"
    by (simp add: wire_def assms(2))
  note w = carries_framed [OF assms(1) this]
  then have "int (length (wire p)) = sz" using sz by simp
  with w(1) show ?thesis by simp
qed

lemma wire_request:
  "carries_request b sz h args \<Longrightarrow> p = map b [0..<nat sz] \<Longrightarrow>
    carries_request ((!) (wire p)) (int (length (wire p))) h args"
  unfolding carries_request_def by (rule wire_carries)

lemma wire_reply:
  assumes "carries_reply ((!) p) (int (length p)) h res"
  shows "carries_reply ((!) (wire p)) (int (length (wire p))) h res"
proof -
  have "p = map ((!) p) [0..<nat (int (length p))]" by (simp add: map_nth)
  with assms show ?thesis unfolding carries_reply_def by (rule wire_carries)
qed

section \<open>What a call leaves alone\<close>

definition same_client :: "rpcc \<Rightarrow> rpcc \<Rightarrow> bool" where
  "same_client cl cl' \<longleftrightarrow>
     cl_clt_nonce cl' = cl_clt_nonce cl \<and> cl_srv_nonce cl' = cl_srv_nonce cl \<and> cl_bind_done cl' = cl_bind_done cl \<and>
     cl_lossytest cl' = cl_lossytest cl \<and> cl_retrans cl' = cl_retrans cl \<and> cl_reachable cl' = cl_reachable cl \<and>
     cl_destroy_wait cl' = cl_destroy_wait cl \<and> cl_dup_req cl' = cl_dup_req cl \<and> cl_xid_rep_done cl' = cl_xid_rep_done cl"

lemma same_client_trans: "same_client a b \<Longrightarrow> same_client b c \<Longrightarrow> same_client a c"
  by (simp add: same_client_def)

lemma begin_same: "call1_begin i0 proc req cl = Inr (Inr (xid, rep, req', cl')) \<Longrightarrow> same_client cl cl'"
  by (auto simp: call1_begin_def same_client_def fault_simps Let_def split: if_splits)

lemma got_pdu_same: "rpcc_got_pdu b sz cl = Inr cl' \<Longrightarrow> same_client cl cl'"
  by (auto simp: rpcc_got_pdu_def same_client_def fault_simps Let_def split: if_splits option.splits prod.splits)

lemma end_same: "call1_end xid cl = Some (ca, cl') \<Longrightarrow> same_client cl cl'"
  by (auto simp: call1_end_def same_client_def split: option.splits)

section \<open>Between two calls\<close>

text \<open>\<open>A\<close>: requests the server has admitted; \<open>R\<close>: calls of this client that are over. The server has seen only earlier calls
  of this client, and the two share a connection that the listener holds.\<close>

definition linked :: "(u32 \<times> u32) set \<Rightarrow> u32 set \<Rightarrow> nat \<Rightarrow> rpcc \<Rightarrow> 's world \<Rightarrow> bool" where
  "linked A R c cl w \<longleftrightarrow>
     client_inv R cl \<and> cl_calls cl = Map.empty \<and> \<not> cl_destroy_wait cl \<and> cl_reachable cl \<and> cl_lossytest cl = 0 \<and> \<not> request_valid (cl_dup_req cl) \<and>
     cl_clt_nonce cl \<noteq> 0 \<and> win_inv A (sv_reply_window (srv w)) \<and> (\<forall>x. (cl_clt_nonce cl, x) \<in> A \<longrightarrow> x < cl_xid cl) \<and>
     sv_reachable (srv w) \<and> conn_live w (cl_clt_nonce cl) c 1"

definition bound :: "rpcc \<Rightarrow> 's world \<Rightarrow> bool" where
  "bound cl w \<longleftrightarrow> cl_bind_done cl \<and> cl_srv_nonce cl = sv_nonce (srv w)"

lemma later_call_new:
  assumes win: "win_inv A win" and old: "\<forall>x. (nonce, x) \<in> A \<longrightarrow> x < xid"
  obtains win' where "checkduplicate_and_update win nonce xid rep = (NEW, win')"
proof -
  let ?l = "window_of win nonce"
  have inv: "list_inv {x. (nonce, x) \<in> A} ?l" using win by (simp add: win_inv_def)
  have "xid \<notin> {x. (nonce, x) \<in> A}" using old by auto
  moreover have "?l = [] \<or> r_xid (hd ?l) \<le> xid"
    using inv old by (cases ?l) (auto simp: list_inv_def intro: order.strict_implies_order)
  ultimately have "fst (check_list xid rep ?l) = NEW" using check_fresh [OF inv] by blast
  then obtain l where "check_list xid rep ?l = (NEW, l)" by (cases "check_list xid rep ?l") simp
  then show ?thesis by (intro that [of "win(nonce \<mapsto> l)"]) (simp add: checkduplicate_and_update_def)
qed

lemma deliver_dispatch:
  assumes "heap w c = Some k" "sv_reachable (srv w)"
  shows "deliver mem c p w = dispatch mem c ((!) (wire p)) (int (length (wire p))) (w\<lparr>heap := (heap w)(c \<mapsto> incref k)\<rparr>)"
  using assms by (simp add: deliver_def rpcs_got_pdu_def conn_incref_def deref_def)

text \<open>The server's part of a call.\<close>

lemma deliver_ok:
  assumes link: "linked A R c cl w" and req: "carries_request b sz h args" "p = map b [0..<nat sz]"
    and h: "rq_xid h = cl_xid cl" "rq_clt_nonce h = cl_clt_nonce cl" "rq_xid_rep h \<le> rq_xid h"
      "rq_srv_nonce h = 0 \<or> rq_srv_nonce h = sv_nonce (srv w)"
    and f: "sv_procs (srv w) (rq_proc h) = Some f" "handler_gives f args (app w) ret res s'" "0 \<le> ret"
  obtains w' pkt where "deliver mem c p w = Inr w'" "app w' = s'" "sent_on c w w' = [pkt]"
    "carries_reply ((!) (wire pkt)) (int (length (wire pkt))) \<lparr>rp_xid = cl_xid cl, rp_ret = word_of_int ret\<rparr> res"
    "sv_nonce (srv w') = sv_nonce (srv w)" "sv_procs (srv w') = sv_procs (srv w)" "sv_reachable (srv w')"
    "win_inv (insert (cl_clt_nonce cl, cl_xid cl) A) (sv_reply_window (srv w'))" "conn_live w' (cl_clt_nonce cl) c 1"
    "conn_only (cl_clt_nonce cl) c w w'"
proof -
  have link': "win_inv A (sv_reply_window (srv w))" "sv_reachable (srv w)" "conn_live w (cl_clt_nonce cl) c 1"
    "cl_clt_nonce cl \<noteq> 0"
    using link by (simp_all add: linked_def)
  then obtain k where k: "heap w c = Some k" by (auto simp: conn_live_def split: option.splits)
  define w1 where "w1 = w\<lparr>heap := (heap w)(c \<mapsto> incref k)\<rparr>"
  note got = deliver_dispatch [OF k link'(2), folded w1_def]
  have live: "conn_live w1 (rq_clt_nonce h) c (1 + 1)"
    using link'(3) k by (auto simp: conn_live_def w1_def incref_def h(2))
  have sv: "servable w1 h f" using f(1) h link'(4) by (simp add: servable_def w1_def)
  obtain win where chk: "checkduplicate_and_update (sv_reply_window (srv w)) (cl_clt_nonce cl) (cl_xid cl) (rq_xid_rep h) = (NEW, win)"
    by (rule later_call_new [of A "sv_reply_window (srv w)" "cl_clt_nonce cl" "cl_xid cl" "rq_xid_rep h"]) (use link that in \<open>simp_all add: linked_def\<close>)
  have chk1: "checkduplicate_and_update (sv_reply_window (srv w1)) (rq_clt_nonce h) (rq_xid h) (rq_xid_rep h) = (NEW, win)"
    using chk h by (simp add: w1_def)
  have f1: "handler_gives f args (app w1) ret res s'" using f(2) by (simp add: w1_def)
  have ready: "conn_ready w1 (rq_clt_nonce h) c" using conn_live_ready [OF live] by simp
  obtain w' pkt where d: "dispatch mem c ((!) (wire p)) (int (length (wire p))) w1 = Inr w'" "app w' = s'"
    "out w' = out w1 @ [(c, pkt)]"
    "carries_reply ((!) pkt) (int (length pkt)) \<lparr>rp_xid = rq_xid h, rp_ret = word_of_int ret\<rparr> res"
    "same_server w1 w' (add_reply win (rq_clt_nonce h) (rq_xid h) pkt)"
    "\<And>n. conn_live w1 (rq_clt_nonce h) c (n + 1) \<Longrightarrow> conn_live w' (rq_clt_nonce h) c n \<and> conn_only (rq_clt_nonce h) c w1 w'"
    by (rule dispatch_new [OF wire_request [OF req] sv ready chk1 f1 f(3), of mem]) (rule that)
  have inv: "win_inv (insert (cl_clt_nonce cl, cl_xid cl) A) (sv_reply_window (srv w'))"
    using rw.admit_new [OF link'(1) chk] h(1-3) d(5) by (auto simp: same_server_def intro: rw.keep_answer)
  show ?thesis
  proof (rule that [of w' pkt])
    show "deliver mem c p w = Inr w'" using d(1) by (simp add: got)
    show "sent_on c w w' = [pkt]" using d(3) by (simp add: sent_on_def w1_def)
    show "carries_reply ((!) (wire pkt)) (int (length (wire pkt))) \<lparr>rp_xid = cl_xid cl, rp_ret = word_of_int ret\<rparr> res"
      using wire_reply [OF d(4)] by (simp add: h(1))
    show "conn_live w' (cl_clt_nonce cl) c 1" using d(6) [OF live] by (simp add: h(2))
    show "conn_only (cl_clt_nonce cl) c w w'" using d(6) [OF live] by (simp add: h(2) conn_only_def w1_def)
  qed (use d(2,5) inv link'(2) in \<open>simp_all add: same_server_def w1_def\<close>)
qed

text \<open>The client's part: a call that gets its reply.\<close>

lemma sint_ret: "- (2 ^ 31) \<le> ret \<Longrightarrow> ret < 2 ^ 31 \<Longrightarrow> sint (word_of_int ret :: u32) = ret"
  by (simp add: signed_take_bit_int_eq_self sint_sbintrunc')

lemma reply_finishes:
  assumes inv: "client_inv R cl" and calls: "cl_calls cl = [xid \<mapsto> ca0]" "\<not> ca_done ca0" "xid < cl_xid cl"
    and rep: "carries_reply b sz \<lparr>rp_xid = xid, rp_ret = word_of_int ret\<rparr> res" and ret: "- (2 ^ 31) \<le> ret" "ret < 2 ^ 31"
  obtains cl2 ca cl3 where "rpcc_got_pdu b sz cl = Inr cl2" "cl_calls cl2 xid = Some ca" "ca_done ca" "call1_result ca = ret"
    "call1_end xid cl2 = Some (ca, cl3)" "u_inv (ca_un ca)" "u_ok (ca_un ca)" "u_rest (ca_un ca) = res"
    "client_inv (insert xid R) cl3" "cl_calls cl3 = Map.empty" "same_client cl cl3" "cl_xid cl3 = cl_xid cl" "ca_xid ca = xid"
proof -
  have lt: "rp_xid \<lparr>rp_xid = xid, rp_ret = word_of_int ret\<rparr> < cl_xid cl" using calls(3) by simp
  obtain cl2 ca where g: "rpcc_got_pdu b sz cl = Inr cl2" "client_inv (insert xid R) cl2" "cl_xid cl2 = cl_xid cl"
    "\<And>x. x \<noteq> xid \<Longrightarrow> cl_calls cl2 x = None" "cl_calls cl2 xid = Some ca" "ca_done ca" "ca_intret ca = ret"
    "u_inv (ca_un ca)" "u_ok (ca_un ca)" "u_rest (ca_un ca) = res"
    by (rule got_pdu_ok [OF inv rep lt]) (use calls sint_ret [OF ret] that in fastforce)
  obtain cl3 where e: "call1_end xid cl2 = Some (ca, cl3)" using g(5) by (simp add: call1_end_def)
  have "same_client cl cl3" using same_client_trans [OF got_pdu_same [OF g(1)] end_same [OF e]] .
  moreover have "cl_xid cl3 = cl_xid cl" "cl_calls cl3 = Map.empty" using e g(3-5) by (auto simp: call1_end_def)
  moreover have "client_inv (insert xid R) cl3" using call1_end_ok(1) [OF g(2) e] by simp
  moreover have "call1_result ca = ret" using g(6,7) by (simp add: call1_result_def)
  moreover have "ca_xid ca = xid" using g(2,5) by (simp add: client_inv_def)
  ultimately show ?thesis using g e by (intro that [of cl2 ca cl3]) simp_all
qed

text \<open>\<open>Q\<close> is what is known of the server after it has answered the packet.\<close>

lemma call1_answered:
  assumes link: "linked A R c cl w" and m: "m_inv req" "m_ind req < 2 ^ 31" and xid: "cl_xid cl + 1 \<noteq> 0"
    and bnd: "proc = RPC_BIND \<longleftrightarrow> \<not> cl_bind_done cl" and ret: "- (2 ^ 31) \<le> ret" "ret < 2 ^ 31"
    and answer: "\<And>b sz p. \<lbrakk>carries_request b sz \<lparr>rq_xid = cl_xid cl, rq_proc = proc, rq_clt_nonce = cl_clt_nonce cl,
        rq_srv_nonce = cl_srv_nonce cl, rq_xid_rep = hd (cl_window cl)\<rparr> (get_content req); p = map b [0..<nat sz];
        hd (cl_window cl) < cl_xid cl\<rbrakk> \<Longrightarrow>
      \<exists>w' pkt. deliver mem c p w = Inr w' \<and> sent_on c w w' = [pkt] \<and> Q w' \<and>
        carries_reply ((!) (wire pkt)) (int (length (wire pkt))) \<lparr>rp_xid = cl_xid cl, rp_ret = word_of_int ret\<rparr> res"
  obtains u cl' w' where "call1 mem i0 c proc req cl w = Inr (ret, u, cl', w')" "Q w'"
    "u_inv u" "u_ok u" "u_rest u = res" "client_inv (insert (cl_xid cl) R) cl'" "cl_calls cl' = Map.empty"
    "same_client cl cl'" "cl_xid cl' = cl_xid cl + 1"
proof -
  have link': "client_inv R cl" "\<not> cl_destroy_wait cl" "cl_reachable cl" "\<not> request_valid (cl_dup_req cl)" "cl_lossytest cl = 0"
    "cl_calls cl = Map.empty"
    using link by (simp_all add: linked_def)
  obtain req' cl1 b where c1: "call1_begin i0 proc req cl = Inr (Inr (cl_xid cl, hd (cl_window cl), req', cl1))"
    "m_buf req' = Some b" "m_ind req' = m_ind req"
    "carries_request b (m_ind req') \<lparr>rq_xid = cl_xid cl, rq_proc = proc, rq_clt_nonce = cl_clt_nonce cl,
        rq_srv_nonce = cl_srv_nonce cl, rq_xid_rep = hd (cl_window cl)\<rparr> (get_content req)"
    "hd (cl_window cl) < cl_xid cl" "client_inv R cl1" "cl_xid cl1 = cl_xid cl + 1" "cl_clt_nonce cl1 = cl_clt_nonce cl"
    "cl_calls cl (cl_xid cl) = None"
    "cl_calls cl1 = (cl_calls cl)(cl_xid cl \<mapsto>
       \<lparr>ca_xid = cl_xid cl, ca_un = unmarshall_empty, ca_intret = i0, ca_done = False\<rparr>)"
    by (rule call1_begin_ok [OF link'(1) m xid bnd link'(2), of i0]) (rule that)
  note same1 = begin_same [OF c1(1)]
  have tr: "call1_transmit (packet req') True cl1 = ([packet req'], cl1)"
    using same1 link'(3,4) by (simp add: call1_transmit_def same_client_def)
  have p: "packet req' = map b [0..<nat (m_ind req')]" using c1(2) by (simp add: packet_def)
  obtain w' pkt where d: "deliver mem c (packet req') w = Inr w'" "sent_on c w w' = [pkt]" "Q w'"
    "carries_reply ((!) (wire pkt)) (int (length (wire pkt))) \<lparr>rp_xid = cl_xid cl, rp_ret = word_of_int ret\<rparr> res"
    using answer [OF c1(4) p c1(5)] by blast
  have calls: "cl_calls cl1 = [cl_xid cl \<mapsto> \<lparr>ca_xid = cl_xid cl, ca_un = unmarshall_empty, ca_intret = i0, ca_done = False\<rparr>]"
    "cl_xid cl < cl_xid cl1"
    using c1(7,10) link'(6) next_xid [OF xid] by simp_all
  obtain cl2 ca cl3 where g: "rpcc_got_pdu ((!) (wire pkt)) (int (length (wire pkt))) cl1 = Inr cl2"
    "call1_result ca = ret" "call1_end (cl_xid cl) cl2 = Some (ca, cl3)" "u_inv (ca_un ca)" "u_ok (ca_un ca)" "u_rest (ca_un ca) = res"
    "client_inv (insert (cl_xid cl) R) cl3" "cl_calls cl3 = Map.empty" "same_client cl1 cl3" "cl_xid cl3 = cl_xid cl1"
    by (rule reply_finishes [OF c1(6) calls(1) _ calls(2) d(4) ret]) (simp, rule that)
  have same: "same_client cl cl3" using same_client_trans [OF same1 g(9)] .
  then have "call1_dup ca (packet req') (hd (cl_window cl)) cl3 = cl3"
    using link'(5) by (simp add: call1_dup_def same_client_def)
  then have "call1 mem i0 c proc req cl w = Inr (ret, ca_un ca, cl3, w')"
    using c1(1) tr d(1,2) g(1-3) by (simp add: call1_def)
  then show ?thesis by (rule that) (use d(3) g(4-8,10) same c1(7) in simp_all)
qed

lemma linked_next:
  assumes "linked A R c cl w" "cl_xid cl + 1 \<noteq> 0" "client_inv (insert (cl_xid cl) R) cl'" "cl_calls cl' = Map.empty"
    "same_client cl cl'" "cl_xid cl' = cl_xid cl + 1" "win_inv A' (sv_reply_window (srv w'))" "A' \<subseteq> insert (cl_clt_nonce cl, cl_xid cl) A"
    "sv_reachable (srv w')" "conn_live w' (cl_clt_nonce cl) c 1"
  shows "linked A' (insert (cl_xid cl) R) c cl' w'"
proof -
  have "x < cl_xid cl + 1" if "x < cl_xid cl \<or> x = cl_xid cl" for x
    using that next_xid [OF assms(2)] by auto
  with assms(8) have "\<forall>x. (cl_clt_nonce cl, x) \<in> A' \<longrightarrow> x < cl_xid cl + 1" using assms(1) by (auto simp: linked_def)
  with assms show ?thesis by (auto simp: linked_def same_client_def)
qed

text \<open>A call of one client and the other clients of the server.\<close>

lemma linked_other:
  assumes "linked A R d cl2 w" "linked (insert (n, x) A) R' c cl1 w'" "conn_only n c w w'" "cl_clt_nonce cl2 \<noteq> n" "d \<noteq> c"
  shows "linked (insert (n, x) A) R d cl2 w'"
proof -
  have "conn_live w' (cl_clt_nonce cl2) d 1"
    using conn_live_other [OF assms(3) _ assms(4,5)] assms(1) by (simp add: linked_def)
  with assms show ?thesis by (auto simp: linked_def)
qed

lemma call1_ok:
  assumes link: "linked A R c cl w" and m: "m_inv req" "m_ind req < 2 ^ 31" and xid: "cl_xid cl + 1 \<noteq> 0"
    and bnd: "proc = RPC_BIND \<longleftrightarrow> \<not> cl_bind_done cl" "cl_srv_nonce cl = 0 \<or> cl_srv_nonce cl = sv_nonce (srv w)"
    and f: "sv_procs (srv w) proc = Some f" "handler_gives f (get_content req) (app w) ret res s'" "0 \<le> ret" "ret < 2 ^ 31"
  obtains u cl' w' where "call1 mem i0 c proc req cl w = Inr (ret, u, cl', w')"
    "u_inv u" "u_ok u" "u_rest u = res" "app w' = s'"
    "linked (insert (cl_clt_nonce cl, cl_xid cl) A) (insert (cl_xid cl) R) c cl' w'"
    "same_client cl cl'" "cl_xid cl' = cl_xid cl + 1"
    "sv_nonce (srv w') = sv_nonce (srv w)" "sv_procs (srv w') = sv_procs (srv w)" "conn_only (cl_clt_nonce cl) c w w'"
proof -
  let ?A = "insert (cl_clt_nonce cl, cl_xid cl) A"
  let ?Q = "\<lambda>w'. app w' = s' \<and> sv_nonce (srv w') = sv_nonce (srv w) \<and> sv_procs (srv w') = sv_procs (srv w) \<and>
    sv_reachable (srv w') \<and> win_inv ?A (sv_reply_window (srv w')) \<and> conn_live w' (cl_clt_nonce cl) c 1 \<and>
    conn_only (cl_clt_nonce cl) c w w'"
  have ret: "- (2 ^ 31) \<le> ret" using f(3) by simp
  have answer: "\<exists>w' pkt. deliver mem c p w = Inr w' \<and> sent_on c w w' = [pkt] \<and> ?Q w' \<and>
      carries_reply ((!) (wire pkt)) (int (length (wire pkt))) \<lparr>rp_xid = cl_xid cl, rp_ret = word_of_int ret\<rparr> res"
    if "carries_request b sz \<lparr>rq_xid = cl_xid cl, rq_proc = proc, rq_clt_nonce = cl_clt_nonce cl,
      rq_srv_nonce = cl_srv_nonce cl, rq_xid_rep = hd (cl_window cl)\<rparr> (get_content req)" "p = map b [0..<nat sz]"
      "hd (cl_window cl) < cl_xid cl" for b sz p
  proof -
    have le: "hd (cl_window cl) \<le> cl_xid cl" using that(3) by (rule order.strict_implies_order)
    note del = deliver_ok [OF link that(1,2), of f ret res s' mem]
    obtain w' pkt where "deliver mem c p w = Inr w'" "app w' = s'" "sent_on c w w' = [pkt]"
      "carries_reply ((!) (wire pkt)) (int (length (wire pkt))) \<lparr>rp_xid = cl_xid cl, rp_ret = word_of_int ret\<rparr> res"
      "sv_nonce (srv w') = sv_nonce (srv w)" "sv_procs (srv w') = sv_procs (srv w)" "sv_reachable (srv w')"
      "win_inv ?A (sv_reply_window (srv w'))" "conn_live w' (cl_clt_nonce cl) c 1" "conn_only (cl_clt_nonce cl) c w w'"
      by (rule del) (use bnd(2) f le that in simp_all)
    then show ?thesis by blast
  qed
  obtain u cl' w' where r: "call1 mem i0 c proc req cl w = Inr (ret, u, cl', w')" "?Q w'"
    "u_inv u" "u_ok u" "u_rest u = res" "client_inv (insert (cl_xid cl) R) cl'" "cl_calls cl' = Map.empty"
    "same_client cl cl'" "cl_xid cl' = cl_xid cl + 1"
    by (rule call1_answered [OF link m xid bnd(1) ret f(4), where Q = ?Q and mem = mem and res = res and ?i0.0 = i0])
       (erule (2) answer, rule that)
  have "linked ?A (insert (cl_xid cl) R) c cl' w'" by (rule linked_next [OF link xid r(6-9)]) (use r(2) in simp_all)
  with r show ?thesis by (intro that [of u cl' w']) simp_all
qed

text \<open>A typed call is the registered method.\<close>

lemma call_ok:
  assumes link: "linked A R c cl w" and args: "args = Inr req" "appended (marshall_new mem') req enc_args" "int (length enc_args) + RPC_HEADER_SZ < 2 ^ 31"
    and xid: "cl_xid cl + 1 \<noteq> 0"
    and bnd: "proc = RPC_BIND \<longleftrightarrow> \<not> cl_bind_done cl" "cl_srv_nonce cl = 0 \<or> cl_srv_nonce cl = sv_nonce (srv w)"
    and f: "sv_procs (srv w) proc = Some f" "handler_gives f enc_args (app w) ret (enc y) s'" "0 \<le> ret" "ret < 2 ^ 31"
    and r: "codec put get enc" "int (length (enc y)) \<le> MAX_MSG"
  obtains cl' w' where "call get r0 mem i0 c proc args cl w = Inr (ret, y, cl', w')" "app w' = s'"
    "linked (insert (cl_clt_nonce cl, cl_xid cl) A) (insert (cl_xid cl) R) c cl' w'"
    "same_client cl cl'" "cl_xid cl' = cl_xid cl + 1"
    "sv_nonce (srv w') = sv_nonce (srv w)" "sv_procs (srv w') = sv_procs (srv w)" "conn_only (cl_clt_nonce cl) c w w'"
proof -
  have m: "m_inv req" "m_ind req < 2 ^ 31" "get_content req = enc_args"
    using args(2,3) marshall_new_inv(2) [of mem'] by (auto simp: appended_def) (simp_all add: marshall_new_def)
  have f': "handler_gives f (get_content req) (app w) ret (enc y) s'" using f(2) m(3) by simp
  obtain u cl' w' where c: "call1 mem i0 c proc req cl w = Inr (ret, u, cl', w')"
    "u_inv u" "u_ok u" "u_rest u = enc y" "app w' = s'"
    "linked (insert (cl_clt_nonce cl, cl_xid cl) A) (insert (cl_xid cl) R) c cl' w'"
    "same_client cl cl'" "cl_xid cl' = cl_xid cl + 1"
    "sv_nonce (srv w') = sv_nonce (srv w)" "sv_procs (srv w') = sv_procs (srv w)" "conn_only (cl_clt_nonce cl) c w w'"
    by (rule call1_ok [OF link m(1,2) xid bnd f(1) f' f(3,4), of mem i0]) (rule that)
  have "call_m_finish get r0 ret u = Inr (ret, y)" by (rule call_m_finish_ok [OF r(1) f(3) c(2-4) r(2)])
  then have "call get r0 mem i0 c proc args cl w = Inr (ret, y, cl', w')"
    using c(1) args(1) by (simp add: call_def)
  then show ?thesis by (rule that [OF _ c(5-11)])
qed

section \<open>Typed calls\<close>

text \<open>Several arguments are written as a tuple, as they are read as one.\<close>

lemma call_args_pairs:
  "call_args2 pa pb mem a b = call_args1 (put_pair pa pb) mem (a, b)"
  "call_args3 pa pb pc mem a b c = call_args1 (put_pair pa (put_pair pb pc)) mem (a, b, c)"
  "call_args4 pa pb pc pd mem a b c d = call_args1 (put_pair pa (put_pair pb (put_pair pc pd))) mem (a, b, c, d)"
  "call_args5 pa pb pc pd pe mem a b c d e =
     call_args1 (put_pair pa (put_pair pb (put_pair pc (put_pair pd pe)))) mem (a, b, c, d, e)"
  "call_args6 pa pb pc pd pe pf mem a b c d e f =
     call_args1 (put_pair pa (put_pair pb (put_pair pc (put_pair pd (put_pair pe pf))))) mem (a, b, c, d, e, f)"
  "call_args7 pa pb pc pd pe pf pg mem a b c d e f g =
     call_args1 (put_pair pa (put_pair pb (put_pair pc (put_pair pd (put_pair pe (put_pair pf pg)))))) mem (a, b, c, d, e, f, g)"
  by (simp_all add: call_args1_def call_args2_def call_args3_def call_args4_def call_args5_def call_args6_def
      call_args7_def put_pair_def bindE_def split: sum.split)

lemmas handler_pairs = handler2_pair handler3_pair handler4_pair handler5_pair handler6_pair handler7_pair

lemma call_args1_ok:
  assumes "codec put get enc" "RPC_HEADER_SZ + int (length (enc x)) \<le> MAX_MSG"
  obtains req where "call_args1 put mem x = Inr req" "appended (marshall_new mem) req (enc x)"
proof -
  have "m_inv (marshall_new mem)" "m_ind (marshall_new mem) + int (length (enc x)) \<le> MAX_MSG"
    using assms(2) marshall_new_inv(1) [of mem] by (simp_all add: marshall_new_def)
  then show ?thesis using codec.put_law [OF assms(1)] that by (auto simp: call_args1_def)
qed

text \<open>The length limit of a message, header included.\<close>

definition msg_fits :: "('a \<Rightarrow> byte list) \<Rightarrow> 'a \<Rightarrow> bool" where
  "msg_fits enc x \<longleftrightarrow> RPC_HEADER_SZ + int (length (enc x)) \<le> MAX_MSG"

lemma call_is_method:
  assumes link: "linked A R c cl w" and bnd: "bound cl w" and xid: "cl_xid cl + 1 \<noteq> 0" and proc: "proc \<noteq> RPC_BIND"
    and a: "codec put_a get_a enc_a" "msg_fits enc_a x" and r: "codec put_r get_r enc_r" "msg_fits enc_r y"
    and f: "sv_procs (srv w) proc = Some (handler1 get_a put_r r1 meth)"
    and meth: "meth (app w) x r1 = Inr (ret, y, s')" "0 \<le> ret" "ret < 2 ^ 31"
  obtains cl' w' where "call get_r r0 mem i0 c proc (call_args1 put_a mem x) cl w = Inr (ret, y, cl', w')" "app w' = s'"
    "linked (insert (cl_clt_nonce cl, cl_xid cl) A) (insert (cl_xid cl) R) c cl' w'" "bound cl' w'"
    "cl_xid cl' = cl_xid cl + 1" "sv_procs (srv w') = sv_procs (srv w)" "cl_clt_nonce cl' = cl_clt_nonce cl"
    "conn_only (cl_clt_nonce cl) c w w'" "sv_nonce (srv w') = sv_nonce (srv w)"
proof -
  have len: "int (length (enc_a x)) \<le> MAX_MSG" "int (length (enc_r y)) \<le> MAX_MSG" "int (length (enc_a x)) + RPC_HEADER_SZ < 2 ^ 31"
    using a(2) r(2) by (simp_all add: msg_fits_def rpc_sizes MAX_MSG_def)
  obtain req where req: "call_args1 put_a mem x = Inr req" "appended (marshall_new mem) req (enc_a x)"
    using a(2) by (rule call_args1_ok [OF a(1), of x, folded msg_fits_def])
  have g: "handler_gives (handler1 get_a put_r r1 meth) (enc_a x) (app w) ret (enc_r y) s'"
    by (rule handler1_gives [OF a(1) r(1) len(1)]) (use r(2) meth(1) in \<open>simp_all add: msg_fits_def\<close>)
  have b: "proc = RPC_BIND \<longleftrightarrow> \<not> cl_bind_done cl" "cl_srv_nonce cl = 0 \<or> cl_srv_nonce cl = sv_nonce (srv w)"
    using bnd proc by (simp_all add: bound_def)
  obtain cl' w' where c: "call get_r r0 mem i0 c proc (call_args1 put_a mem x) cl w = Inr (ret, y, cl', w')" "app w' = s'"
    "linked (insert (cl_clt_nonce cl, cl_xid cl) A) (insert (cl_xid cl) R) c cl' w'"
    "same_client cl cl'" "cl_xid cl' = cl_xid cl + 1"
    "sv_nonce (srv w') = sv_nonce (srv w)" "sv_procs (srv w') = sv_procs (srv w)" "conn_only (cl_clt_nonce cl) c w w'"
    by (rule call_ok [OF link req len(3) xid b f g meth(2,3) r(1) len(2), of r0 mem i0]) (rule that)
  have "bound cl' w'" "cl_clt_nonce cl' = cl_clt_nonce cl" using bnd c(4,6) by (simp_all add: bound_def same_client_def)
  then show ?thesis using that [OF c(1-3) _ c(5,7) _ c(8,6)] by blast
qed

text \<open>The numbers of the calls of a session do not wrap around.\<close>

lemma xid_room:
  assumes "unat (x :: u32) + n < 2 ^ 32" "0 < n"
  shows "x + 1 \<noteq> 0" "unat (x + 1) + (n - 1) < 2 ^ 32"
proof -
  have "unat (x + 1) = (unat x + 1) mod 2 ^ 32" by (simp add: unat_word_ariths)
  then have "unat (x + 1) = unat x + 1" using assms by simp
  then show "x + 1 \<noteq> 0" "unat (x + 1) + (n - 1) < 2 ^ 32" using assms by auto
qed

section \<open>Binding\<close>

lemma bind_ok:
  assumes link: "linked A R c cl w" and new: "\<not> cl_bind_done cl" "cl_srv_nonce cl = 0" and xid: "cl_xid cl + 1 \<noteq> 0"
    and f: "sv_procs (srv w) RPC_BIND = Some (handler1 get_u32 put_u32 r1 (rpcbind (sv_nonce (srv w))))"
  obtains cl' w' where "rpcc_bind r0 mem i0 c cl w = Inr (0, cl', w')" "app w' = app w"
    "linked (insert (cl_clt_nonce cl, cl_xid cl) A) (insert (cl_xid cl) R) c cl' w'" "bound cl' w'"
    "cl_xid cl' = cl_xid cl + 1" "cl_clt_nonce cl' = cl_clt_nonce cl" "sv_nonce (srv w') = sv_nonce (srv w)"
    "sv_procs (srv w') = sv_procs (srv w)" "conn_only (cl_clt_nonce cl) c w w'"
proof -
  have fit: "RPC_HEADER_SZ + int (length (be32 0)) \<le> MAX_MSG" by (simp add: rpc_sizes MAX_MSG_def)
  obtain req where req: "call_args1 put_u32 mem 0 = Inr req" "appended (marshall_new mem) req (be32 0)"
    using fit by (rule call_args1_ok [OF c_u32.codec_axioms])
  have len: "int (length (be32 0)) + RPC_HEADER_SZ < 2 ^ 31" "int (length (be32 (sv_nonce (srv w)))) \<le> MAX_MSG"
    by (simp_all add: rpc_sizes MAX_MSG_def)
  have b: "RPC_BIND = RPC_BIND \<longleftrightarrow> \<not> cl_bind_done cl" "cl_srv_nonce cl = 0 \<or> cl_srv_nonce cl = sv_nonce (srv w)"
    using new by simp_all
  obtain cl1 w' where c: "call get_u32 r0 mem i0 c RPC_BIND (call_args1 put_u32 mem 0) cl w = Inr (0, sv_nonce (srv w), cl1, w')"
    "app w' = app w" "linked (insert (cl_clt_nonce cl, cl_xid cl) A) (insert (cl_xid cl) R) c cl1 w'"
    "same_client cl cl1" "cl_xid cl1 = cl_xid cl + 1"
    "sv_nonce (srv w') = sv_nonce (srv w)" "sv_procs (srv w') = sv_procs (srv w)" "conn_only (cl_clt_nonce cl) c w w'"
    by (rule call_ok [OF link req len(1) xid b f bind_gives _ _ c_u32.codec_axioms len(2), of r0 mem i0]) (simp, simp, rule that)
  let ?cl = "cl1\<lparr>cl_bind_done := True, cl_srv_nonce := sv_nonce (srv w)\<rparr>"
  have "client_inv R' ?cl = client_inv R' cl1" for R' by (simp add: client_inv_def)
  then have l: "linked (insert (cl_clt_nonce cl, cl_xid cl) A) (insert (cl_xid cl) R) c ?cl w'"
    using c(3) by (simp add: linked_def)
  have "rpcc_bind r0 mem i0 c cl w = Inr (0, ?cl, w')"
    using c(1) by (simp add: rpcc_bind_def rpcc_bind_finish_def)
  then show ?thesis
    by (rule that) (use c l in \<open>simp_all add: bound_def same_client_def\<close>)
qed

text \<open>A second \<open>bind\<close> of a bound client fails at once.\<close>

lemma bind_twice:
  assumes "cl_bind_done cl"
  shows "rpcc_bind r0 mem i0 c cl w = Inr (bind_failure, cl, w)"
proof -
  have "RPC_HEADER_SZ + int (length (be32 0)) \<le> MAX_MSG" by (simp add: rpc_sizes MAX_MSG_def)
  then obtain req where "call_args1 put_u32 mem 0 = Inr req"
    using call_args1_ok [OF c_u32.codec_axioms] by blast
  with assms show ?thesis
    by (simp add: rpcc_bind_def call_def call1_def call1_begin_def call_m_finish_def rpcc_bind_finish_def bind_failure_def)
qed

text \<open>A client that cannot reach its server: the call times out.\<close>

lemma call1_unreachable_timeout:
  assumes "client_inv R cl" "m_inv req" "m_ind req < 2 ^ 31" "cl_xid cl + 1 \<noteq> 0" "proc = RPC_BIND \<longleftrightarrow> \<not> cl_bind_done cl"
    "\<not> cl_destroy_wait cl"
  obtains cl' where "call1_unreachable i0 proc req cl = Inr (timeout_failure, unmarshall_empty, cl')"
    "client_inv (insert (cl_xid cl) R) cl'" "cl_calls cl' = cl_calls cl"
proof -
  let ?ca = "\<lparr>ca_xid = cl_xid cl, ca_un = unmarshall_empty, ca_intret = i0, ca_done = False\<rparr>"
  obtain req' cl1 where c1: "call1_begin i0 proc req cl = Inr (Inr (cl_xid cl, hd (cl_window cl), req', cl1))"
    "client_inv R cl1" "cl_calls cl (cl_xid cl) = None" "cl_calls cl1 = (cl_calls cl)(cl_xid cl \<mapsto> ?ca)"
    by (rule call1_begin_ok [OF assms, of i0]) (rule that)
  obtain cl2 where e: "call1_end (cl_xid cl) cl1 = Some (?ca, cl2)"
    using c1(4) by (simp add: call1_end_def)
  then have calls: "cl_calls cl2 = cl_calls cl" using c1(3,4) by (auto simp: call1_end_def fun_eq_iff)
  have "call1_unreachable i0 proc req cl = Inr (timeout_failure, unmarshall_empty, cl2)"
    using c1(1) e by (simp add: call1_unreachable_def call1_transmit_def call1_result_def call1_dup_def)
  then show ?thesis by (rule that) (rule call1_end_ok(1) [OF c1(2) e], rule calls)
qed

lemma bind_unreachable:
  assumes "client_inv R cl" "\<not> cl_bind_done cl" "cl_xid cl + 1 \<noteq> 0" "\<not> cl_destroy_wait cl"
  obtains cl' where "rpcc_bind_unreachable r0 mem i0 cl = Inr (timeout_failure, cl')" "cl_calls cl' = cl_calls cl"
proof -
  have "RPC_HEADER_SZ + int (length (be32 0)) \<le> MAX_MSG" by (simp add: rpc_sizes MAX_MSG_def)
  then obtain req where req: "call_args1 put_u32 mem 0 = Inr req" "appended (marshall_new mem) req (be32 0)"
    by (rule call_args1_ok [OF c_u32.codec_axioms])
  have m: "m_inv req" "m_ind req < 2 ^ 31" using req(2) by (simp_all add: appended_def marshall_new_def rpc_sizes)
  have b: "RPC_BIND = RPC_BIND \<longleftrightarrow> \<not> cl_bind_done cl" using assms(2) by simp
  obtain cl' where "call1_unreachable i0 RPC_BIND req cl = Inr (timeout_failure, unmarshall_empty, cl')"
    "client_inv (insert (cl_xid cl) R) cl'" "cl_calls cl' = cl_calls cl"
    by (rule call1_unreachable_timeout [OF assms(1) m assms(3) b assms(4), of i0]) (rule that)
  with req(1) show ?thesis
    by (intro that [of cl'])
       (simp_all add: rpcc_bind_unreachable_def call_m_finish_def rpcc_bind_finish_def timeout_failure_def)
qed

section \<open>A server that was restarted\<close>

lemma deliver_old:
  assumes link: "linked A R c cl w" and req: "carries_request b sz h args" "p = map b [0..<nat sz]"
    and old: "rq_srv_nonce h \<noteq> 0" "rq_srv_nonce h \<noteq> sv_nonce (srv w)"
  obtains w' pkt where "deliver mem c p w = Inr w'" "sent_on c w w' = [pkt]" "app w' = app w" "srv w' = srv w"
    "carries_reply ((!) (wire pkt)) (int (length (wire pkt))) \<lparr>rp_xid = rq_xid h, rp_ret = word_of_int oldsrv_failure\<rparr> []"
    "conn_live w' (cl_clt_nonce cl) c 1"
proof -
  have link': "sv_reachable (srv w)" "conn_live w (cl_clt_nonce cl) c 1" using link by (simp_all add: linked_def)
  then obtain k where k: "heap w c = Some k" "\<not> c_dead k" by (auto simp: conn_live_def split: option.splits)
  define w1 where "w1 = w\<lparr>heap := (heap w)(c \<mapsto> incref k)\<rparr>"
  note got = deliver_dispatch [OF k(1) link'(1), folded w1_def]
  have k1: "heap w1 c = Some (incref k)" "\<not> c_dead (incref k)" using k by (simp_all add: w1_def incref_def)
  have old1: "rq_srv_nonce h \<noteq> sv_nonce (srv w1)" using old(2) by (simp add: w1_def)
  obtain pkt where d: "dispatch mem c ((!) (wire p)) (int (length (wire p))) w1 = Inr (w1\<lparr>out := out w1 @ [(c, pkt)]\<rparr>)"
    "carries_reply ((!) pkt) (int (length pkt)) \<lparr>rp_xid = rq_xid h, rp_ret = word_of_int oldsrv_failure\<rparr> []"
    by (rule dispatch_old_server [OF wire_request [OF req] old(1) old1 k1, of mem]) (rule that)
  show ?thesis
  proof (rule that [of "w1\<lparr>out := out w1 @ [(c, pkt)]\<rparr>" pkt])
    show "deliver mem c p w = Inr (w1\<lparr>out := out w1 @ [(c, pkt)]\<rparr>)" using d(1) by (simp add: got)
    show "conn_live (w1\<lparr>out := out w1 @ [(c, pkt)]\<rparr>) (cl_clt_nonce cl) c 1"
      using link'(2) k by (auto simp: conn_live_def w1_def incref_def)
  qed (use wire_reply [OF d(2)] in \<open>simp_all add: sent_on_def w1_def\<close>)
qed

text \<open>A client bound to an earlier instance of the server is told so; the result stays as it is.\<close>

lemma call_old_server:
  assumes link: "linked A R c cl w" and args: "args = Inr req" "m_inv req" "m_ind req < 2 ^ 31" and xid: "cl_xid cl + 1 \<noteq> 0"
    and bnd: "proc \<noteq> RPC_BIND" "cl_bind_done cl" and old: "cl_srv_nonce cl \<noteq> 0" "cl_srv_nonce cl \<noteq> sv_nonce (srv w)"
  obtains cl' w' where "call get r0 mem i0 c proc args cl w = Inr (oldsrv_failure, r0, cl', w')" "app w' = app w"
    "linked A (insert (cl_xid cl) R) c cl' w'" "srv w' = srv w"
proof -
  let ?Q = "\<lambda>w'. app w' = app w \<and> srv w' = srv w \<and> conn_live w' (cl_clt_nonce cl) c 1"
  have b: "proc = RPC_BIND \<longleftrightarrow> \<not> cl_bind_done cl" using bnd by simp
  have ret: "- (2 ^ 31) \<le> oldsrv_failure" "oldsrv_failure < 2 ^ 31" by (simp_all add: oldsrv_failure_def)
  have answer: "\<exists>w' pkt. deliver mem c p w = Inr w' \<and> sent_on c w w' = [pkt] \<and> ?Q w' \<and>
      carries_reply ((!) (wire pkt)) (int (length (wire pkt))) \<lparr>rp_xid = cl_xid cl, rp_ret = word_of_int oldsrv_failure\<rparr> []"
    if "carries_request b sz \<lparr>rq_xid = cl_xid cl, rq_proc = proc, rq_clt_nonce = cl_clt_nonce cl,
      rq_srv_nonce = cl_srv_nonce cl, rq_xid_rep = hd (cl_window cl)\<rparr> (get_content req)" "p = map b [0..<nat sz]" for b sz p
    using deliver_old [OF link that, of mem] old by simp metis
  obtain u cl' w' where r: "call1 mem i0 c proc req cl w = Inr (oldsrv_failure, u, cl', w')" "?Q w'"
    "u_inv u" "u_ok u" "u_rest u = []" "client_inv (insert (cl_xid cl) R) cl'" "cl_calls cl' = Map.empty"
    "same_client cl cl'" "cl_xid cl' = cl_xid cl + 1"
    by (rule call1_answered [OF link args(2,3) xid b ret, where Q = ?Q and mem = mem and res = "[]" and ?i0.0 = i0])
       (erule (1) answer, rule that)
  have win: "win_inv A (sv_reply_window (srv w'))" "sv_reachable (srv w')" using link r(2) by (simp_all add: linked_def)
  have "linked A (insert (cl_xid cl) R) c cl' w'"
    by (rule linked_next [OF link xid r(6-9) win(1) _ win(2)]) (use r(2) in auto)
  then show ?thesis
    using r(1,2) args(1) by (intro that [of cl' w']) (simp_all add: call_def call_m_finish_def oldsrv_failure_def)
qed

section \<open>A server and a client that have just met\<close>

text \<open>The server has accepted a connection from the client.\<close>

definition accepted :: "nat \<Rightarrow> 's world \<Rightarrow> 's world" where
  "accepted c w = w\<lparr>heap := (heap w)(c \<mapsto> connection_new 0 0 0)\<rparr>"

lemma linked_start:
  assumes "win_inv A (sv_reply_window (srv w))" "\<And>x. (nonce, x) \<notin> A" "sv_conns (srv w) nonce = None" "sv_reachable (srv w)"
    "nonce \<noteq> 0"
  shows "linked A {} c (rpcc_new True nonce 0) (accepted c w)"
  using assms client_inv_new [of True nonce 0]
  by (simp add: linked_def accepted_def conn_live_def rpcc_new_def connection_new_def request_valid_def request_clear_def)

lemma linked_accepted: "linked A R d cl w \<Longrightarrow> d \<noteq> c \<Longrightarrow> linked A R d cl (accepted c w)"
  by (simp add: linked_def accepted_def conn_live_def)

section \<open>Several clients\<close>

text \<open>Clients with the given nonces connect and bind, one after the other.\<close>

fun bind_all ::
  "u32 \<Rightarrow> (nat \<Rightarrow> byte) \<Rightarrow> int \<Rightarrow> (nat \<times> u32) list \<Rightarrow> (nat \<Rightarrow> rpcc) \<Rightarrow> 's world \<Rightarrow> ((nat \<Rightarrow> rpcc) \<times> 's world) res" where
  "bind_all r mem i0 [] cls w = Inr (cls, w)"
| "bind_all r mem i0 ((c, cnonce) # cs) cls w =
     bindE (rpcc_bind r mem i0 c (rpcc_new True cnonce 0) (accepted c w)) (\<lambda>(ret, cl, w).
     bindE (VERIFY (ret = 0)) (\<lambda>_. bind_all r mem i0 cs (cls(c := cl)) w))"

text \<open>The clients \<open>N\<close>, each on its connection and bound; they differ in their nonces, which are all the server has seen.\<close>

definition clients_linked :: "(u32 \<times> u32) set \<Rightarrow> nat set \<Rightarrow> (nat \<Rightarrow> rpcc) \<Rightarrow> 's world \<Rightarrow> bool" where
  "clients_linked A N cls w \<longleftrightarrow>
     (\<forall>c\<in>N. (\<exists>R. linked A R c (cls c) w) \<and> bound (cls c) w) \<and> inj_on (\<lambda>c. cl_clt_nonce (cls c)) N \<and>
     win_inv A (sv_reply_window (srv w)) \<and> fst ` A \<subseteq> (\<lambda>c. cl_clt_nonce (cls c)) ` N \<and>
     dom (sv_conns (srv w)) \<subseteq> (\<lambda>c. cl_clt_nonce (cls c)) ` N \<and> sv_reachable (srv w)"

definition clients_bound :: "nat set \<Rightarrow> (nat \<Rightarrow> rpcc) \<Rightarrow> 's world \<Rightarrow> bool" where
  "clients_bound N cls w \<longleftrightarrow> (\<exists>A. clients_linked A N cls w)"

lemma clients_none:
  "sv_reply_window (srv w) = Map.empty \<Longrightarrow> sv_conns (srv w) = Map.empty \<Longrightarrow> sv_reachable (srv w) \<Longrightarrow> clients_bound {} cls w"
  using win_inv_empty by (auto simp: clients_bound_def clients_linked_def intro!: exI [of _ "{}"])

lemma clients_step:
  assumes all: "clients_linked A N cls w" and c: "linked (insert (cl_clt_nonce cl', x) A) R c cl' w'" "bound cl' w'"
    and new: "\<And>d. d \<in> N \<Longrightarrow> d \<noteq> c \<Longrightarrow> cl_clt_nonce (cls d) \<noteq> cl_clt_nonce cl'"
    and frame: "conn_only (cl_clt_nonce cl') c w w'" "sv_nonce (srv w') = sv_nonce (srv w)"
    and same: "c \<in> N \<Longrightarrow> cl_clt_nonce (cls c) = cl_clt_nonce cl'"
  shows "clients_bound (insert c N) (cls(c := cl')) w'"
proof -
  let ?A = "insert (cl_clt_nonce cl', x) A" and ?cls = "cls(c := cl')" and ?n = "\<lambda>c. cl_clt_nonce (cls c)"
  have eq: "cl_clt_nonce (?cls d) = ?n d" if "d \<in> N" for d using that same by (cases "d = c") simp_all
  have img: "(\<lambda>d. cl_clt_nonce (?cls d)) ` insert c N = insert (cl_clt_nonce cl') (?n ` N)"
    unfolding image_insert using image_cong [OF refl eq, of N] by simp
  have "\<exists>R. linked ?A R d (?cls d) w'" "bound (?cls d) w'" if d: "d \<in> insert c N" for d
  proof -
    show "\<exists>R. linked ?A R d (?cls d) w'"
    proof (cases "d = c")
      case False
      then obtain R' where "linked A R' d (cls d) w" using all d by (auto simp: clients_linked_def)
      from linked_other [OF this c(1) frame(1)] new False d show ?thesis by auto
    qed (use c(1) in auto)
    show "bound (?cls d) w'" using all d c(2) frame(2) by (auto simp: clients_linked_def bound_def)
  qed
  moreover have "inj_on (\<lambda>c. cl_clt_nonce (?cls c)) (insert c N)"
    using all new new [symmetric] by (fastforce simp: clients_linked_def inj_on_def)
  moreover have "dom (sv_conns (srv w')) \<subseteq> insert (cl_clt_nonce cl') (?n ` N)"
    using frame(1) all by (force simp: conn_only_def clients_linked_def dom_def)
  moreover have "fst ` ?A \<subseteq> insert (cl_clt_nonce cl') (?n ` N)" using all by (auto simp: clients_linked_def)
  moreover have "win_inv ?A (sv_reply_window (srv w'))" "sv_reachable (srv w')" using c(1) by (simp_all add: linked_def)
  ultimately have "clients_linked ?A (insert c N) ?cls w'"
    unfolding clients_linked_def img by blast
  then show ?thesis by (auto simp: clients_bound_def)
qed

text \<open>A call of one of them.\<close>

lemma clients_call:
  assumes all: "clients_bound N cls w" "c \<in> N" and xid: "cl_xid (cls c) + 1 \<noteq> 0" and proc: "proc \<noteq> RPC_BIND"
    and a: "codec put_a get_a enc_a" "msg_fits enc_a x" and r: "codec put_r get_r enc_r" "msg_fits enc_r y"
    and f: "sv_procs (srv w) proc = Some (handler1 get_a put_r r1 meth)"
    and meth: "meth (app w) x r1 = Inr (ret, y, s')" "0 \<le> ret" "ret < 2 ^ 31"
  obtains cl' w' where "call get_r r0 mem i0 c proc (call_args1 put_a mem x) (cls c) w = Inr (ret, y, cl', w')" "app w' = s'"
    "clients_bound N (cls(c := cl')) w'" "cl_xid cl' = cl_xid (cls c) + 1" "sv_procs (srv w') = sv_procs (srv w)"
    "sv_nonce (srv w') = sv_nonce (srv w)"
proof -
  obtain A where A: "clients_linked A N cls w" using all(1) by (auto simp: clients_bound_def)
  then obtain R where l: "clients_linked A N cls w" "linked A R c (cls c) w" "bound (cls c) w"
    using all(2) by (auto simp: clients_linked_def)
  obtain cl' w' where k: "call get_r r0 mem i0 c proc (call_args1 put_a mem x) (cls c) w = Inr (ret, y, cl', w')" "app w' = s'"
    "linked (insert (cl_clt_nonce (cls c), cl_xid (cls c)) A) (insert (cl_xid (cls c)) R) c cl' w'" "bound cl' w'"
    "cl_xid cl' = cl_xid (cls c) + 1" "sv_procs (srv w') = sv_procs (srv w)" "cl_clt_nonce cl' = cl_clt_nonce (cls c)"
    "conn_only (cl_clt_nonce (cls c)) c w w'" "sv_nonce (srv w') = sv_nonce (srv w)"
    by (rule call_is_method [OF l(2,3) xid proc a r f meth, of r0 mem i0]) (rule that)
  have "clients_bound (insert c N) (cls(c := cl')) w'"
    by (rule clients_step [OF l(1) k(3) [folded k(7)] k(4) _ k(8) [folded k(7)] k(9)])
       (use l(1) all(2) k(7) in \<open>auto simp: clients_linked_def inj_on_def\<close>)
  then show ?thesis using all(2) by (intro that [OF k(1,2) _ k(5,6,9)]) (simp add: insert_absorb)
qed

text \<open>A new client connects and binds.\<close>

lemma clients_bind:
  assumes all: "clients_bound N cls w" "c \<notin> N" and new: "cnonce \<notin> (\<lambda>d. cl_clt_nonce (cls d)) ` N" "cnonce \<noteq> 0"
    and f: "sv_procs (srv w) RPC_BIND = Some (handler1 get_u32 put_u32 r1 (rpcbind (sv_nonce (srv w))))"
  obtains cl w' where "rpcc_bind r0 mem i0 c (rpcc_new True cnonce 0) (accepted c w) = Inr (0, cl, w')" "app w' = app w"
    "clients_bound (insert c N) (cls(c := cl)) w'" "cl_xid cl = 2" "cl_clt_nonce cl = cnonce"
    "sv_procs (srv w') = sv_procs (srv w)" "sv_nonce (srv w') = sv_nonce (srv w)"
proof -
  let ?cl = "rpcc_new True cnonce 0" and ?w = "accepted c w"
  obtain A where A: "clients_linked A N cls w" using all(1) by (auto simp: clients_bound_def)
  have "\<exists>R. linked A R d (cls d) ?w" if d: "d \<in> N" for d
  proof -
    obtain R where "linked A R d (cls d) w" using A d by (auto simp: clients_linked_def)
    then have "linked A R d (cls d) ?w" by (rule linked_accepted) (use all(2) d in auto)
    then show ?thesis ..
  qed
  then have acc: "clients_linked A N cls ?w"
    using A by (simp add: clients_linked_def bound_def accepted_def)
  have l: "linked A {} c ?cl ?w"
  proof (rule linked_start)
    show "(cnonce, x) \<notin> A" for x using A new(1) by (force simp: clients_linked_def)
    show "sv_conns (srv w) cnonce = None" using A new(1) by (force simp: clients_linked_def dom_def)
  qed (use A new(2) in \<open>simp_all add: clients_linked_def\<close>)
  have n: "\<not> cl_bind_done ?cl" "cl_srv_nonce ?cl = 0" "cl_xid ?cl + 1 \<noteq> 0" "cl_clt_nonce ?cl = cnonce" by (simp_all add: rpcc_new_def)
  have f': "sv_procs (srv ?w) RPC_BIND = Some (handler1 get_u32 put_u32 r1 (rpcbind (sv_nonce (srv ?w))))"
    using f by (simp add: accepted_def)
  obtain cl w' where b: "rpcc_bind r0 mem i0 c ?cl ?w = Inr (0, cl, w')" "app w' = app ?w"
    "linked (insert (cl_clt_nonce ?cl, cl_xid ?cl) A) (insert (cl_xid ?cl) {}) c cl w'" "bound cl w'"
    "cl_xid cl = cl_xid ?cl + 1" "cl_clt_nonce cl = cl_clt_nonce ?cl" "sv_nonce (srv w') = sv_nonce (srv ?w)"
    "sv_procs (srv w') = sv_procs (srv ?w)" "conn_only (cl_clt_nonce ?cl) c ?w w'"
    by (rule bind_ok [OF l n(1-3) f', of r0 mem i0]) (rule that)
  have "clients_bound (insert c N) (cls(c := cl)) w'"
    by (rule clients_step [OF acc b(3) [folded b(6)] b(4) _ b(9) [folded b(6)] b(7)])
       (use all(2) new(1) b(6) n(4) in \<open>auto simp: image_iff\<close>)
  then show ?thesis
    using b by (intro that [of cl w']) (simp_all add: accepted_def rpcc_new_def)
qed

lemma bind_all_ok:
  assumes "clients_bound N cls w" "distinct (map fst cs)" "fst ` set cs \<inter> N = {}" "distinct (map snd cs)"
    "snd ` set cs \<inter> (\<lambda>d. cl_clt_nonce (cls d)) ` N = {}" "0 \<notin> snd ` set cs"
    "sv_procs (srv w) RPC_BIND = Some (handler1 get_u32 put_u32 r1 (rpcbind (sv_nonce (srv w))))"
  shows "\<exists>cls' w'. bind_all r mem i0 cs cls w = Inr (cls', w') \<and> clients_bound (fst ` set cs \<union> N) cls' w' \<and>
    (\<forall>d. if d \<in> fst ` set cs then cl_xid (cls' d) = 2 else cls' d = cls d) \<and> app w' = app w \<and>
    sv_procs (srv w') = sv_procs (srv w) \<and> sv_nonce (srv w') = sv_nonce (srv w)"
  using assms
proof (induction cs arbitrary: N cls w)
  case (Cons p cs)
  obtain c n where p: "p = (c, n)" by (cases p)
  have fresh: "c \<notin> N" "n \<notin> (\<lambda>d. cl_clt_nonce (cls d)) ` N" "n \<noteq> 0" using Cons.prems(3,5,6) by (auto simp: p)
  obtain cl w1 where b: "rpcc_bind r mem i0 c (rpcc_new True n 0) (accepted c w) = Inr (0, cl, w1)" "app w1 = app w"
    "clients_bound (insert c N) (cls(c := cl)) w1" "cl_xid cl = 2" "cl_clt_nonce cl = n"
    "sv_procs (srv w1) = sv_procs (srv w)" "sv_nonce (srv w1) = sv_nonce (srv w)"
    by (rule clients_bind [OF Cons.prems(1) fresh Cons.prems(7), of r mem i0]) (rule that)
  have nc: "(\<lambda>d. cl_clt_nonce ((cls(c := cl)) d)) ` insert c N = insert n ((\<lambda>d. cl_clt_nonce (cls d)) ` N)"
    using fresh(1) b(5) image_cong [of N N "\<lambda>d. cl_clt_nonce ((cls(c := cl)) d)" "\<lambda>d. cl_clt_nonce (cls d)"] by force
  have "\<exists>cls' w'. bind_all r mem i0 cs (cls(c := cl)) w1 = Inr (cls', w') \<and> clients_bound (fst ` set cs \<union> insert c N) cls' w' \<and>
    (\<forall>d. if d \<in> fst ` set cs then cl_xid (cls' d) = 2 else cls' d = (cls(c := cl)) d) \<and> app w' = app w1 \<and>
    sv_procs (srv w') = sv_procs (srv w1) \<and> sv_nonce (srv w') = sv_nonce (srv w1)"
  proof (rule Cons.IH [OF b(3)])
    show "fst ` set cs \<inter> insert c N = {}" using Cons.prems(2,3) by (auto simp: p)
    show "snd ` set cs \<inter> (\<lambda>d. cl_clt_nonce ((cls(c := cl)) d)) ` insert c N = {}"
      unfolding nc using Cons.prems(4,5) by (auto simp: p)
  qed (use Cons.prems(2,4,6,7) b(6,7) in \<open>simp_all add: p\<close>)
  then obtain cls' w' where i: "bind_all r mem i0 cs (cls(c := cl)) w1 = Inr (cls', w')" "clients_bound (fst ` set cs \<union> insert c N) cls' w'"
    "\<And>d. if d \<in> fst ` set cs then cl_xid (cls' d) = 2 else cls' d = (cls(c := cl)) d" "app w' = app w1"
    "sv_procs (srv w') = sv_procs (srv w1)" "sv_nonce (srv w') = sv_nonce (srv w1)"
    by blast
  have "if d \<in> fst ` set (p # cs) then cl_xid (cls' d) = 2 else cls' d = cls d" for d
    using i(3) [of d] b(4) by (auto simp: p split: if_splits)
  moreover have "clients_bound (fst ` set (p # cs) \<union> N) cls' w'" using i(2) by (simp add: p)
  moreover have "bind_all r mem i0 (p # cs) cls w = Inr (cls', w')" using b(1) i(1) by (simp add: p)
  ultimately show ?case using b(2,6,7) i(4-6) by (intro exI [of _ cls'] exI [of _ w']) simp
qed simp

end
