(* ===== verification/Remote_Extent.thy ===== *)
theory Remote_Extent
  imports Rpc_Call Extent_Trace
begin

text \<open>
  The whole stack: clients that call the extent service through the RPC library. Each call goes through the
  marshalling of its arguments, the client's bookkeeping, the connection, the server's duplicate filter, the handler, the
  extent server, the inode manager and the disk, and back. \<open>remote_is_local\<close>: the outcome is that of the same
  call on the extent server itself; \<open>remote_serve_refines\<close> carries the refinement of \<open>Extent_Trace\<close> over to remote
  sessions, in which the calls of several clients follow each other in any order. Client \<open>c\<close> is on connection \<open>c\<close>.
\<close>

section \<open>Remote calls\<close>

text \<open>The procedures of \<open>extent_protocol.h\<close>, called with the types the server registers them with.\<close>

datatype remote_request = RPut u64 "byte list" | RGet u64 | RGetattr u64 | RRemove u64

primrec local_request :: "remote_request \<Rightarrow> Extent_Trace.request" where
  "local_request (RPut eid buf) = Put eid buf"
| "local_request (RGet eid) = Get eid"
| "local_request (RGetattr eid) = Getattr eid"
| "local_request (RRemove eid) = Remove eid"

primrec remote_handle ::
  "(nat \<Rightarrow> byte) \<Rightarrow> int \<Rightarrow> nat \<Rightarrow> remote_request \<Rightarrow> rpcc \<Rightarrow> extent_server world \<Rightarrow>
     (int \<times> Extent_Trace.reply \<times> rpcc \<times> extent_server world) res" where
  "remote_handle mem i0 c (RPut eid buf) cl w =
     bindE (call get_u32 0 mem i0 c PUT (call_args2 put_u64 put_string mem eid buf) cl w)
       (\<lambda>(ret, r, cl, w). Inr (ret, Extent_Trace.Done, cl, w))"
| "remote_handle mem i0 c (RGet eid) cl w =
     bindE (call (\<lambda>u. get_string u []) [] mem i0 c GET (call_args1 put_u64 mem eid) cl w)
       (\<lambda>(ret, buf, cl, w). Inr (ret, Data buf, cl, w))"
| "remote_handle mem i0 c (RGetattr eid) cl w =
     bindE (call get_attr attr_zero mem i0 c GETATTR (call_args1 put_u64 mem eid) cl w)
       (\<lambda>(ret, a, cl, w). Inr (ret, Attr (a_type a) (unat (a_size a)), cl, w))"
| "remote_handle mem i0 c (RRemove eid) cl w =
     bindE (call get_u32 0 mem i0 c REMOVE (call_args1 put_u64 mem eid) cl w)
       (\<lambda>(ret, r, cl, w). Inr (ret, Extent_Trace.Done, cl, w))"

fun remote_serve ::
  "(nat \<Rightarrow> byte) \<Rightarrow> int \<Rightarrow> (nat \<times> remote_request) list \<Rightarrow> (nat \<Rightarrow> rpcc) \<Rightarrow> extent_server world \<Rightarrow>
     ((int \<times> Extent_Trace.reply) list \<times> (nat \<Rightarrow> rpcc) \<times> extent_server world) res" where
  "remote_serve mem i0 [] cls w = Inr ([], cls, w)"
| "remote_serve mem i0 ((c, req) # reqs) cls w =
     bindE (remote_handle mem i0 c req (cls c) w) (\<lambda>(ret, rep, cl, w).
     bindE (remote_serve mem i0 reqs (cls(c := cl)) w) (\<lambda>(reps, cls, w). Inr ((ret, rep) # reps, cls, w)))"

section \<open>A remote call is the local one\<close>

text \<open>The clients \<open>N\<close> and the extent server between two calls.\<close>

definition remote_ok :: "(nat \<Rightarrow> byte) \<Rightarrow> nat set \<Rightarrow> (nat \<Rightarrow> rpcc) \<Rightarrow> extent_server world \<Rightarrow> bool" where
  "remote_ok junk N cls w \<longleftrightarrow>
     clients_bound N cls w \<and> store_inv \<lparr>ec_es = app w\<rparr> \<and> (\<exists>r0 a0 nonce. sv_procs (srv w) = extent_procs junk r0 a0 nonce)"

lemma remote_okE:
  assumes "remote_ok junk N cls w"
  obtains r0 a0 where "sv_procs (srv w) PUT = Some (h_put junk r0)"
    "sv_procs (srv w) GET = Some h_get" "sv_procs (srv w) GETATTR = Some (h_getattr a0)"
    "sv_procs (srv w) REMOVE = Some (h_remove r0)"
  using assms by (auto simp: remote_ok_def extent_procs_def proc_defs)

lemma file_length:
  assumes "store_inv ec" "store_view ec k = Some (t, d)"
  shows "length d \<le> MAXBYTES"
  using assms live_size [of "im_bm (es_im (ec_es ec))" k] by (auto simp: store_defs abs_fs_Some)

lemma proc_not_bind: "PUT \<noteq> RPC_BIND" "GET \<noteq> RPC_BIND" "GETATTR \<noteq> RPC_BIND" "REMOVE \<noteq> RPC_BIND"
  by (simp_all add: proc_defs)

lemmas extent_fits = msg_fits_def MAX_MSG_def be64_def enc_string_def attr_words_def rpc_sizes MAXBYTES_value

text \<open>One procedure with one argument, its method given.\<close>

lemma remote_method:
  assumes ok: "remote_ok junk N cls w" "c \<in> N" and xid: "cl_xid (cls c) + 1 \<noteq> 0" and proc: "proc \<noteq> RPC_BIND"
    and a: "codec put_a get_a enc_a" "msg_fits enc_a x" and r: "codec put_r get_r enc_r" "msg_fits enc_r y"
    and f: "sv_procs (srv w) proc = Some (handler1 get_a put_r r1 meth)"
    and meth: "meth (app w) x r1 = Inr (OK, y, es')" "store_inv \<lparr>ec_es = es'\<rparr>"
  obtains cl' w' where "call get_r r0 mem i0 c proc (call_args1 put_a mem x) (cls c) w = Inr (OK, y, cl', w')" "app w' = es'"
    "remote_ok junk N (cls(c := cl')) w'" "cl_xid cl' = cl_xid (cls c) + 1"
proof -
  have cl: "clients_bound N cls w" using ok by (simp add: remote_ok_def)
  have OK: "0 \<le> OK" "OK < 2 ^ 31" by (simp_all add: OK_def)
  obtain cl' w' where c: "call get_r r0 mem i0 c proc (call_args1 put_a mem x) (cls c) w = Inr (OK, y, cl', w')" "app w' = es'"
    "clients_bound N (cls(c := cl')) w'" "cl_xid cl' = cl_xid (cls c) + 1" "sv_procs (srv w') = sv_procs (srv w)"
    by (rule clients_call [OF cl ok(2) xid proc a r f meth(1) OK, of r0 mem i0]) (rule that)
  then have "remote_ok junk N (cls(c := cl')) w'" using ok(1) meth(2) by (auto simp: remote_ok_def)
  with c show ?thesis by (intro that) simp_all
qed

lemma remote_is_local:
  assumes ok: "remote_ok junk N cls w" "c \<in> N" and xid: "cl_xid (cls c) + 1 \<noteq> 0" and adm: "admissible (local_request req)"
    and h: "handle junk \<lparr>ec_es = app w\<rparr> (local_request req) = Inr (OK, rep, \<lparr>ec_es = es'\<rparr>)" "store_inv \<lparr>ec_es = es'\<rparr>"
  obtains cl' w' where "remote_handle mem i0 c req (cls c) w = Inr (OK, rep, cl', w')" "app w' = es'"
    "remote_ok junk N (cls(c := cl')) w'" "cl_xid cl' = cl_xid (cls c) + 1"
proof -
  obtain r1 a1 where p: "sv_procs (srv w) PUT = Some (h_put junk r1)" "sv_procs (srv w) GET = Some h_get"
    "sv_procs (srv w) GETATTR = Some (h_getattr a1)" "sv_procs (srv w) REMOVE = Some (h_remove r1)"
    using ok(1) by (rule remote_okE)
  note rcall = remote_method [OF ok xid]
  show ?thesis
  proof (cases req)
    case (RPut eid buf)
    let ?enc = "\<lambda>(x, y). be64 x @ enc_string y"
    have fit: "msg_fits ?enc (eid, buf)" "msg_fits be32 r1" using adm RPut by (simp_all add: extent_fits)
    have f: "sv_procs (srv w) PUT = Some (handler1 (get_pair get_u64 (\<lambda>u. get_string u [])) put_u32 r1 (\<lambda>s (a, b). es_put junk s a b))"
      using p(1) by (simp add: h_put_def handler2_pair)
    have d: "(\<lambda>s (a, b). es_put junk s a b) (app w) (eid, buf) r1 = Inr (OK, r1, es')" "rep = Extent_Trace.Done"
      using h(1) RPut by (auto simp: handle_def es_put_def extent_client_put_def fault_simps)
    obtain cl' w' where "call get_u32 0 mem i0 c PUT (call_args1 (put_pair put_u64 put_string) mem (eid, buf)) (cls c) w = Inr (OK, r1, cl', w')" "app w' = es'"
      "remote_ok junk N (cls(c := cl')) w'" "cl_xid cl' = cl_xid (cls c) + 1"
      by (rule rcall [OF proc_not_bind(1) pair_codec [OF c_u64.codec_axioms c_string.codec_axioms] fit(1) c_u32.codec_axioms fit(2)
        f d(1) h(2), of 0 mem i0]) (rule that)
    then show ?thesis using d(2) RPut by (intro that [of cl' w']) (simp_all add: call_args_pairs)
  next
    case (RGet eid)
    obtain d where d: "es_get (app w) eid [] = Inr (OK, d, es')" "rep = Data d" "es' = app w"
      using h(1) RGet by (auto simp: handle_def es_get_def extent_client_get_def fault_simps)
    have "length d \<le> MAXBYTES"
      using ec.get_law [OF h(2), of eid] d file_length [OF h(2)]
      by (auto simp: es_get_def extent_client_get_def fault_simps split: option.splits)
    then have fit: "msg_fits be64 eid" "msg_fits enc_string d" by (simp_all add: extent_fits)
    obtain cl' w' where "call (\<lambda>u. get_string u []) [] mem i0 c GET (call_args1 put_u64 mem eid) (cls c) w = Inr (OK, d, cl', w')" "app w' = es'"
      "remote_ok junk N (cls(c := cl')) w'" "cl_xid cl' = cl_xid (cls c) + 1"
      by (rule rcall [OF proc_not_bind(2) c_u64.codec_axioms fit(1) c_string.codec_axioms fit(2) p(2) [unfolded h_get_def] d(1) h(2), of "[]" mem i0]) (rule that)
    then show ?thesis using d(2) RGet by (intro that [of cl' w']) (simp_all)
  next
    case (RGetattr eid)
    obtain a where d: "es_getattr (app w) eid a1 = Inr (OK, a, es')" "rep = Attr (a_type a) (unat (a_size a))"
      using h(1) RGetattr by (auto simp: handle_def es_getattr_def extent_client_getattr_def fault_simps)
    have fit: "msg_fits be64 eid" "msg_fits (\<lambda>a. concat (map be32 (attr_words a))) a" by (simp_all add: extent_fits)
    obtain cl' w' where "call get_attr attr_zero mem i0 c GETATTR (call_args1 put_u64 mem eid) (cls c) w = Inr (OK, a, cl', w')" "app w' = es'"
      "remote_ok junk N (cls(c := cl')) w'" "cl_xid cl' = cl_xid (cls c) + 1"
      by (rule rcall [OF proc_not_bind(3) c_u64.codec_axioms fit(1) c_attr.codec_axioms fit(2) p(3) [unfolded h_getattr_def] d(1) h(2), of attr_zero mem i0]) (rule that)
    then show ?thesis using d(2) RGetattr by (intro that [of cl' w']) (simp_all)
  next
    case (RRemove eid)
    have d: "es_remove (app w) eid r1 = Inr (OK, r1, es')" "rep = Extent_Trace.Done"
      using h(1) RRemove by (auto simp: handle_def es_remove_def extent_client_remove_def fault_simps)
    have fit: "msg_fits be64 eid" "msg_fits be32 r1" by (simp_all add: extent_fits)
    obtain cl' w' where "call get_u32 0 mem i0 c REMOVE (call_args1 put_u64 mem eid) (cls c) w = Inr (OK, r1, cl', w')" "app w' = es'"
      "remote_ok junk N (cls(c := cl')) w'" "cl_xid cl' = cl_xid (cls c) + 1"
      by (rule rcall [OF proc_not_bind(4) c_u64.codec_axioms fit(1) c_u32.codec_axioms fit(2) p(4) [unfolded h_remove_def] d(1) h(2), of 0 mem i0]) (rule that)
    then show ?thesis using d(2) RRemove by (intro that [of cl' w']) (simp_all)
  qed
qed

section \<open>Sessions\<close>

lemma remote_handle_refines:
  assumes ok: "remote_ok junk N cls w" "c \<in> N" and xid: "cl_xid (cls c) + 1 \<noteq> 0" and adm: "admissible (local_request req)"
    and free: "demand (local_request req) \<le> store_free \<lparr>ec_es = app w\<rparr>"
  obtains cl' w' where
    "remote_handle mem i0 c req (cls c) w = Inr (OK, fst (spec (store_view \<lparr>ec_es = app w\<rparr>) (local_request req)), cl', w')"
    "remote_ok junk N (cls(c := cl')) w'" "cl_xid cl' = cl_xid (cls c) + 1"
    "store_view \<lparr>ec_es = app w'\<rparr> = snd (spec (store_view \<lparr>ec_es = app w\<rparr>) (local_request req))"
    "store_free \<lparr>ec_es = app w\<rparr> \<le> store_free \<lparr>ec_es = app w'\<rparr> + demand (local_request req)"
proof -
  let ?v = "store_view \<lparr>ec_es = app w\<rparr>"
  have "store_inv \<lparr>ec_es = app w\<rparr>" using ok by (simp add: remote_ok_def)
  from handle_refines [OF this adm free, of junk] obtain ec' where
    h: "handle junk \<lparr>ec_es = app w\<rparr> (local_request req) = Inr (OK, fst (spec ?v (local_request req)), ec')" "store_inv ec'"
    "store_view ec' = snd (spec ?v (local_request req))" "store_free \<lparr>ec_es = app w\<rparr> \<le> store_free ec' + demand (local_request req)"
    by blast
  obtain es' where ec': "ec' = \<lparr>ec_es = es'\<rparr>" by (cases ec')
  obtain cl' w' where r: "remote_handle mem i0 c req (cls c) w = Inr (OK, fst (spec ?v (local_request req)), cl', w')" "app w' = es'"
    "remote_ok junk N (cls(c := cl')) w'" "cl_xid cl' = cl_xid (cls c) + 1"
    by (rule remote_is_local [OF ok xid adm h(1,2) [unfolded ec'], of mem i0]) (rule that)
  show ?thesis by (rule that [OF r(1,3,4)]) (use h(3,4) r(2) in \<open>simp_all add: ec'\<close>)
qed

lemma remote_serve_refines:
  assumes "remote_ok junk N cls w" "\<forall>(c, req)\<in>set reqs. c \<in> N \<and> admissible (local_request req)"
    "(\<Sum>(c, req)\<leftarrow>reqs. demand (local_request req)) \<le> store_free \<lparr>ec_es = app w\<rparr>"
    "\<forall>c\<in>N. unat (cl_xid (cls c)) + length reqs < 2 ^ 32"
  shows "\<exists>cls' w'. remote_serve mem i0 reqs cls w =
      Inr (map (Pair OK) (fst (spec_serve (store_view \<lparr>ec_es = app w\<rparr>) (map (\<lambda>(c, req). local_request req) reqs))), cls', w') \<and>
    remote_ok junk N cls' w' \<and>
    store_view \<lparr>ec_es = app w'\<rparr> = snd (spec_serve (store_view \<lparr>ec_es = app w\<rparr>) (map (\<lambda>(c, req). local_request req) reqs))"
  using assms
proof (induction reqs arbitrary: cls w)
  case (Cons creq reqs)
  obtain c req where creq: "creq = (c, req)" by (cases creq)
  have adm: "c \<in> N" "admissible (local_request req)" "demand (local_request req) \<le> store_free \<lparr>ec_es = app w\<rparr>"
    using Cons.prems(2,3) by (auto simp: creq)
  have xid: "cl_xid (cls c) + 1 \<noteq> 0" "unat (cl_xid (cls c) + 1) + length reqs < 2 ^ 32"
    using xid_room [of "cl_xid (cls c)" "length (creq # reqs)"] Cons.prems(4) adm(1) by simp_all
  obtain cl1 w1 where h:
    "remote_handle mem i0 c req (cls c) w = Inr (OK, fst (spec (store_view \<lparr>ec_es = app w\<rparr>) (local_request req)), cl1, w1)"
    "remote_ok junk N (cls(c := cl1)) w1" "cl_xid cl1 = cl_xid (cls c) + 1"
    "store_view \<lparr>ec_es = app w1\<rparr> = snd (spec (store_view \<lparr>ec_es = app w\<rparr>) (local_request req))"
    "store_free \<lparr>ec_es = app w\<rparr> \<le> store_free \<lparr>ec_es = app w1\<rparr> + demand (local_request req)"
    by (rule remote_handle_refines [OF Cons.prems(1) adm(1) xid(1) adm(2,3), of mem i0]) (rule that)
  have fit: "(\<Sum>(c, req)\<leftarrow>reqs. demand (local_request req)) \<le> store_free \<lparr>ec_es = app w1\<rparr>"
    using Cons.prems(3) h(5) by (simp add: creq)
  have room: "\<forall>d\<in>N. unat (cl_xid ((cls(c := cl1)) d)) + length reqs < 2 ^ 32"
    using Cons.prems(4) h(3) xid(2) by (auto intro: order.strict_trans2)
  have "\<forall>(c, req)\<in>set reqs. c \<in> N \<and> admissible (local_request req)" using Cons.prems(2) by simp
  from Cons.IH [OF h(2) this fit room] obtain cls' w' where
    "remote_serve mem i0 reqs (cls(c := cl1)) w1 =
      Inr (map (Pair OK) (fst (spec_serve (store_view \<lparr>ec_es = app w1\<rparr>) (map (\<lambda>(c, req). local_request req) reqs))), cls', w')"
    "remote_ok junk N cls' w'"
    "store_view \<lparr>ec_es = app w'\<rparr> = snd (spec_serve (store_view \<lparr>ec_es = app w1\<rparr>) (map (\<lambda>(c, req). local_request req) reqs))"
    by blast
  then show ?case
    using h(1,4) by (simp add: creq split: prod.splits)
qed simp

text \<open>A server that \<open>extent_smain\<close> has started and clients that have bound to it.\<close>

definition client_list :: "(nat \<times> u32) list \<Rightarrow> bool" where
  "client_list cs \<longleftrightarrow> distinct (map fst cs) \<and> distinct (map snd cs) \<and> 0 \<notin> snd ` set cs"

lemma remote_start:
  assumes w0: "extent_smain junk r0 a0 nonce count = Inr (Some w0)" and cs: "client_list cs"
  obtains cls' w where "bind_all r mem i0 cs cls w0 = Inr (cls', w)" "remote_ok junk (fst ` set cs) cls' w"
    "\<And>c. c \<in> fst ` set cs \<Longrightarrow> cl_xid (cls' c) = 2" "store_view \<lparr>ec_es = app w\<rparr> = [1 \<mapsto> (1, [])]"
    "store_free \<lparr>ec_es = app w\<rparr> = BLOCK_NUM - DATA_START"
proof -
  obtain w' where w': "extent_smain junk r0 a0 nonce count = Inr (Some w')"
    "sv_procs (srv w') = extent_procs junk r0 a0 nonce" "sv_nonce (srv w') = nonce"
    "sv_reply_window (srv w') = Map.empty" "sv_conns (srv w') = Map.empty" "sv_counting (srv w') = count"
    "heap w' = Map.empty" "out w' = []"
    "store_inv \<lparr>ec_es = app w'\<rparr>" "store_view \<lparr>ec_es = app w'\<rparr> = [1 \<mapsto> (1, [])]"
    "store_free \<lparr>ec_es = app w'\<rparr> = BLOCK_NUM - DATA_START" "sv_reachable (srv w')"
    by (rule smain_ok)
  then have eq: "w' = w0" using w0 by simp
  have none: "clients_bound {} cls w0" using w'(4,5,12) by (intro clients_none) (simp_all add: eq)
  have f: "sv_procs (srv w0) RPC_BIND = Some (handler1 get_u32 put_u32 r0 (rpcbind (sv_nonce (srv w0))))"
    using w'(2,3) by (simp add: eq extent_procs_def proc_defs)
  obtain cls' w where b: "bind_all r mem i0 cs cls w0 = Inr (cls', w)" "clients_bound (fst ` set cs) cls' w"
    "\<And>d. if d \<in> fst ` set cs then cl_xid (cls' d) = 2 else cls' d = cls d" "app w = app w0"
    "sv_procs (srv w) = sv_procs (srv w0)"
    using bind_all_ok [OF none, of cs r0 r mem i0] f cs by (auto simp: client_list_def)
  show ?thesis
  proof (rule that [OF b(1)])
    show "remote_ok junk (fst ` set cs) cls' w" using b(2,4,5) w'(2,9) by (auto simp: remote_ok_def eq)
    show "cl_xid (cls' c) = 2" if "c \<in> fst ` set cs" for c using b(3) [of c] that by simp
  qed (use b(4) w'(10,11) in \<open>simp_all add: eq\<close>)
qed

section \<open>Properties\<close>

text \<open>C1: The whole stack refines the abstract file system: any number of clients bind to a freshly started extent server, and
  every session of put, get, getattr and remove calls that they make over the RPC library, in any order of the
  clients, returns, call by call, the replies of the specification, and leaves on the server's disk the files the
  specification computes, when the strings fit a file, the disk has room and the call numbers do not wrap around.\<close>

theorem remote_session_refines_spec:
  assumes "extent_smain junk r0 a0 nonce count = Inr (Some w0)" "client_list cs"
    "\<forall>(c, req)\<in>set reqs. c \<in> fst ` set cs \<and> admissible (local_request req)"
    "(\<Sum>(c, req)\<leftarrow>reqs. demand (local_request req)) \<le> BLOCK_NUM - DATA_START" "length reqs < 2 ^ 32 - 2"
  shows "\<exists>cls w cls' w'. bind_all r mem i0 cs cls0 w0 = Inr (cls, w) \<and>
    remote_serve mem i0 reqs cls w =
      Inr (map (Pair OK) (fst (spec_serve [1 \<mapsto> (1, [])] (map (\<lambda>(c, req). local_request req) reqs))), cls', w') \<and>
    store_inv \<lparr>ec_es = app w'\<rparr> \<and>
    store_view \<lparr>ec_es = app w'\<rparr> = snd (spec_serve [1 \<mapsto> (1, [])] (map (\<lambda>(c, req). local_request req) reqs))"
proof -
  obtain cls w where b: "bind_all r mem i0 cs cls0 w0 = Inr (cls, w)" "remote_ok junk (fst ` set cs) cls w"
    "\<And>c. c \<in> fst ` set cs \<Longrightarrow> cl_xid (cls c) = 2" "store_view \<lparr>ec_es = app w\<rparr> = [1 \<mapsto> (1, [])]"
    "store_free \<lparr>ec_es = app w\<rparr> = BLOCK_NUM - DATA_START"
    by (rule remote_start [OF assms(1,2), of r mem i0 cls0]) (rule that)
  have "\<forall>c\<in>fst ` set cs. unat (cl_xid (cls c)) + length reqs < 2 ^ 32" using b(3) assms(5) by auto
  from remote_serve_refines [OF b(2) assms(3) _ this, of mem i0] assms(4) b(4,5) obtain cls' w' where
    "remote_serve mem i0 reqs cls w =
      Inr (map (Pair OK) (fst (spec_serve [1 \<mapsto> (1, [])] (map (\<lambda>(c, req). local_request req) reqs))), cls', w')"
    "remote_ok junk (fst ` set cs) cls' w'"
    "store_view \<lparr>ec_es = app w'\<rparr> = snd (spec_serve [1 \<mapsto> (1, [])] (map (\<lambda>(c, req). local_request req) reqs))"
    by auto
  with b(1) show ?thesis by (auto simp: remote_ok_def)
qed

lemma remote_session_refines_spec_witness:
  "\<exists>w0 cls w cls' w'. extent_smain (\<lambda>_. 0) 0 attr_zero 77 0 = Inr (Some w0) \<and>
     bind_all 0 (\<lambda>_. 9) 0 [(1, 5), (2, 6)] (\<lambda>_. rpcc_new True 0 0) w0 = Inr (cls, w) \<and>
     remote_serve (\<lambda>_. 9) 0 [(1, RPut 1 [1, 2, 3]), (2, RGet 1), (2, RRemove 1), (1, RGetattr 1)] cls w =
       Inr ([(OK, Extent_Trace.Done), (OK, Data [1, 2, 3]), (OK, Extent_Trace.Done), (OK, Attr 0 0)], cls', w') \<and>
     store_view \<lparr>ec_es = app w'\<rparr> = Map.empty"
proof -
  let ?reqs = "[(1, RPut 1 [1, 2, 3]), (2, RGet 1), (2, RRemove 1), (1, RGetattr 1)] :: (nat \<times> remote_request) list"
  obtain w0 where w0: "extent_smain (\<lambda>_. 0) 0 attr_zero 77 0 = Inr (Some w0)" by (rule smain_ok)
  have cs: "client_list [(1, 5), (2, 6)]" by (simp add: client_list_def)
  have k: "key 1 = 1" using key_of_nat [of 1] by (simp add: layout_values)
  have "nown (nblk (length [1, 2, 3 :: byte])) \<le> 1" by (rule nown_small) simp
  then have fit: "(\<Sum>(c, req)\<leftarrow>?reqs. demand (local_request req)) \<le> BLOCK_NUM - DATA_START"
    by (simp add: layout_values DATA_START_def)
  have sp: "spec_serve [1 \<mapsto> (1, [])] (map (\<lambda>(c, req). local_request req) ?reqs) =
      ([Extent_Trace.Done, Data [1, 2, 3], Extent_Trace.Done, Attr 0 0], Map.empty)"
    by (simp add: k fun_eq_iff)
  have adm: "\<forall>(c, req)\<in>set ?reqs. c \<in> fst ` set [(1, 5 :: u32), (2, 6)] \<and> admissible (local_request req)"
    by (simp add: MAXBYTES_value)
  have "length ?reqs < 2 ^ 32 - 2" by simp
  from remote_session_refines_spec [OF w0 cs adm fit this, of 0 "\<lambda>_. 9" 0 "\<lambda>_. rpcc_new True 0 0"] w0 show ?thesis
    unfolding sp by (simp add: comp_def) blast
qed



text \<open>Calls and handlers of two to seven arguments are calls and handlers of one argument, the tuple, so that a typed
  call passes any number of arguments in order.\<close>

lemma arguments_form_a_tuple:
  "call_args2 pa pb mem a b = call_args1 (put_pair pa pb) mem (a, b) \<and>
   handler2 ga gb pr r0 m2 = handler1 (get_pair ga gb) pr r0 (\<lambda>s (a, b). m2 s a b) \<and>
   call_args3 pa pb pc mem a b c = call_args1 (put_pair pa (put_pair pb pc)) mem (a, b, c) \<and>
   handler3 ga gb gc pr r0 m3 = handler1 (get_pair ga (get_pair gb gc)) pr r0 (\<lambda>s (a, b, c). m3 s a b c) \<and>
   call_args4 pa pb pc pd mem a b c d = call_args1 (put_pair pa (put_pair pb (put_pair pc pd))) mem (a, b, c, d) \<and>
   handler4 ga gb gc gd pr r0 m4 =
     handler1 (get_pair ga (get_pair gb (get_pair gc gd))) pr r0 (\<lambda>s (a, b, c, d). m4 s a b c d) \<and>
   call_args5 pa pb pc pd pe mem a b c d e =
     call_args1 (put_pair pa (put_pair pb (put_pair pc (put_pair pd pe)))) mem (a, b, c, d, e) \<and>
   handler5 ga gb gc gd ge pr r0 m5 =
     handler1 (get_pair ga (get_pair gb (get_pair gc (get_pair gd ge)))) pr r0 (\<lambda>s (a, b, c, d, e). m5 s a b c d e) \<and>
   call_args6 pa pb pc pd pe pf mem a b c d e f =
     call_args1 (put_pair pa (put_pair pb (put_pair pc (put_pair pd (put_pair pe pf))))) mem (a, b, c, d, e, f) \<and>
   handler6 ga gb gc gd ge gf pr r0 m6 =
     handler1 (get_pair ga (get_pair gb (get_pair gc (get_pair gd (get_pair ge gf))))) pr r0
       (\<lambda>s (a, b, c, d, e, f). m6 s a b c d e f) \<and>
   call_args7 pa pb pc pd pe pf pg mem a b c d e f g =
     call_args1 (put_pair pa (put_pair pb (put_pair pc (put_pair pd (put_pair pe (put_pair pf pg)))))) mem (a, b, c, d, e, f, g) \<and>
   handler7 ga gb gc gd ge gf gg pr r0 m7 =
     handler1 (get_pair ga (get_pair gb (get_pair gc (get_pair gd (get_pair ge (get_pair gf gg)))))) pr r0
       (\<lambda>s (a, b, c, d, e, f, g). m7 s a b c d e f g)"
  by (intro conjI call_args_pairs handler_pairs)

end
