(* ===== verification/Rpc_Retry.thy ===== *)
theory Rpc_Retry
  imports Remote_Extent
begin

text \<open>
  Calls over connections that break: the retry loop of \<open>rpcc::call1\<close> composed with the server. In every round the request
  is transmitted on the client's connection or, when that is dead, on a new one (\<open>rpcc::get_refconn\<close>); the connection
  may break before the request has arrived or before the reply has. The server recognises a request it has seen and
  replays the recorded reply, so however many rounds it takes, the method runs once and the call returns its
  result; a call that gets no reply at all times out and has run the method at most once. In lossy mode the client keeps
  a request of a finished call and sends it again when the server must have dropped its reply: the server refuses it.
  The deadlines that limit the number of rounds are the subject of \<open>call1_loop\<close>.
\<close>

section \<open>Rounds\<close>

datatype fate = RequestLost | ReplyLost | Answered

lemma fates_lost: "S \<subseteq> {RequestLost} \<longleftrightarrow> Answered \<notin> S \<and> ReplyLost \<notin> S"
proof
  assume "Answered \<notin> S \<and> ReplyLost \<notin> S"
  moreover have "x = RequestLost \<or> x = ReplyLost \<or> x = Answered" for x by (cases x) simp_all
  ultimately show "S \<subseteq> {RequestLost}" by blast
qed auto

text \<open>The connection of a round, as the server sees it, and its end.\<close>

definition connected :: "nat \<Rightarrow> 's world \<Rightarrow> 's world" where
  "connected c w = (if heap w c = None then accepted c w else w)"

definition broken :: "nat \<Rightarrow> 's world \<Rightarrow> 's world" where
  "broken c w = (case heap w c of None \<Rightarrow> w | Some k \<Rightarrow> w\<lparr>heap := (heap w)(c \<mapsto> closeconn k)\<rparr>)"

definition retry_round :: "(nat \<Rightarrow> byte) \<Rightarrow> nat \<Rightarrow> fate \<Rightarrow> byte list \<Rightarrow> rpcc \<Rightarrow> 's world \<Rightarrow> (rpcc \<times> 's world) res" where
  "retry_round mem c fate pkt cl w =
     (let w0 = connected c w
      in case call1_transmit pkt True cl of
           (pkts, cl) \<Rightarrow>
             (case fate of
                RequestLost \<Rightarrow> Inr (cl, broken c w0)
              | ReplyLost \<Rightarrow> bindE (deliver_all mem c pkts w0) (\<lambda>w. Inr (cl, broken c w))
              | Answered \<Rightarrow>
                  bindE (deliver_all mem c pkts w0) (\<lambda>w.
                  bindE (receive_all (sent_on c w0 w) cl) (\<lambda>cl. Inr (cl, w)))))"

lemma receive_all_append: "receive_all (ps @ qs) cl = bindE (receive_all ps cl) (receive_all qs)"
  by (induction ps arbitrary: cl) (auto simp: bindE_def split: sum.splits)

text \<open>The loop is left when the call is done; a client that does not retransmit only waits for the deadline after the first
  round.\<close>

definition call_done :: "u32 \<Rightarrow> rpcc \<Rightarrow> bool" where
  "call_done xid cl \<longleftrightarrow> (case cl_calls cl xid of None \<Rightarrow> False | Some ca \<Rightarrow> ca_done ca)"

fun retry_rounds :: "(nat \<Rightarrow> byte) \<Rightarrow> u32 \<Rightarrow> (nat \<times> fate) list \<Rightarrow> byte list \<Rightarrow> rpcc \<Rightarrow> 's world \<Rightarrow> (rpcc \<times> 's world) res" where
  "retry_rounds mem xid [] pkt cl w = Inr (cl, w)"
| "retry_rounds mem xid ((c, fate) # rounds) pkt cl w =
     bindE (retry_round mem c fate pkt cl w) (\<lambda>(cl, w).
       if call_done xid cl \<or> \<not> cl_retrans cl then Inr (cl, w) else retry_rounds mem xid rounds pkt cl w)"

definition call1_retry ::
  "(nat \<Rightarrow> byte) \<Rightarrow> int \<Rightarrow> (nat \<times> fate) list \<Rightarrow> u32 \<Rightarrow> marshall \<Rightarrow> rpcc \<Rightarrow> 's world \<Rightarrow>
     (int \<times> unmarshall \<times> rpcc \<times> 's world) res" where
  "call1_retry mem i0 rounds proc req cl w =
     bindE (call1_begin i0 proc req cl) (\<lambda>r.
       case r of
         Inl e \<Rightarrow> Inr (e, unmarshall_empty, cl, w)
       | Inr (xid, xid_rep, req', cl) \<Rightarrow>
           bindE (retry_rounds mem xid rounds (packet req') cl w) (\<lambda>(cl, w).
             case call1_end xid cl of
               None \<Rightarrow> Inl NullDeref
             | Some (ca, cl) \<Rightarrow> Inr (call1_result ca, ca_un ca, call1_dup ca (packet req') xid_rep cl, w)))"

definition call_retry ::
  "(unmarshall \<Rightarrow> ('r \<times> unmarshall) res) \<Rightarrow> 'r \<Rightarrow> (nat \<Rightarrow> byte) \<Rightarrow> int \<Rightarrow> (nat \<times> fate) list \<Rightarrow> u32 \<Rightarrow> marshall res \<Rightarrow> rpcc \<Rightarrow>
     's world \<Rightarrow> (int \<times> 'r \<times> rpcc \<times> 's world) res" where
  "call_retry get r0 mem i0 rounds proc args cl w =
     bindE args (\<lambda>req.
     bindE (call1_retry mem i0 rounds proc req cl w) (\<lambda>(intret, u, cl, w).
     bindE (call_m_finish get r0 intret u) (\<lambda>(intret, r). Inr (intret, r, cl, w))))"

section \<open>Connections of the rounds\<close>

text \<open>The first round may use a connection that is there; the others are new.\<close>

definition usable :: "'s world \<Rightarrow> nat \<Rightarrow> bool" where
  "usable w c \<longleftrightarrow> (case heap w c of None \<Rightarrow> True | Some k \<Rightarrow> \<not> c_dead k \<and> c_refno k \<ge> 1 \<and> cb_buf (c_wpdu k) = None)"

fun rounds_ok :: "'s world \<Rightarrow> (nat \<times> fate) list \<Rightarrow> bool" where
  "rounds_ok w [] = True"
| "rounds_ok w ((c, fate) # rounds) \<longleftrightarrow> usable w c \<and> c \<notin> fst ` set rounds \<and> distinct (map fst rounds) \<and>
     (\<forall>d\<in>fst ` set rounds. heap w d = None)"

lemma rounds_ok_next:
  assumes "rounds_ok w ((c, fate) # rounds)" "\<And>d. d \<noteq> c \<Longrightarrow> heap w d = None \<Longrightarrow> heap w' d = None"
  shows "rounds_ok w' rounds"
proof -
  have "heap w' d = None" if "d \<in> fst ` set rounds" for d
    by (rule assms(2)) (use assms(1) that in auto)
  moreover have "distinct (map fst rounds)" using assms(1) by simp
  ultimately show ?thesis by (cases "(w', rounds)" rule: rounds_ok.cases) (auto simp: usable_def)
qed

lemma connected_held:
  assumes "usable w c" "saved_ok w clt"
  shows "conn_held (connected c w) clt c 1" "srv (connected c w) = srv w" "app (connected c w) = app w"
    "\<And>d. d \<noteq> c \<Longrightarrow> heap (connected c w) d = heap w d"
  using assms
  by (auto simp: connected_def accepted_def conn_held_def saved_ok_def usable_def connection_new_def charbuf_empty_def
      split: option.splits)

lemma broken_saved:
  assumes "conn_held w clt c n"
  shows "saved_ok (broken c w) clt" "srv (broken c w) = srv w" "app (broken c w) = app w" "\<And>d. d \<noteq> c \<Longrightarrow> heap (broken c w) d = heap w d"
  using assms by (auto simp: broken_def conn_held_def saved_ok_def closeconn_def split: option.splits)

section \<open>The server over the rounds\<close>

text \<open>The request \<open>h\<close> has been executed or not: \<open>s\<close> and \<open>s'\<close> are the states of the application before and after. Replies to
  requests below \<open>d\<close> have been dropped, and once \<open>h\<close> is executed those below the number it acknowledges.\<close>

definition exec_phase :: "(u32 \<times> u32) set \<Rightarrow> req_header \<Rightarrow> int \<Rightarrow> int \<Rightarrow> byte list \<Rightarrow> 's \<Rightarrow> 's \<Rightarrow> bool \<Rightarrow> 's world \<Rightarrow> bool" where
  "exec_phase A h d ret res s s' executed w \<longleftrightarrow> sv_reachable (srv w) \<and> saved_ok w (rq_clt_nonce h) \<and>
     front_at d (rq_clt_nonce h) (sv_reply_window (srv w)) \<and>
     (if executed
      then app w = s' \<and> win_inv (insert (rq_clt_nonce h, rq_xid h) A) (sv_reply_window (srv w)) \<and>
        front_at (uint (rq_xid_rep h)) (rq_clt_nonce h) (sv_reply_window (srv w)) \<and>
        (\<exists>pkt. checkduplicate_and_update (sv_reply_window (srv w)) (rq_clt_nonce h) (rq_xid h) (rq_xid_rep h) =
             (DONE pkt, sv_reply_window (srv w)) \<and>
           carries_reply ((!) pkt) (int (length pkt)) \<lparr>rp_xid = rq_xid h, rp_ret = word_of_int ret\<rparr> res)
      else app w = s \<and> win_inv A (sv_reply_window (srv w)) \<and>
        fst (checkduplicate_and_update (sv_reply_window (srv w)) (rq_clt_nonce h) (rq_xid h) (rq_xid_rep h)) = NEW)"

lemma exec_phase_cong:
  "sv_reachable (srv w') = sv_reachable (srv w) \<Longrightarrow> sv_reply_window (srv w') = sv_reply_window (srv w) \<Longrightarrow> app w' = app w \<Longrightarrow>
    saved_ok w' (rq_clt_nonce h) \<Longrightarrow> exec_phase A h d ret res s s' e w \<Longrightarrow> exec_phase A h d ret res s s' e w'"
  by (simp add: exec_phase_def)

text \<open>What a packet of client \<open>clt\<close> on connection \<open>c\<close> leaves alone.\<close>

definition same_windows :: "u32 \<Rightarrow> reply_window \<Rightarrow> reply_window \<Rightarrow> bool" where
  "same_windows clt win win' \<longleftrightarrow> (\<forall>x. x \<noteq> clt \<longrightarrow> window_of win' x = window_of win x)"

lemma same_windows_new: "checkduplicate_and_update win clt xid rep = (st, win') \<Longrightarrow> same_windows clt win (add_reply win' clt xid b)"
  by (auto simp: checkduplicate_and_update_def add_reply_def same_windows_def split: prod.splits)

definition round_step :: "u32 \<Rightarrow> nat \<Rightarrow> 's world \<Rightarrow> 's world \<Rightarrow> bool" where
  "round_step clt c w w' \<longleftrightarrow> held_step clt c 1 w w' \<and> sv_nonce (srv w') = sv_nonce (srv w) \<and> sv_procs (srv w') = sv_procs (srv w) \<and>
     same_windows clt (sv_reply_window (srv w)) (sv_reply_window (srv w'))"

lemma round_step_trans: "round_step clt c w w1 \<Longrightarrow> round_step clt c w1 w2 \<Longrightarrow> round_step clt c w w2"
  by (auto simp: round_step_def held_step_def same_windows_def)

text \<open>A packet that arrives on a connection in use is dispatched with one more reference to the connection.\<close>

lemma deliver_held:
  assumes "conn_held w clt c 1" "sv_reachable (srv w)"
  obtains w1 where "\<And>p. deliver mem c p w = dispatch mem c ((!) (wire p)) (int (length (wire p))) w1"
    "conn_held w1 clt c (1 + 1)" "srv w1 = srv w" "app w1 = app w" "out w1 = out w"
    "\<And>w' win. held_step clt c 1 w1 w' \<Longrightarrow> same_server w1 w' win \<Longrightarrow> same_windows clt (sv_reply_window (srv w)) win \<Longrightarrow> round_step clt c w w'"
proof -
  obtain k where k: "heap w c = Some k" using assms(1) by (auto simp: conn_held_def split: option.splits)
  define w1 where "w1 = w\<lparr>heap := (heap w)(c \<mapsto> incref k)\<rparr>"
  have "conn_held w1 clt c (1 + 1)"
    using assms(1) k by (auto simp: conn_held_def saved_ok_def w1_def incref_def split: option.splits)
  then show ?thesis
    using deliver_dispatch [OF k assms(2), folded w1_def]
    by (intro that [of w1]) (simp_all add: w1_def round_step_def held_step_def same_server_def)
qed

text \<open>A copy of the request is dispatched: the first is executed, the others are answered from the record.\<close>

lemma dispatch_phase:
  assumes ph: "exec_phase A h d ret res s s' e w" and held: "conn_held w (rq_clt_nonce h) c (1 + 1)" and sv: "servable w h f"
    and req: "carries_request b sz h args" and rep: "rq_xid_rep h \<le> rq_xid h" and f: "handler_gives f args s ret res s'" "0 \<le> ret"
  obtains w' pkt win where "dispatch mem c b sz w = Inr w'" "app w' = s'" "out w' = out w @ [(c, pkt)]"
    "held_step (rq_clt_nonce h) c 1 w w'" "same_server w w' win"
    "carries_reply ((!) pkt) (int (length pkt)) \<lparr>rp_xid = rq_xid h, rp_ret = word_of_int ret\<rparr> res"
    "win_inv (insert (rq_clt_nonce h, rq_xid h) A) win"
    "checkduplicate_and_update win (rq_clt_nonce h) (rq_xid h) (rq_xid_rep h) = (DONE pkt, win)"
    "front_at d (rq_clt_nonce h) win" "front_at (uint (rq_xid_rep h)) (rq_clt_nonce h) win"
    "same_windows (rq_clt_nonce h) (sv_reply_window (srv w)) win"
proof (cases e)
  case True
  let ?win = "sv_reply_window (srv w)"
  have ready: "conn_ready w (rq_clt_nonce h) c" by (rule conn_held_ready [OF held]) simp
  obtain pkt where p: "app w = s'" "win_inv (insert (rq_clt_nonce h, rq_xid h) A) ?win"
    "checkduplicate_and_update ?win (rq_clt_nonce h) (rq_xid h) (rq_xid_rep h) = (DONE pkt, ?win)"
    "carries_reply ((!) pkt) (int (length pkt)) \<lparr>rp_xid = rq_xid h, rp_ret = word_of_int ret\<rparr> res"
    "front_at d (rq_clt_nonce h) ?win" "front_at (uint (rq_xid_rep h)) (rq_clt_nonce h) ?win"
    using ph True by (auto simp: exec_phase_def)
  obtain w' where "dispatch mem c b sz w = Inr w'" "app w' = app w" "out w' = out w @ [(c, pkt)]" "same_server w w' ?win"
    "\<And>n. conn_held w (rq_clt_nonce h) c (n + 1) \<Longrightarrow> 1 \<le> n \<Longrightarrow> held_step (rq_clt_nonce h) c n w w'"
    by (rule dispatch_duplicate [OF req sv ready p(3), of mem]) (rule that)
  with p held show ?thesis by (intro that [of w' pkt ?win]) (simp_all add: same_windows_def)
next
  case False
  then obtain win where p: "app w = s" "win_inv A (sv_reply_window (srv w))"
    "checkduplicate_and_update (sv_reply_window (srv w)) (rq_clt_nonce h) (rq_xid h) (rq_xid_rep h) = (NEW, win)"
    "front_at d (rq_clt_nonce h) (sv_reply_window (srv w))"
    using ph by (cases "checkduplicate_and_update (sv_reply_window (srv w)) (rq_clt_nonce h) (rq_xid h) (rq_xid_rep h)")
      (auto simp: exec_phase_def)
  have ready: "conn_ready w (rq_clt_nonce h) c" by (rule conn_held_ready [OF held]) simp
  obtain w' pkt where "dispatch mem c b sz w = Inr w'" "app w' = s'" "out w' = out w @ [(c, pkt)]"
    "carries_reply ((!) pkt) (int (length pkt)) \<lparr>rp_xid = rq_xid h, rp_ret = word_of_int ret\<rparr> res"
    "same_server w w' (add_reply win (rq_clt_nonce h) (rq_xid h) pkt)"
    "\<And>n. conn_held w (rq_clt_nonce h) c (n + 1) \<Longrightarrow> 1 \<le> n \<Longrightarrow> held_step (rq_clt_nonce h) c n w w'"
    by (rule dispatch_new [OF req sv ready p(3) f(1) [folded p(1)] f(2), of mem]) (rule that)
  moreover have "win_inv (insert (rq_clt_nonce h, rq_xid h) A) (add_reply win (rq_clt_nonce h) (rq_xid h) pkt)"
    using rw.admit_new [OF p(2,3)] rep by (auto intro: rw.keep_answer)
  ultimately show ?thesis
    using checkdup_answered [OF p(2,3) rep] held front_new [OF p(2,3) rep] p(4) same_windows_new [OF p(3)]
    by (intro that [of w' pkt "add_reply win (rq_clt_nonce h) (rq_xid h) pkt"]) simp_all
qed

lemma deliver_phase:
  assumes ph: "exec_phase A h d ret res s s' e w" and held: "conn_held w (rq_clt_nonce h) c 1" and sv: "servable w h f"
    and req: "carries_request b sz h args" "p = map b [0..<nat sz]" and rep: "rq_xid_rep h \<le> rq_xid h"
    and f: "handler_gives f args s ret res s'" "0 \<le> ret"
  obtains w' pkt where "deliver mem c p w = Inr w'" "out w' = out w @ [(c, pkt)]" "exec_phase A h d ret res s s' True w'"
    "carries_reply ((!) (wire pkt)) (int (length (wire pkt))) \<lparr>rp_xid = rq_xid h, rp_ret = word_of_int ret\<rparr> res"
    "round_step (rq_clt_nonce h) c w w'"
proof -
  have r: "sv_reachable (srv w)" using ph by (simp add: exec_phase_def)
  obtain w1 where w1: "\<And>p. deliver mem c p w = dispatch mem c ((!) (wire p)) (int (length (wire p))) w1"
    "conn_held w1 (rq_clt_nonce h) c (1 + 1)" "srv w1 = srv w" "app w1 = app w" "out w1 = out w"
    "\<And>w' win. held_step (rq_clt_nonce h) c 1 w1 w' \<Longrightarrow> same_server w1 w' win \<Longrightarrow>
      same_windows (rq_clt_nonce h) (sv_reply_window (srv w)) win \<Longrightarrow> round_step (rq_clt_nonce h) c w w'"
    using held r by (rule deliver_held [where mem = mem]) (rule that)
  have ph1: "exec_phase A h d ret res s s' e w1" and sv1: "servable w1 h f"
    using ph sv w1(2-4) by (simp_all add: exec_phase_def servable_def conn_held_def)
  obtain w' pkt win where d: "dispatch mem c ((!) (wire p)) (int (length (wire p))) w1 = Inr w'" "app w' = s'"
    "out w' = out w1 @ [(c, pkt)]" "held_step (rq_clt_nonce h) c 1 w1 w'" "same_server w1 w' win"
    "carries_reply ((!) pkt) (int (length pkt)) \<lparr>rp_xid = rq_xid h, rp_ret = word_of_int ret\<rparr> res"
    "win_inv (insert (rq_clt_nonce h, rq_xid h) A) win"
    "checkduplicate_and_update win (rq_clt_nonce h) (rq_xid h) (rq_xid_rep h) = (DONE pkt, win)"
    "front_at d (rq_clt_nonce h) win" "front_at (uint (rq_xid_rep h)) (rq_clt_nonce h) win"
    "same_windows (rq_clt_nonce h) (sv_reply_window (srv w1)) win"
    by (rule dispatch_phase [OF ph1 w1(2) sv1 wire_request [OF req] rep f, of mem]) (rule that)
  have "saved_ok w' (rq_clt_nonce h)" using d(4) by (simp add: held_step_def conn_held_def)
  then have "exec_phase A h d ret res s s' True w'" using d(2,5-10) r w1(3) by (auto simp: exec_phase_def same_server_def)
  then show ?thesis
    using d(1,3) w1(1,5) w1(6) [OF d(4,5)] d(11) w1(3) wire_reply [OF d(6)] by (intro that [of w' pkt]) simp_all
qed

text \<open>A request that is sent again although its reply has been acknowledged is refused.\<close>

lemma deliver_old_copy:
  assumes ph: "exec_phase A h d ret res s s' e w" and held: "conn_held w (rq_clt_nonce h) c 1" and sv: "servable w h2 f2"
    and req: "carries_request b sz h2 args" "p = map b [0..<nat sz]" and old: "rq_clt_nonce h2 = rq_clt_nonce h" "uint (rq_xid h2) < d"
  obtains w' pkt where "deliver mem c p w = Inr w'" "out w' = out w @ [(c, pkt)]" "exec_phase A h d ret res s s' e w'"
    "carries_reply ((!) (wire pkt)) (int (length (wire pkt))) \<lparr>rp_xid = rq_xid h2, rp_ret = word_of_int atmostonce_failure\<rparr> []"
    "round_step (rq_clt_nonce h) c w w'"
proof -
  have r: "sv_reachable (srv w)" using ph by (simp add: exec_phase_def)
  obtain w1 where w1: "\<And>p. deliver mem c p w = dispatch mem c ((!) (wire p)) (int (length (wire p))) w1"
    "conn_held w1 (rq_clt_nonce h) c (1 + 1)" "srv w1 = srv w" "app w1 = app w" "out w1 = out w"
    "\<And>w' win. held_step (rq_clt_nonce h) c 1 w1 w' \<Longrightarrow> same_server w1 w' win \<Longrightarrow>
      same_windows (rq_clt_nonce h) (sv_reply_window (srv w)) win \<Longrightarrow> round_step (rq_clt_nonce h) c w w'"
    using held r by (rule deliver_held [where mem = mem]) (rule that)
  have sv1: "servable w1 h2 f2" using sv w1(3) by (simp add: servable_def)
  have ready: "conn_ready w1 (rq_clt_nonce h2) c" unfolding old(1) by (rule conn_held_ready [OF w1(2)]) simp
  have win: "win_inv (if e then insert (rq_clt_nonce h, rq_xid h) A else A) (sv_reply_window (srv w))"
    "front_at d (rq_clt_nonce h) (sv_reply_window (srv w))"
    using ph by (simp_all add: exec_phase_def)
  have chk: "checkduplicate_and_update (sv_reply_window (srv w1)) (rq_clt_nonce h2) (rq_xid h2) (rq_xid_rep h2) =
      (FORGOTTEN, sv_reply_window (srv w1))"
    using front_forgotten [OF win old(2)] by (simp add: old(1) w1(3))
  obtain pkt where pkt: "header_reply mem (rq_xid h2) atmostonce_failure = Inr pkt"
    "carries_reply ((!) pkt) (int (length pkt)) \<lparr>rp_xid = rq_xid h2, rp_ret = word_of_int atmostonce_failure\<rparr> []"
    by (rule header_reply_ok)
  obtain w' where d: "dispatch mem c ((!) (wire p)) (int (length (wire p))) w1 = Inr w'" "app w' = app w1"
    "out w' = out w1 @ [(c, pkt)]" "same_server w1 w' (sv_reply_window (srv w1))"
    "\<And>n. conn_held w1 (rq_clt_nonce h2) c (n + 1) \<Longrightarrow> 1 \<le> n \<Longrightarrow> held_step (rq_clt_nonce h2) c n w1 w'"
    by (rule dispatch_seen [OF wire_request [OF req] sv1 ready chk, of pkt mem]) (use pkt(1) that in blast)+
  have held1: "held_step (rq_clt_nonce h) c 1 w1 w'" using d(5) [of 1] w1(2) by (simp add: old(1))
  have "saved_ok w' (rq_clt_nonce h)" using held1 by (simp add: held_step_def conn_held_def)
  then have "exec_phase A h d ret res s s' e w'"
    by (intro exec_phase_cong [OF _ _ _ _ ph]) (use d(2,4) w1(3,4) in \<open>simp_all add: same_server_def\<close>)
  then show ?thesis
    using d(1,3) w1(1,5) w1(6) [OF held1 d(4)] w1(3) wire_reply [OF pkt(2)] by (intro that [of w' pkt]) (simp_all add: same_windows_def)
qed

section \<open>The other clients\<close>

text \<open>\<open>I\<close> are the connections that belong to client \<open>clt\<close>.\<close>

definition own :: "nat set \<Rightarrow> u32 \<Rightarrow> 's world \<Rightarrow> bool" where
  "own I clt w \<longleftrightarrow> sv_conns (srv w) clt \<in> insert None (Some ` I)"

definition others_kept :: "nat set \<Rightarrow> u32 \<Rightarrow> 's world \<Rightarrow> 's world \<Rightarrow> bool" where
  "others_kept I clt w w' \<longleftrightarrow> (\<forall>d. d \<notin> I \<longrightarrow> heap w' d = heap w d) \<and> (\<forall>x. x \<noteq> clt \<longrightarrow> sv_conns (srv w') x = sv_conns (srv w) x) \<and>
     same_windows clt (sv_reply_window (srv w)) (sv_reply_window (srv w')) \<and> own I clt w'"

lemma others_kept_trans: "others_kept I clt w w1 \<Longrightarrow> others_kept I clt w1 w2 \<Longrightarrow> others_kept I clt w w2"
  by (simp add: others_kept_def same_windows_def)

lemma round_others: "round_step clt c w w' \<Longrightarrow> own I clt w \<Longrightarrow> c \<in> I \<Longrightarrow> others_kept I clt w w'"
  by (auto simp: round_step_def held_step_def others_kept_def own_def)

lemma heap_others: "own I clt w \<Longrightarrow> srv w' = srv w \<Longrightarrow> (\<And>d. d \<noteq> c \<Longrightarrow> heap w' d = heap w d) \<Longrightarrow> c \<in> I \<Longrightarrow> others_kept I clt w w'"
  by (simp add: others_kept_def own_def same_windows_def) metis

text \<open>The connections after some rounds: no new ones but theirs, and the one of the answered round is in use.\<close>

definition conns_after :: "nat set \<Rightarrow> u32 \<Rightarrow> (nat \<times> fate) list \<Rightarrow> 's world \<Rightarrow> 's world \<Rightarrow> bool" where
  "conns_after I clt rounds w w' \<longleftrightarrow> others_kept I clt w w' \<and>
     (\<forall>d. d \<notin> fst ` set rounds \<longrightarrow> heap w d = None \<longrightarrow> heap w' d = None) \<and>
     (Answered \<in> snd ` set rounds \<longrightarrow> (\<exists>c. (c, Answered) \<in> set rounds \<and> usable w' c))"

lemma held_usable: "conn_held w clt c 1 \<Longrightarrow> usable w c"
  by (auto simp: conn_held_def usable_def split: option.splits)

lemma conns_after_Cons:
  assumes "conns_after I clt rounds w1 w'" "others_kept I clt w w1" "\<And>d. d \<noteq> c \<Longrightarrow> heap w d = None \<Longrightarrow> heap w1 d = None" "fate \<noteq> Answered"
  shows "conns_after I clt ((c, fate) # rounds) w w'"
  using assms others_kept_trans [OF assms(2)] by (fastforce simp: conns_after_def)

section \<open>The client over the rounds\<close>

text \<open>What the rounds of a call leave alone: everything but the window and the request kept for the lossy mode, which may be
  sent and cleared.\<close>

definition same_config :: "rpcc \<Rightarrow> rpcc \<Rightarrow> bool" where
  "same_config cl cl' \<longleftrightarrow>
     cl_clt_nonce cl' = cl_clt_nonce cl \<and> cl_srv_nonce cl' = cl_srv_nonce cl \<and> cl_bind_done cl' = cl_bind_done cl \<and>
     cl_lossytest cl' = cl_lossytest cl \<and> cl_retrans cl' = cl_retrans cl \<and> cl_reachable cl' = cl_reachable cl \<and>
     cl_destroy_wait cl' = cl_destroy_wait cl"

definition kept :: "rpcc \<Rightarrow> rpcc \<Rightarrow> bool" where
  "kept cl cl' \<longleftrightarrow> same_config cl cl' \<and> cl_xid cl' = cl_xid cl \<and> cl_xid_rep_done cl' = cl_xid_rep_done cl \<and>
     (cl_dup_req cl' = cl_dup_req cl \<or> cl_dup_req cl' = request_clear)"

lemma kept_trans: "kept a b \<Longrightarrow> kept b c \<Longrightarrow> kept a c"
  by (auto simp: kept_def same_config_def)

lemma same_client_kept: "same_client cl cl' \<Longrightarrow> cl_xid cl' = cl_xid cl \<Longrightarrow> kept cl cl'"
  by (simp add: kept_def same_config_def same_client_def)

text \<open>The request that a client in lossy mode keeps is one of its calls that are over.\<close>

definition dup_ok :: "u32 set \<Rightarrow> rpcc \<Rightarrow> 's world \<Rightarrow> bool" where
  "dup_ok R cl w \<longleftrightarrow> (request_valid (cl_dup_req cl) \<longrightarrow>
     (\<exists>b sz h args f. rq_buf (cl_dup_req cl) = map b [0..<nat sz] \<and> carries_request b sz h args \<and>
        rq_clt_nonce h = cl_clt_nonce cl \<and> rq_no (cl_dup_req cl) = uint (rq_xid h) \<and> rq_xid h \<in> R \<and> servable w h f))"

lemma dup_ok_kept:
  assumes "dup_ok R cl w" "kept cl cl'" "sv_nonce (srv w') = sv_nonce (srv w)" "sv_procs (srv w') = sv_procs (srv w)"
  shows "dup_ok R cl' w'"
proof -
  have "servable w' h f = servable w h f" for h f using assms(3,4) by (simp add: servable_def)
  moreover have "cl_clt_nonce cl' = cl_clt_nonce cl" using assms(2) by (simp add: kept_def same_config_def)
  moreover have "cl_dup_req cl' = cl_dup_req cl" if "request_valid (cl_dup_req cl')"
    using that assms(2) by (auto simp: kept_def request_clear_def request_valid_def)
  ultimately show ?thesis using assms(1) by (cases "request_valid (cl_dup_req cl')") (simp_all add: dup_ok_def)
qed

text \<open>A client with one pending call \<open>xid\<close>.\<close>

definition pending :: "u32 set \<Rightarrow> u32 \<Rightarrow> caller \<Rightarrow> rpcc \<Rightarrow> bool" where
  "pending R xid ca cl \<longleftrightarrow> client_inv R cl \<and> cl_calls cl = [xid \<mapsto> ca] \<and> \<not> ca_done ca \<and> xid < cl_xid cl \<and> cl_reachable cl \<and>
     cl_retrans cl"

text \<open>A reply to a call that is over changes nothing.\<close>

lemma old_reply_ignored:
  assumes "pending R xid ca0 cl" "carries_reply b sz \<lparr>rp_xid = x, rp_ret = r\<rparr> res" "x \<in> R"
  obtains cl' where "rpcc_got_pdu b sz cl = Inr cl'" "pending R xid ca0 cl'" "kept cl cl'"
proof -
  have cl: "client_inv R cl" "cl_calls cl = [xid \<mapsto> ca0]" "\<not> ca_done ca0" using assms(1) by (simp_all add: pending_def)
  then have x: "x \<noteq> xid" "x < cl_xid cl" using assms(3) by (auto simp: client_inv_def)
  have lt: "rp_xid \<lparr>rp_xid = x, rp_ret = r\<rparr> < cl_xid cl" using x(2) by simp
  obtain cl' where g: "rpcc_got_pdu b sz cl = Inr cl'" "client_inv (insert x R) cl'" "cl_xid cl' = cl_xid cl"
    "\<And>y. y \<noteq> x \<Longrightarrow> cl_calls cl' y = cl_calls cl y" "cl_calls cl' x = None"
    by (rule got_pdu_ok [OF cl(1) assms(2) lt]) (use cl(2) x(1) that in fastforce)
  have "cl_calls cl' y = cl_calls cl y" for y using g(4,5) cl(2) x(1) by (cases "y = x") simp_all
  then have calls: "cl_calls cl' = cl_calls cl" by blast
  note same = got_pdu_same [OF g(1)]
  show ?thesis
  proof (rule that [OF g(1) _ same_client_kept [OF same g(3)]])
    show "pending R xid ca0 cl'"
      using assms(1) g(2,3) same calls assms(3) by (simp add: pending_def same_client_def insert_absorb)
  qed
qed

text \<open>One transmission and what the server makes of it. The server may first have to refuse a request that the client sends
  again on purpose.\<close>

lemma transmit_delivered:
  assumes pend: "pending R (rq_xid h) ca0 cl" and dup: "dup_ok R cl w" and clt: "rq_clt_nonce h = cl_clt_nonce cl"
    and ph: "exec_phase A h (cl_xid_rep_done cl) ret res s s' e w" and held: "conn_held w (rq_clt_nonce h) c 1" and sv: "servable w h f"
    and req: "carries_request b sz h args" "p = map b [0..<nat sz]" and rep: "rq_xid_rep h \<le> rq_xid h"
    and f: "handler_gives f args s ret res s'" "0 \<le> ret"
  obtains pkts cl1 w1 olds pkt cl2 where "call1_transmit p True cl = (pkts, cl1)" "deliver_all mem c pkts w = Inr w1"
    "sent_on c w w1 = olds @ [pkt]" "receive_all olds cl1 = Inr cl2" "pending R (rq_xid h) ca0 cl1" "pending R (rq_xid h) ca0 cl2"
    "kept cl cl1" "kept cl1 cl2" "exec_phase A h (cl_xid_rep_done cl) ret res s s' True w1"
    "carries_reply ((!) (wire pkt)) (int (length (wire pkt))) \<lparr>rp_xid = rq_xid h, rp_ret = word_of_int ret\<rparr> res"
    "round_step (rq_clt_nonce h) c w w1"
proof (cases "request_valid (cl_dup_req cl) \<and> cl_xid_rep_done cl > rq_no (cl_dup_req cl)")
  case True
  then obtain b2 sz2 h2 args2 f2 where h2: "rq_buf (cl_dup_req cl) = map b2 [0..<nat sz2]" "carries_request b2 sz2 h2 args2"
    "rq_clt_nonce h2 = rq_clt_nonce h" "uint (rq_xid h2) < cl_xid_rep_done cl" "rq_xid h2 \<in> R" "servable w h2 f2"
    using dup clt by (auto simp: dup_ok_def)
  let ?q = "rq_buf (cl_dup_req cl)" and ?cl = "cl\<lparr>cl_dup_req := request_clear\<rparr>"
  have tr: "call1_transmit p True cl = ([?q, p], ?cl)" using True pend by (simp add: pending_def call1_transmit_def)
  have pend1: "pending R (rq_xid h) ca0 ?cl" using pend by (simp add: pending_def client_inv_def)
  have kept1: "kept cl ?cl" by (simp add: kept_def same_config_def)
  obtain w1 old where d1: "deliver mem c ?q w = Inr w1" "out w1 = out w @ [(c, old)]" "exec_phase A h (cl_xid_rep_done cl) ret res s s' e w1"
    "carries_reply ((!) (wire old)) (int (length (wire old))) \<lparr>rp_xid = rq_xid h2, rp_ret = word_of_int atmostonce_failure\<rparr> []"
    "round_step (rq_clt_nonce h) c w w1"
    by (rule deliver_old_copy [OF ph held h2(6,2,1,3,4), of mem]) (rule that)
  have held1: "conn_held w1 (rq_clt_nonce h) c 1" and sv1: "servable w1 h f"
    using d1(5) sv by (simp_all add: round_step_def held_step_def servable_def)
  obtain w2 pkt where d2: "deliver mem c p w1 = Inr w2" "out w2 = out w1 @ [(c, pkt)]" "exec_phase A h (cl_xid_rep_done cl) ret res s s' True w2"
    "carries_reply ((!) (wire pkt)) (int (length (wire pkt))) \<lparr>rp_xid = rq_xid h, rp_ret = word_of_int ret\<rparr> res"
    "round_step (rq_clt_nonce h) c w1 w2"
    by (rule deliver_phase [OF d1(3) held1 sv1 req rep f, of mem]) (rule that)
  obtain cl2 where g: "rpcc_got_pdu ((!) (wire old)) (int (length (wire old))) ?cl = Inr cl2" "pending R (rq_xid h) ca0 cl2" "kept ?cl cl2"
    by (rule old_reply_ignored [OF pend1 d1(4) h2(5)]) (rule that)
  show ?thesis
    by (rule that [OF tr _ _ _ pend1 g(2) kept1 g(3) d2(3,4) round_step_trans [OF d1(5) d2(5)], of "[old]"])
       (use d1(1,2) d2(1,2) g(1) in \<open>simp_all add: sent_on_def\<close>)
next
  case False
  then have tr: "call1_transmit p True cl = ([p], cl)" using pend by (auto simp: pending_def call1_transmit_def)
  have kept1: "kept cl cl" by (simp add: kept_def same_config_def)
  obtain w2 pkt where d2: "deliver mem c p w = Inr w2" "out w2 = out w @ [(c, pkt)]" "exec_phase A h (cl_xid_rep_done cl) ret res s s' True w2"
    "carries_reply ((!) (wire pkt)) (int (length (wire pkt))) \<lparr>rp_xid = rq_xid h, rp_ret = word_of_int ret\<rparr> res"
    "round_step (rq_clt_nonce h) c w w2"
    by (rule deliver_phase [OF ph held sv req rep f, of mem]) (rule that)
  show ?thesis
    by (rule that [OF tr _ _ _ pend pend kept1 kept1 d2(3-5), of "[]"]) (use d2(1,2) in \<open>simp_all add: sent_on_def\<close>)
qed

text \<open>All rounds. When one is answered, the reply finds the client with the call still pending.\<close>

definition rounds_done ::
  "u32 set \<Rightarrow> req_header \<Rightarrow> caller \<Rightarrow> int \<Rightarrow> byte list \<Rightarrow> fate set \<Rightarrow> bool \<Rightarrow> bool \<Rightarrow> rpcc \<Rightarrow> rpcc \<Rightarrow> bool" where
  "rounds_done R h ca0 ret res fates e e' cl cl' \<longleftrightarrow>
     (if Answered \<in> fates
      then e' \<and> (\<exists>pkt cl1. pending R (rq_xid h) ca0 cl1 \<and> kept cl cl1 \<and>
        rpcc_got_pdu ((!) (wire pkt)) (int (length (wire pkt))) cl1 = Inr cl' \<and>
        carries_reply ((!) (wire pkt)) (int (length (wire pkt))) \<lparr>rp_xid = rq_xid h, rp_ret = word_of_int ret\<rparr> res)
      else pending R (rq_xid h) ca0 cl' \<and> kept cl cl' \<and> e' = (e \<or> ReplyLost \<in> fates))"

lemma retry_rounds_ok:
  assumes req: "carries_request b sz h args" "p = map b [0..<nat sz]"
    and rep: "rq_xid_rep h \<le> rq_xid h" and f: "handler_gives f args s ret res s'" "0 \<le> ret" "ret < 2 ^ 31"
  shows "\<lbrakk>pending R (rq_xid h) ca0 cl; dup_ok R cl w; cl_clt_nonce cl = rq_clt_nonce h; cl_xid_rep_done cl = d;
      exec_phase A h d ret res s s' e w; servable w h f; rounds_ok w rounds; own I (rq_clt_nonce h) w; fst ` set rounds \<subseteq> I\<rbrakk> \<Longrightarrow>
    \<exists>cl' w' e'. retry_rounds mem (rq_xid h) rounds p cl w = Inr (cl', w') \<and> exec_phase A h d ret res s s' e' w' \<and>
      sv_nonce (srv w') = sv_nonce (srv w) \<and> sv_procs (srv w') = sv_procs (srv w) \<and>
      rounds_done R h ca0 ret res (snd ` set rounds) e e' cl cl' \<and> conns_after I (rq_clt_nonce h) rounds w w'"
proof (induction rounds arbitrary: e w cl)
  case Nil
  then show ?case
    by (auto simp: rounds_done_def kept_def same_config_def conns_after_def others_kept_def same_windows_def)
next
  case (Cons r rounds)
  obtain c fate where r: "r = (c, fate)" by (cases r)
  let ?n = "rq_clt_nonce h" and ?P = "exec_phase A h d ret res s s'"
  have us: "usable w c" "saved_ok w ?n" using Cons.prems(5,7) by (simp_all add: r exec_phase_def)
  note con = connected_held [OF us]
  have saved: "saved_ok (connected c w) ?n" using con(1) by (simp add: conn_held_def)
  have ph0: "?P e (connected c w)" by (rule exec_phase_cong [OF _ _ con(3) saved Cons.prems(5)]) (simp_all add: con(2))
  have sv0: "servable (connected c w) h f" "dup_ok R cl (connected c w)"
    using Cons.prems(2,6) con(2) by (simp_all add: servable_def dup_ok_def)
  obtain pkts cl1 w1 olds pkt cl2 where d: "call1_transmit p True cl = (pkts, cl1)" "deliver_all mem c pkts (connected c w) = Inr w1"
    "sent_on c (connected c w) w1 = olds @ [pkt]" "receive_all olds cl1 = Inr cl2" "pending R (rq_xid h) ca0 cl1" "pending R (rq_xid h) ca0 cl2"
    "kept cl cl1" "kept cl1 cl2" "?P True w1"
    "carries_reply ((!) (wire pkt)) (int (length (wire pkt))) \<lparr>rp_xid = rq_xid h, rp_ret = word_of_int ret\<rparr> res"
    "round_step ?n c (connected c w) w1"
    by (rule transmit_delivered [OF Cons.prems(1) sv0(2) Cons.prems(3) [symmetric] ph0 [folded Cons.prems(4)] con(1) sv0(1) req rep f(1,2), of mem, unfolded Cons.prems(4)])
       (rule that)
  have held1: "conn_held w1 ?n c 1" using d(11) by (simp add: round_step_def held_step_def)
  have cI: "c \<in> I" using Cons.prems(9) by (simp add: r)
  have fr0: "others_kept I ?n w (connected c w)" by (rule heap_others [OF Cons.prems(8) con(2,4) cI])
  have "own I ?n (connected c w)" using fr0 by (simp add: others_kept_def)
  then have fr1: "others_kept I ?n w w1" using others_kept_trans [OF fr0 round_others [OF d(11)]] cI by blast
  have go_on: ?case
    if fate: "fate \<noteq> Answered" and w2: "retry_round mem c fate p cl w = Inr (cl1, w2)" "?P e2 w2" "e2 = (e \<or> fate = ReplyLost)"
      "\<And>d. d \<noteq> c \<Longrightarrow> heap w d = None \<Longrightarrow> heap w2 d = None" "sv_nonce (srv w2) = sv_nonce (srv w)" "sv_procs (srv w2) = sv_procs (srv w)"
      "others_kept I ?n w w2"
    for w2 e2
  proof -
    have rest: "rounds_ok w2 rounds" by (rule rounds_ok_next [OF Cons.prems(7) [unfolded r] w2(4)])
    have cl1: "dup_ok R cl1 w2" "cl_clt_nonce cl1 = ?n" "cl_xid_rep_done cl1 = d" "servable w2 h f"
      using dup_ok_kept [OF Cons.prems(2) d(7) w2(5,6)] d(7) Cons.prems(3,4,6) w2(5,6)
      by (simp_all add: kept_def same_config_def servable_def)
    have own2: "own I ?n w2" "fst ` set rounds \<subseteq> I" using w2(7) Cons.prems(9) by (auto simp: others_kept_def)
    obtain cl' w' e' where i: "retry_rounds mem (rq_xid h) rounds p cl1 w2 = Inr (cl', w')" "?P e' w'"
      "sv_nonce (srv w') = sv_nonce (srv w2)" "sv_procs (srv w') = sv_procs (srv w2)"
      "rounds_done R h ca0 ret res (snd ` set rounds) e2 e' cl1 cl'" "conns_after I ?n rounds w2 w'"
      using Cons.IH [OF d(5) cl1(1-3) w2(2) cl1(4) rest own2(1,2)] by blast
    have "retry_rounds mem (rq_xid h) (r # rounds) p cl w = Inr (cl', w')"
      using w2(1) i(1) d(5) by (simp add: r pending_def call_done_def)
    moreover have "rounds_done R h ca0 ret res (snd ` set (r # rounds)) e e' cl cl'"
      using i(5) kept_trans [OF d(7)] fate w2(3) unfolding rounds_done_def by (auto simp: r split: if_splits)
    ultimately show ?thesis
      using i(2-4) w2(5,6) conns_after_Cons [OF i(6) w2(7,4) fate]
      by (intro exI [of _ cl'] exI [of _ w'] exI [of _ e']) (simp add: r)
  qed
  show ?case
  proof (cases fate)
    case RequestLost
    note br = broken_saved [OF con(1)]
    have fr2: "others_kept I ?n w (broken c (connected c w))"
      by (rule others_kept_trans [OF fr0 heap_others [OF _ br(2,4) cI]]) (use fr0 in \<open>simp add: others_kept_def\<close>)
    have "?P e (broken c (connected c w))" by (rule exec_phase_cong [OF _ _ br(3,1) ph0]) (simp_all add: br(2))
    then show ?thesis
      by (intro go_on [of "broken c (connected c w)" e]) (use RequestLost d(1) br con fr2 in \<open>simp_all add: retry_round_def\<close>)
  next
    case ReplyLost
    note br = broken_saved [OF held1]
    have fr2: "others_kept I ?n w (broken c w1)"
      by (rule others_kept_trans [OF fr1 heap_others [OF _ br(2,4) cI]]) (use fr1 in \<open>simp add: others_kept_def\<close>)
    have "?P True (broken c w1)" by (rule exec_phase_cong [OF _ _ br(3,1) d(9)]) (simp_all add: br(2))
    then show ?thesis
      by (intro go_on [of "broken c w1" True])
         (use ReplyLost d(1,2,11) br con fr2 in \<open>simp_all add: retry_round_def round_step_def held_step_def\<close>)
  next
    case Answered
    have inv: "client_inv R cl2" "cl_calls cl2 = [rq_xid h \<mapsto> ca0]" "\<not> ca_done ca0" "rq_xid h < cl_xid cl2"
      using d(6) by (simp_all add: pending_def)
    have lo: "- (2 ^ 31) \<le> ret" using f(2) by simp
    obtain cl3 ca where g: "rpcc_got_pdu ((!) (wire pkt)) (int (length (wire pkt))) cl2 = Inr cl3" "cl_calls cl3 (rq_xid h) = Some ca" "ca_done ca"
      by (rule reply_finishes [OF inv d(10) lo f(3)]) (rule that)
    have "receive_all (olds @ [pkt]) cl1 = Inr cl3" using receive_all_append [of olds "[pkt]"] d(4) g(1) by simp
    then have "retry_rounds mem (rq_xid h) (r # rounds) p cl w = Inr (cl3, w1)"
      using Answered d(1-3) g(2,3) by (simp add: r retry_round_def call_done_def)
    moreover have "rounds_done R h ca0 ret res (snd ` set (r # rounds)) e True cl cl3"
      using Answered d(6,10) kept_trans [OF d(7,8)] g(1) by (auto simp: rounds_done_def r)
    moreover have "conns_after I ?n (r # rounds) w w1"
      using fr1 d(11) con(4) held_usable [OF held1] Answered
      by (auto simp: conns_after_def r round_step_def held_step_def)
    ultimately show ?thesis
      using d(9,11) con(2) by (intro exI [of _ cl3] exI [of _ w1] exI [of _ True]) (simp add: round_step_def)
  qed
qed

text \<open>The end of the call, answered or not.\<close>

lemma rounds_end:
  assumes fin: "rounds_done R h ca0 ret res fates e e' cl cl2" and ret: "0 \<le> ret" "ret < 2 ^ 31"
  obtains ca cl3 where "call1_end (rq_xid h) cl2 = Some (ca, cl3)" "call1_result ca = (if Answered \<in> fates then ret else timeout_failure)"
    "Answered \<in> fates \<longrightarrow> u_inv (ca_un ca) \<and> u_ok (ca_un ca) \<and> u_rest (ca_un ca) = res \<and> ca_xid ca = rq_xid h \<and> e'"
    "ca_done ca \<longleftrightarrow> Answered \<in> fates" "client_inv (insert (rq_xid h) R) cl3" "cl_calls cl3 = Map.empty" "kept cl cl3"
proof (cases "Answered \<in> fates")
  case True
  then obtain pkt cl1 where g: "pending R (rq_xid h) ca0 cl1" "kept cl cl1" "rpcc_got_pdu ((!) (wire pkt)) (int (length (wire pkt))) cl1 = Inr cl2"
    "carries_reply ((!) (wire pkt)) (int (length (wire pkt))) \<lparr>rp_xid = rq_xid h, rp_ret = word_of_int ret\<rparr> res" "e'"
    using fin by (auto simp: rounds_done_def)
  have cl1: "client_inv R cl1" "cl_calls cl1 = [rq_xid h \<mapsto> ca0]" "\<not> ca_done ca0" "rq_xid h < cl_xid cl1"
    using g(1) by (simp_all add: pending_def)
  have lo: "- (2 ^ 31) \<le> ret" using ret(1) by simp
  obtain cl' ca cl3 where r: "rpcc_got_pdu ((!) (wire pkt)) (int (length (wire pkt))) cl1 = Inr cl'" "ca_done ca" "call1_result ca = ret"
    "call1_end (rq_xid h) cl' = Some (ca, cl3)" "u_inv (ca_un ca)" "u_ok (ca_un ca)" "u_rest (ca_un ca) = res"
    "client_inv (insert (rq_xid h) R) cl3" "cl_calls cl3 = Map.empty" "same_client cl1 cl3" "cl_xid cl3 = cl_xid cl1" "ca_xid ca = rq_xid h"
    by (rule reply_finishes [OF cl1 g(4) lo ret(2)]) (rule that)
  then show ?thesis
    using True g(3,5) kept_trans [OF g(2) same_client_kept [OF r(10,11)]] by (intro that [of ca cl3]) simp_all
next
  case False
  then have cl2: "client_inv R cl2" "cl_calls cl2 = [rq_xid h \<mapsto> ca0]" "\<not> ca_done ca0" "kept cl cl2"
    using fin by (simp_all add: rounds_done_def pending_def)
  obtain cl3 where e3: "call1_end (rq_xid h) cl2 = Some (ca0, cl3)" using cl2(2) by (simp add: call1_end_def)
  then have "cl_calls cl3 = Map.empty" "cl_xid cl3 = cl_xid cl2" using cl2(2) by (auto simp: call1_end_def)
  then show ?thesis
    using False e3 cl2 call1_end_ok(1) [OF cl2(1) e3] kept_trans [OF cl2(4) same_client_kept [OF end_same [OF e3]]]
    by (intro that [of ca0 cl3]) (simp_all add: call1_result_def)
qed

section \<open>A call\<close>

text \<open>As \<open>linked\<close>, but the client, which retransmits, may be without a connection, and may be in lossy mode.\<close>

definition resting :: "(u32 \<times> u32) set \<Rightarrow> u32 set \<Rightarrow> rpcc \<Rightarrow> 's world \<Rightarrow> bool" where
  "resting A R cl w \<longleftrightarrow>
     client_inv R cl \<and> cl_calls cl = Map.empty \<and> \<not> cl_destroy_wait cl \<and> cl_reachable cl \<and> cl_retrans cl \<and>
     cl_clt_nonce cl \<noteq> 0 \<and> win_inv A (sv_reply_window (srv w)) \<and>
     (\<forall>x. (cl_clt_nonce cl, x) \<in> A \<longrightarrow> x < cl_xid cl) \<and> sv_reachable (srv w) \<and> saved_ok w (cl_clt_nonce cl) \<and>
     dup_ok R cl w \<and> front_at (cl_xid_rep_done cl) (cl_clt_nonce cl) (sv_reply_window (srv w))"

lemma small_sint: "(x :: u32) < 2 ^ 31 \<Longrightarrow> sint x = uint x"
  using order.trans [OF _ uint_ge_0 [of x], of "- 2147483648"]
  by (subst sint_uint) (rule signed_take_bit_int_eq_self, simp_all add: word_less_def)

text \<open>The block for the lossy mode keeps a request that can be refused, and the number up to which the server has dropped its
  replies.\<close>

lemma call1_dup_ok:
  assumes dup: "dup_ok R cl w" and front: "front_at (cl_xid_rep_done cl) n win" "ca_done ca \<Longrightarrow> front_at (uint (rq_xid_rep h)) n win"
    and small: "cl_lossytest cl = 0 \<or> rq_xid h < 2 ^ 31" and h: "ca_done ca \<Longrightarrow> ca_xid ca = rq_xid h" "rq_xid_rep h < rq_xid h" "rq_xid h \<in> R"
      "rq_clt_nonce h = cl_clt_nonce cl" "servable w h f" "carries_request b sz h args" "p = map b [0..<nat sz]"
  shows "dup_ok R (call1_dup ca p (rq_xid_rep h) cl) w" "front_at (cl_xid_rep_done (call1_dup ca p (rq_xid_rep h) cl)) n win"
    "same_config cl (call1_dup ca p (rq_xid_rep h) cl)" "client_inv S (call1_dup ca p (rq_xid_rep h) cl) = client_inv S cl"
    "cl_calls (call1_dup ca p (rq_xid_rep h) cl) = cl_calls cl" "cl_xid (call1_dup ca p (rq_xid_rep h) cl) = cl_xid cl"
proof -
  show "same_config cl (call1_dup ca p (rq_xid_rep h) cl)" "client_inv S (call1_dup ca p (rq_xid_rep h) cl) = client_inv S cl"
    "cl_calls (call1_dup ca p (rq_xid_rep h) cl) = cl_calls cl" "cl_xid (call1_dup ca p (rq_xid_rep h) cl) = cl_xid cl"
    by (simp_all add: call1_dup_def same_config_def client_inv_def Let_def)
  have on: "sint (ca_xid ca) = uint (rq_xid h) \<and> sint (rq_xid_rep h) = uint (rq_xid_rep h)" if "ca_done ca" "cl_lossytest cl \<noteq> 0"
    using small that h(1,2) by (auto intro!: small_sint intro: order.strict_trans)
  then show "front_at (cl_xid_rep_done (call1_dup ca p (rq_xid_rep h) cl)) n win"
    using front by (auto simp: call1_dup_def Let_def)
  show "dup_ok R (call1_dup ca p (rq_xid_rep h) cl) w"
  proof (cases "ca_done ca \<and> cl_lossytest cl \<noteq> 0 \<and> \<not> request_valid (cl_dup_req cl)")
    case True
    then have "cl_dup_req (call1_dup ca p (rq_xid_rep h) cl) = \<lparr>rq_buf = p, rq_no = uint (rq_xid h)\<rparr>"
      "cl_clt_nonce (call1_dup ca p (rq_xid_rep h) cl) = cl_clt_nonce cl"
      using on by (simp_all add: call1_dup_def Let_def)
    then show ?thesis unfolding dup_ok_def using h(3-7) by (metis request.select_convs)
  next
    case False
    then have "cl_dup_req (call1_dup ca p (rq_xid_rep h) cl) = cl_dup_req cl"
      "cl_clt_nonce (call1_dup ca p (rq_xid_rep h) cl) = cl_clt_nonce cl"
      by (auto simp: call1_dup_def Let_def)
    then show ?thesis using dup by (simp add: dup_ok_def)
  qed
qed

lemma call1_retry_ok:
  assumes rest: "resting A R cl w" and m: "m_inv req" "m_ind req < 2 ^ 31" and xid: "cl_xid cl + 1 \<noteq> 0"
    and small: "cl_lossytest cl = 0 \<or> cl_xid cl < 2 ^ 31"
    and bnd: "proc = RPC_BIND \<longleftrightarrow> \<not> cl_bind_done cl" "cl_srv_nonce cl = 0 \<or> cl_srv_nonce cl = sv_nonce (srv w)"
    and f: "sv_procs (srv w) proc = Some f" "handler_gives f (get_content req) (app w) ret res s'" "0 \<le> ret" "ret < 2 ^ 31"
    and rounds: "rounds_ok w rounds" "own I (cl_clt_nonce cl) w" "fst ` set rounds \<subseteq> I"
  obtains A' u cl' w' where
    "call1_retry mem i0 rounds proc req cl w = Inr (if Answered \<in> snd ` set rounds then ret else timeout_failure, u, cl', w')"
    "Answered \<in> snd ` set rounds \<Longrightarrow> u_inv u \<and> u_ok u \<and> u_rest u = res"
    "app w' = (if snd ` set rounds \<subseteq> {RequestLost} then app w else s')"
    "resting A' (insert (cl_xid cl) R) cl' w'" "same_config cl cl'" "cl_xid cl' = cl_xid cl + 1"
    "sv_nonce (srv w') = sv_nonce (srv w)" "sv_procs (srv w') = sv_procs (srv w)"
    "A \<subseteq> A'" "A' \<subseteq> insert (cl_clt_nonce cl, cl_xid cl) A" "conns_after I (cl_clt_nonce cl) rounds w w'"
proof -
  have cl: "client_inv R cl" "\<not> cl_destroy_wait cl" "cl_reachable cl" "cl_retrans cl" "cl_calls cl = Map.empty" "cl_clt_nonce cl \<noteq> 0"
    "dup_ok R cl w"
    using rest by (simp_all add: resting_def)
  define h where "h = \<lparr>rq_xid = cl_xid cl, rq_proc = proc, rq_clt_nonce = cl_clt_nonce cl, rq_srv_nonce = cl_srv_nonce cl,
        rq_xid_rep = hd (cl_window cl)\<rparr>"
  define ca0 where "ca0 = \<lparr>ca_xid = cl_xid cl, ca_un = unmarshall_empty, ca_intret = i0, ca_done = False\<rparr>"
  have hx: "rq_xid h = cl_xid cl" "rq_clt_nonce h = cl_clt_nonce cl" "rq_xid_rep h = hd (cl_window cl)" by (simp_all add: h_def)
  obtain req' cl1 b where c1: "call1_begin i0 proc req cl = Inr (Inr (cl_xid cl, hd (cl_window cl), req', cl1))"
    "m_buf req' = Some b" "m_ind req' = m_ind req" "carries_request b (m_ind req') h (get_content req)"
    "hd (cl_window cl) < cl_xid cl" "client_inv R cl1" "cl_xid cl1 = cl_xid cl + 1" "cl_clt_nonce cl1 = cl_clt_nonce cl"
    "cl_calls cl (cl_xid cl) = None" "cl_calls cl1 = (cl_calls cl)(cl_xid cl \<mapsto> ca0)"
    by (rule call1_begin_ok [OF cl(1) m xid bnd(1) cl(2), of i0, folded h_def ca0_def]) (rule that)
  note same1 = begin_same [OF c1(1), unfolded same_client_def]
  have pend: "pending R (rq_xid h) ca0 cl1" and dup: "dup_ok R cl1 w" and n1: "cl_clt_nonce cl1 = rq_clt_nonce h"
    and d1: "cl_xid_rep_done cl1 = cl_xid_rep_done cl"
    using c1(6,7,10) cl next_xid [OF xid] same1 by (simp_all add: pending_def dup_ok_def hx ca0_def)
  have p: "packet req' = map b [0..<nat (m_ind req')]" using c1(2) by (simp add: packet_def)
  obtain win where "checkduplicate_and_update (sv_reply_window (srv w)) (cl_clt_nonce cl) (cl_xid cl) (hd (cl_window cl)) = (NEW, win)"
    by (rule later_call_new [of A "sv_reply_window (srv w)" "cl_clt_nonce cl" "cl_xid cl"]) (use rest that in \<open>simp_all add: resting_def\<close>)
  then have ph: "exec_phase A h (cl_xid_rep_done cl) ret res (app w) s' False w" using rest by (simp add: exec_phase_def h_def resting_def)
  have sv: "servable w h f" using bnd(2) f(1) cl(6) by (auto simp: servable_def h_def)
  have rep: "rq_xid_rep h \<le> rq_xid h" using c1(5) by (simp add: hx order.strict_implies_order)
  obtain cl2 w' e where r: "retry_rounds mem (rq_xid h) rounds (packet req') cl1 w = Inr (cl2, w')"
    "exec_phase A h (cl_xid_rep_done cl) ret res (app w) s' e w'" "sv_nonce (srv w') = sv_nonce (srv w)" "sv_procs (srv w') = sv_procs (srv w)"
    "rounds_done R h ca0 ret res (snd ` set rounds) False e cl1 cl2" "conns_after I (cl_clt_nonce cl) rounds w w'"
    using retry_rounds_ok [OF c1(4) p rep f(2-4) pend dup n1 d1 ph sv rounds(1) rounds(2) [folded hx(2)] rounds(3), of mem]
    unfolding hx(2) by blast
  have app: "app w' = (if snd ` set rounds \<subseteq> {RequestLost} then app w else s')"
    unfolding fates_lost using r(2,5) by (auto simp: exec_phase_def rounds_done_def split: if_splits)
  obtain ca cl3 where c3: "call1_end (rq_xid h) cl2 = Some (ca, cl3)"
    "call1_result ca = (if Answered \<in> snd ` set rounds then ret else timeout_failure)"
    "Answered \<in> snd ` set rounds \<longrightarrow> u_inv (ca_un ca) \<and> u_ok (ca_un ca) \<and> u_rest (ca_un ca) = res \<and> ca_xid ca = rq_xid h \<and> e"
    "ca_done ca \<longleftrightarrow> Answered \<in> snd ` set rounds" "client_inv (insert (rq_xid h) R) cl3" "cl_calls cl3 = Map.empty" "kept cl1 cl3"
    by (rule rounds_end [OF r(5) f(3,4)]) (rule that)
  define cl4 where "cl4 = call1_dup ca (packet req') (hd (cl_window cl)) cl3"
  have k: "cl_xid cl3 = cl_xid cl + 1" "cl_clt_nonce cl3 = cl_clt_nonce cl" "cl_xid_rep_done cl3 = cl_xid_rep_done cl" "same_config cl cl3"
    "cl_lossytest cl3 = cl_lossytest cl"
    using c3(7) c1(7) same1 by (simp_all add: kept_def same_config_def)
  have "dup_ok (insert (rq_xid h) R) cl3 w'" using dup_ok_kept [OF dup c3(7) r(3,4)] by (auto simp: dup_ok_def)
  moreover have "front_at (cl_xid_rep_done cl3) (cl_clt_nonce cl) (sv_reply_window (srv w'))"
    "ca_done ca \<Longrightarrow> front_at (uint (rq_xid_rep h)) (cl_clt_nonce cl) (sv_reply_window (srv w'))"
    "servable w' h f" "cl_lossytest cl3 = 0 \<or> rq_xid h < 2 ^ 31" "ca_done ca \<Longrightarrow> ca_xid ca = rq_xid h" "rq_xid_rep h < rq_xid h"
    "rq_clt_nonce h = cl_clt_nonce cl3"
    using r(2-4) c3(3,4) sv small c1(5) k by (simp_all add: exec_phase_def servable_def hx)
  ultimately have c4: "dup_ok (insert (rq_xid h) R) cl4 w'" "front_at (cl_xid_rep_done cl4) (cl_clt_nonce cl) (sv_reply_window (srv w'))"
    "same_config cl3 cl4" "client_inv S cl4 = client_inv S cl3" "cl_calls cl4 = cl_calls cl3" "cl_xid cl4 = cl_xid cl3" for S
    using call1_dup_ok [of "insert (rq_xid h) R" cl3 w' "cl_clt_nonce cl" "sv_reply_window (srv w')" ca h f b "m_ind req'" "get_content req" "packet req'"]
      c1(4) p unfolding cl4_def hx(3) [symmetric] by simp_all
  have "call1_retry mem i0 rounds proc req cl w =
      Inr (if Answered \<in> snd ` set rounds then ret else timeout_failure, ca_un ca, cl4, w')"
    using c1(1) r(1) c3(1,2) by (simp add: call1_retry_def cl4_def hx)
  moreover have conf: "same_config cl cl4" using k(4) c4(3) by (simp add: same_config_def)
  define A' where "A' = (if e then insert (cl_clt_nonce cl, cl_xid cl) A else A)"
  have A': "A \<subseteq> A'" "A' \<subseteq> insert (cl_clt_nonce cl, cl_xid cl) A" by (auto simp: A'_def)
  have "win_inv A' (sv_reply_window (srv w'))" "sv_reachable (srv w')" "saved_ok w' (cl_clt_nonce cl)"
    using r(2) by (auto simp: exec_phase_def h_def A'_def split: if_splits)
  moreover have "\<forall>x. (cl_clt_nonce cl, x) \<in> A' \<longrightarrow> x < cl_xid cl + 1"
    using rest next_xid [OF xid] by (auto simp: resting_def A'_def split: if_splits)
  ultimately have "resting A' (insert (cl_xid cl) R) cl4 w'"
    using c3(5,6) c4 k conf cl by (simp add: resting_def same_config_def hx)
  with conf show ?thesis
    using c3(3) c4(6) k(1) app r(3,4,6) A' \<open>call1_retry mem i0 rounds proc req cl w = _\<close> by (intro that [of "ca_un ca" cl4 w' A']) simp_all
qed

text \<open>A typed call.\<close>

lemma call_retry_ok:
  assumes rest: "resting A R cl w" and xid: "cl_xid cl + 1 \<noteq> 0" "cl_lossytest cl = 0 \<or> cl_xid cl < 2 ^ 31"
    and bnd: "proc = RPC_BIND \<longleftrightarrow> \<not> cl_bind_done cl" "cl_srv_nonce cl = 0 \<or> cl_srv_nonce cl = sv_nonce (srv w)"
    and a: "codec put_a get_a enc_a" "msg_fits enc_a x" and r: "codec put_r get_r enc_r" "msg_fits enc_r y"
    and f: "sv_procs (srv w) proc = Some (handler1 get_a put_r' r1 meth)" "put_r' = put_r" "meth (app w) x r1 = Inr (ret, y, s')"
      "0 \<le> ret" "ret < 2 ^ 31"
    and rounds: "rounds_ok w rounds" "own I (cl_clt_nonce cl) w" "fst ` set rounds \<subseteq> I"
  obtains A' cl' w' where "call_retry get_r r0 mem i0 rounds proc (call_args1 put_a mem x) cl w =
      Inr (if Answered \<in> snd ` set rounds then ret else timeout_failure,
           if Answered \<in> snd ` set rounds then y else r0, cl', w')"
    "app w' = (if snd ` set rounds \<subseteq> {RequestLost} then app w else s')"
    "resting A' (insert (cl_xid cl) R) cl' w'" "same_config cl cl'" "cl_xid cl' = cl_xid cl + 1"
    "sv_nonce (srv w') = sv_nonce (srv w)" "sv_procs (srv w') = sv_procs (srv w)"
    "A \<subseteq> A'" "A' \<subseteq> insert (cl_clt_nonce cl, cl_xid cl) A" "conns_after I (cl_clt_nonce cl) rounds w w'"
proof -
  have len: "int (length (enc_a x)) \<le> MAX_MSG" "int (length (enc_r y)) \<le> MAX_MSG" "int (length (enc_a x)) + RPC_HEADER_SZ < 2 ^ 31"
    using a(2) r(2) by (simp_all add: msg_fits_def rpc_sizes MAX_MSG_def)
  obtain req where req: "call_args1 put_a mem x = Inr req" "appended (marshall_new mem) req (enc_a x)"
    using a(2) by (rule call_args1_ok [OF a(1), of x, folded msg_fits_def])
  have m: "m_inv req" "m_ind req < 2 ^ 31" "get_content req = enc_a x"
    using req(2) len(3) marshall_new_inv(2) [of mem] by (auto simp: appended_def) (simp_all add: marshall_new_def)
  have g: "handler_gives (handler1 get_a put_r' r1 meth) (get_content req) (app w) ret (enc_r y) s'"
    unfolding m(3) f(2) by (rule handler1_gives [OF a(1) r(1) len(1)]) (use r(2) f(3) in \<open>simp_all add: msg_fits_def\<close>)
  let ?ans = "Answered \<in> snd ` set rounds"
  obtain A' u cl' w' where c: "call1_retry mem i0 rounds proc req cl w = Inr (if ?ans then ret else timeout_failure, u, cl', w')"
    "?ans \<Longrightarrow> u_inv u \<and> u_ok u \<and> u_rest u = enc_r y" "app w' = (if snd ` set rounds \<subseteq> {RequestLost} then app w else s')"
    "resting A' (insert (cl_xid cl) R) cl' w'" "same_config cl cl'" "cl_xid cl' = cl_xid cl + 1"
    "sv_nonce (srv w') = sv_nonce (srv w)" "sv_procs (srv w') = sv_procs (srv w)"
    "A \<subseteq> A'" "A' \<subseteq> insert (cl_clt_nonce cl, cl_xid cl) A" "conns_after I (cl_clt_nonce cl) rounds w w'"
    by (rule call1_retry_ok [OF rest m(1,2) xid bnd f(1) g f(4,5) rounds, of mem i0]) (rule that)
  have "call_m_finish get_r r0 (if ?ans then ret else timeout_failure) u = Inr (if ?ans then ret else timeout_failure, if ?ans then y else r0)"
    using call_m_finish_ok [OF r(1) f(4), of u y r0] c(2) len(2) by (cases ?ans) (simp_all add: call_m_finish_def timeout_failure_def)
  then have "call_retry get_r r0 mem i0 rounds proc (call_args1 put_a mem x) cl w =
      Inr (if ?ans then ret else timeout_failure, if ?ans then y else r0, cl', w')"
    using c(1) req(1) by (simp add: call_retry_def)
  then show ?thesis by (rule that) (use c(3-11) in simp_all)
qed

section \<open>Properties\<close>

text \<open>C2: Exactly-once execution of a retried call: over any number of connections that break before the request or before
  the reply has arrived, a call that is answered in the end returns what the method returns, and the method has run once,
  however often its request arrived; a call that is never answered times out, and the method has run once if a request
  arrived and not at all otherwise. Client and server are ready for the next call. This holds in lossy mode too, where the
  client sends requests again on purpose whose replies it has acknowledged.\<close>

theorem retried_call_executes_once:
  assumes "resting A R cl w" "bound cl w" "cl_xid cl + 1 \<noteq> 0" "cl_lossytest cl = 0 \<or> cl_xid cl < 2 ^ 31" "proc \<noteq> RPC_BIND"
    "codec put_a get_a enc_a" "msg_fits enc_a x" "codec put_r get_r enc_r" "msg_fits enc_r y"
    "sv_procs (srv w) proc = Some (handler1 get_a put_r r1 meth)"
    "meth (app w) x r1 = Inr (ret, y, s')" "0 \<le> ret" "ret < 2 ^ 31" "rounds_ok w rounds"
  shows "\<exists>A' cl' w'. call_retry get_r r0 mem i0 rounds proc (call_args1 put_a mem x) cl w =
      Inr (if Answered \<in> snd ` set rounds then ret else timeout_failure,
           if Answered \<in> snd ` set rounds then y else r0, cl', w') \<and>
    app w' = (if snd ` set rounds \<subseteq> {RequestLost} then app w else s') \<and>
    resting A' (insert (cl_xid cl) R) cl' w' \<and> bound cl' w'"
proof -
  have b: "proc = RPC_BIND \<longleftrightarrow> \<not> cl_bind_done cl" "cl_srv_nonce cl = 0 \<or> cl_srv_nonce cl = sv_nonce (srv w)"
    using assms(2,5) by (simp_all add: bound_def)
  have own: "own UNIV (cl_clt_nonce cl) w" by (cases "sv_conns (srv w) (cl_clt_nonce cl)") (simp_all add: own_def)
  obtain A' cl' w' where c: "call_retry get_r r0 mem i0 rounds proc (call_args1 put_a mem x) cl w =
      Inr (if Answered \<in> snd ` set rounds then ret else timeout_failure,
           if Answered \<in> snd ` set rounds then y else r0, cl', w')"
    "app w' = (if snd ` set rounds \<subseteq> {RequestLost} then app w else s')"
    "resting A' (insert (cl_xid cl) R) cl' w'" "same_config cl cl'" "sv_nonce (srv w') = sv_nonce (srv w)"
    by (rule call_retry_ok [OF assms(1,3,4) b assms(6-10) refl assms(11-14) own subset_UNIV, of r0 mem i0]) (rule that)
  have "bound cl' w'" using assms(2) c(4,5) by (simp add: bound_def same_config_def)
  with c(1-3) show ?thesis by blast
qed

lemma retried_call_executes_once_witness:
  "\<exists>cl (w :: extent_server world) cl' w'. bound cl w \<and> cl_lossytest cl = 5 \<and>
     call_retry get_u32 0 (\<lambda>_. 9) 0 [(1, ReplyLost), (2, RequestLost), (3, Answered)] REMOVE
       (call_args1 put_u64 (\<lambda>_. 9) 1) cl w = Inr (OK, 0, cl', w') \<and>
     store_view \<lparr>ec_es = app w\<rparr> = [1 \<mapsto> (1, [])] \<and> store_view \<lparr>ec_es = app w'\<rparr> = Map.empty"
proof -
  obtain w where w: "extent_smain (\<lambda>_. 0) 0 attr_zero 77 0 = Inr (Some w)" "sv_procs (srv w) = extent_procs (\<lambda>_. 0) 0 attr_zero 77"
    "sv_nonce (srv w) = 77" "sv_reply_window (srv w) = Map.empty" "sv_conns (srv w) = Map.empty" "heap w = Map.empty"
    "store_inv \<lparr>ec_es = app w\<rparr>" "store_view \<lparr>ec_es = app w\<rparr> = [1 \<mapsto> (1, [])]" "sv_reachable (srv w)"
    by (rule smain_ok [of "\<lambda>_. 0" 0 attr_zero 77 0]) (rule that)
  define cl where "cl = (rpcc_new True 5 5)\<lparr>cl_bind_done := True, cl_srv_nonce := 77\<rparr>"
  have cl: "resting {} {} cl w" "bound cl w" "cl_xid cl + 1 \<noteq> 0" "cl_lossytest cl = 0 \<or> cl_xid cl < 2 ^ 31"
    using w(3-6,9) win_inv_empty client_inv_new [of True 5 5]
    by (simp_all add: resting_def bound_def cl_def rpcc_new_def saved_ok_def client_inv_def request_clear_def request_valid_def
        dup_ok_def front_at_def)
  have lossy: "cl_lossytest cl = 5" by (simp add: cl_def rpcc_new_def)
  have k: "key 1 = 1" using key_of_nat [of 1] by (simp add: layout_values)
  obtain es' where m: "es_remove (app w) 1 0 = Inr (OK, 0, es')" "store_view \<lparr>ec_es = es'\<rparr> = Map.empty"
    using ec.remove_law [OF w(7), of 1] w(8) by (auto simp: k es_remove_def extent_client_remove_def fault_simps)
  have g: "sv_procs (srv w) REMOVE = Some (handler1 get_u64 put_u32 0 es_remove)"
    using w(2) by (simp add: extent_procs_def proc_defs h_remove_def)
  have fit: "msg_fits be64 1" "msg_fits be32 0" by (simp_all add: extent_fits)
  have rounds: "rounds_ok w [(1, ReplyLost), (2, RequestLost), (3, Answered)]" using w(6) by (simp add: usable_def)
  have ok: "0 \<le> OK" "OK < 2 ^ 31" by (simp_all add: OK_def)
  show ?thesis
    using retried_call_executes_once [OF cl proc_not_bind(4) c_u64.codec_axioms fit(1) c_u32.codec_axioms fit(2) g m(1) ok rounds,
      of 0 "\<lambda>_. 9" 0] cl(2) w(8) m(2) lossy by auto
qed

end
