(* ===== verification/Sockaddr.thy ===== *)
theory Sockaddr
  imports Prelude
begin

text \<open>
  Addresses (\<open>make_sockaddr\<close> and \<open>operator<\<close> of \<open>rpc/rpc.cc\<close>). \<open>inet_addr\<close> and \<open>gethostbyname\<close> are parameters. The order
  is an instance of the library's class of linear orders, which is what the containers of the C++ library expect of it.
\<close>

section \<open>Numbers in text\<close>

text \<open>\<open>atoi\<close>: white space, a sign, and digits up to the first other character.\<close>

definition is_space :: "char \<Rightarrow> bool" where
  "is_space c \<longleftrightarrow> c = CHR '' '' \<or> (9 \<le> (of_char c :: nat) \<and> (of_char c :: nat) \<le> 13)"

definition is_digit :: "char \<Rightarrow> bool" where
  "is_digit c \<longleftrightarrow> 48 \<le> (of_char c :: nat) \<and> (of_char c :: nat) \<le> 57"

fun digits :: "int \<Rightarrow> string \<Rightarrow> int" where
  "digits acc [] = acc"
| "digits acc (c # cs) = (if is_digit c then digits (10 * acc + (of_char c - 48)) cs else acc)"

definition atoi :: "string \<Rightarrow> int" where
  "atoi str =
     (case dropWhile is_space str of
        [] \<Rightarrow> 0
      | c # cs \<Rightarrow> if c = CHR ''-'' then - digits 0 cs else if c = CHR ''+'' then digits 0 cs else digits 0 (c # cs))"

text \<open>Decimal notation, the inverse of \<open>atoi\<close>.\<close>

fun decimal :: "nat \<Rightarrow> string" where
  "decimal n = (if n < 10 then [char_of (48 + n)] else decimal (n div 10) @ [char_of (48 + n mod 10)])"

declare decimal.simps [simp del]

lemma digit_char: "d < 10 \<Longrightarrow> (of_char (char_of (48 + d :: nat)) :: nat) = 48 + d"
  by (simp add: of_char_of)

lemma digits_append: "list_all is_digit xs \<Longrightarrow> digits acc (xs @ ys) = digits (digits acc xs) ys"
  by (induction xs arbitrary: acc) auto

lemma digit_value:
  assumes "d < 10"
  shows "is_digit (char_of (48 + d :: nat))" "(of_char (char_of (48 + d :: nat)) :: int) = 48 + int d"
proof -
  have "(of_char (char_of (48 + d :: nat)) :: nat) = 48 + d" using assms by (rule digit_char)
  moreover have "(of_char c :: int) = int (of_char c)" for c by (simp only: of_nat_of_char)
  ultimately show "is_digit (char_of (48 + d :: nat))" "(of_char (char_of (48 + d :: nat)) :: int) = 48 + int d"
    using assms by (simp_all only: is_digit_def) auto
qed

lemma decimal_digits: "list_all is_digit (decimal n) \<and> digits 0 (decimal n) = int n \<and> decimal n \<noteq> []"
proof (induction n rule: decimal.induct)
  case (1 n)
  show ?case
  proof (cases "n < 10")
    case True
    then show ?thesis using digit_value [of n] by (simp add: decimal.simps [of n])
  next
    case False
    have "10 * int (n div 10) + int (n mod 10) = int n" by presburger
    then show ?thesis
      using False 1 digit_value [of "n mod 10"] digits_append [of "decimal (n div 10)" 0]
      by (simp add: decimal.simps [of n])
  qed
qed

lemma atoi_decimal: "atoi (decimal n) = int n"
proof -
  obtain c cs where d: "decimal n = c # cs" using decimal_digits [of n] by (cases "decimal n") auto
  then have "is_digit c" "digits 0 (c # cs) = int n" using decimal_digits [of n] by (simp_all del: digits.simps)
  moreover from this(1) have "\<not> is_space c" "c \<noteq> CHR ''-''" "c \<noteq> CHR ''+''" by (auto simp: is_digit_def is_space_def)
  ultimately show ?thesis using d by (simp add: atoi_def del: digits.simps)
qed

section \<open>Socket addresses\<close>

text \<open>An address of family \<open>AF_INET\<close>; both fields are in network byte order, on a little-endian host.\<close>

datatype sockaddr_in = Sockaddr (sin_addr: u32) (sin_port: u16)

definition htons :: "u16 \<Rightarrow> u16" where
  "htons x = push_bit 8 x OR drop_bit 8 x"

text \<open>\<open>operator<\<close>\<close>

definition sockaddr_less :: "sockaddr_in \<Rightarrow> sockaddr_in \<Rightarrow> bool" where
  "sockaddr_less a b \<longleftrightarrow> sin_addr a < sin_addr b \<or> (sin_addr a = sin_addr b \<and> sin_port a < sin_port b)"

instantiation sockaddr_in :: linorder
begin

definition less_sockaddr_in :: "sockaddr_in \<Rightarrow> sockaddr_in \<Rightarrow> bool" where
  "less_sockaddr_in = sockaddr_less"

definition less_eq_sockaddr_in :: "sockaddr_in \<Rightarrow> sockaddr_in \<Rightarrow> bool" where
  "less_eq_sockaddr_in a b \<longleftrightarrow> a < b \<or> a = b"

instance
proof
  fix a b c :: sockaddr_in
  show "(a < b) = (a \<le> b \<and> \<not> b \<le> a)" "a \<le> a" by (auto simp: less_eq_sockaddr_in_def less_sockaddr_in_def sockaddr_less_def)
  show "a \<le> c" if "a \<le> b" "b \<le> c" using that by (auto simp: less_eq_sockaddr_in_def less_sockaddr_in_def sockaddr_less_def)
  show "a = b" if "a \<le> b" "b \<le> a" using that by (auto simp: less_eq_sockaddr_in_def less_sockaddr_in_def sockaddr_less_def)
  show "a \<le> b \<or> b \<le> a"
    using sockaddr_in.expand [of a b] less_linear [of "sin_addr a" "sin_addr b"] less_linear [of "sin_port a" "sin_port b"]
    by (auto simp: less_eq_sockaddr_in_def less_sockaddr_in_def sockaddr_less_def)
qed

end

text \<open>\<open>make_sockaddr\<close> of host and port. \<open>None\<close>: the process exits.\<close>

definition INADDR_NONE :: u32 where "INADDR_NONE = - 1"

definition make_sockaddr ::
  "(string \<Rightarrow> u32) \<Rightarrow> (string \<Rightarrow> u32 option) \<Rightarrow> string \<Rightarrow> string \<Rightarrow> sockaddr_in option" where
  "make_sockaddr inet_addr gethostbyname host port =
     (let a = inet_addr host; p = htons (word_of_int (atoi port))
      in if a \<noteq> INADDR_NONE then Some (Sockaddr a p)
         else map_option (\<lambda>a. Sockaddr a p) (gethostbyname host))"

text \<open>The one-argument version splits \<open>host:port\<close> into a buffer of 200 bytes, without checking the length.\<close>

definition split_hostport :: "string \<Rightarrow> (string \<times> string) res" where
  "split_hostport hp =
     (let host = takeWhile (\<lambda>c. c \<noteq> CHR '':'') hp
      in if host = hp then Inr (''127.0.0.1'', hp)
         else if length host < 200 then Inr (host, drop (length host + 1) hp)
         else Inl OutOfBounds)"

definition make_sockaddr1 ::
  "(string \<Rightarrow> u32) \<Rightarrow> (string \<Rightarrow> u32 option) \<Rightarrow> string \<Rightarrow> sockaddr_in option res" where
  "make_sockaddr1 inet_addr gethostbyname hp =
     bindE (split_hostport hp) (\<lambda>(host, port). Inr (make_sockaddr inet_addr gethostbyname host port))"

lemma split_hostport_ok:
  assumes "CHR '':'' \<notin> set host"
  shows "split_hostport (host @ CHR '':'' # port) = (if length host < 200 then Inr (host, port) else Inl OutOfBounds)"
proof -
  have "takeWhile (\<lambda>c. c \<noteq> CHR '':'') (host @ CHR '':'' # port) = host"
    using assms by (subst takeWhile_append2) auto
  then show ?thesis by (simp add: split_hostport_def)
qed

lemma split_hostport_port: "CHR '':'' \<notin> set port \<Longrightarrow> split_hostport port = Inr (''127.0.0.1'', port)"
  by (auto simp: split_hostport_def takeWhile_eq_all_conv Let_def)

text \<open>\<open>ntohs\<close> is the same swap.\<close>

lemma htons_htons: "htons (htons x) = x"
  by (rule bit_word_eqI) (auto simp: htons_def bit_simps)

lemma decimal_no_colon: "CHR '':'' \<notin> set (decimal n)"
  using decimal_digits [of n] by (auto simp: list_all_iff is_digit_def)

section \<open>Properties\<close>

text \<open>C40: Addresses in text: of \<open>host:port\<close> with the port in decimal, \<open>make_sockaddr\<close> makes the address of the host and the port,
  in network byte order, whether the host is numeric or found by name; a bare port means the local host; a host part of
  200 characters or more overruns the buffer.\<close>

theorem make_sockaddr_round_trip:
  assumes "CHR '':'' \<notin> set host" "port < 2 ^ 16"
  shows "(length host < 200 \<longrightarrow>
      (\<exists>r. make_sockaddr1 inet_addr gethostbyname (host @ CHR '':'' # decimal port) = Inr r \<and>
         map_option sin_addr r = (if inet_addr host \<noteq> INADDR_NONE then Some (inet_addr host) else gethostbyname host) \<and>
         (\<forall>a. r = Some a \<longrightarrow> unat (htons (sin_port a)) = port))) \<and>
    (200 \<le> length host \<longrightarrow> make_sockaddr1 inet_addr gethostbyname (host @ CHR '':'' # decimal port) = Inl OutOfBounds) \<and>
    make_sockaddr1 inet_addr gethostbyname (decimal port) =
      make_sockaddr1 inet_addr gethostbyname (''127.0.0.1:'' @ decimal port)"
proof -
  have p: "unat (htons (htons (word_of_int (atoi (decimal port))))) = port"
    using assms(2) by (simp add: htons_htons atoi_decimal unat_of_nat)
  have "split_hostport (''127.0.0.1:'' @ decimal port) = Inr (''127.0.0.1'', decimal port)"
    using split_hostport_ok [of "''127.0.0.1''" "decimal port"] by simp
  then have "make_sockaddr1 inet_addr gethostbyname (decimal port) =
      make_sockaddr1 inet_addr gethostbyname (''127.0.0.1:'' @ decimal port)"
    using split_hostport_port [OF decimal_no_colon] by (simp add: make_sockaddr1_def)
  then show ?thesis
    using p split_hostport_ok [OF assms(1), of "decimal port"]
    by (auto simp: make_sockaddr1_def make_sockaddr_def option.map_comp option.map_ident comp_def)
qed

lemma make_sockaddr_round_trip_witness:
  "\<exists>r. make_sockaddr1 (\<lambda>_. 0x0100007F) (\<lambda>_. None) (''10.0.0.1'' @ CHR '':'' # decimal 7661) = Inr r \<and>
     map_option sin_addr r = Some 0x0100007F"
proof -
  have h: "CHR '':'' \<notin> set ''10.0.0.1''" "(7661 :: nat) < 2 ^ 16" "length ''10.0.0.1'' < 200" "(0x0100007F :: u32) \<noteq> INADDR_NONE"
    by (simp_all add: INADDR_NONE_def)
  from make_sockaddr_round_trip [OF h(1,2), of "\<lambda>_. 0x0100007F" "\<lambda>_. None"] h(3,4) show ?thesis by auto
qed

end
