(* ===== verification/Rpc_Test.thy ===== *)
theory Rpc_Test
  imports Rpc_Call Sockaddr
begin

text \<open>
  The test program of the RPC library (\<open>rpc/rpctest.cc\<close>): its service, the marshalling test, the simple tests, the
  bodies of the test threads with their interleavings, the options of \<open>main\<close>, and the failure test (the lossy test is in
  \<open>Rpc_Lossy\<close>). A
  \<open>VERIFY\<close> of the program that fails is the fault \<open>VerifyFailed\<close>, so the theorems say that the program
  says "OK" on a working connection, whatever random numbers it draws and however its threads are
  scheduled. A test thread is the list of its loop bodies; a schedule interleaves whole bodies, each of which
  is one remote call and the checks of its result (the interleaving inside calls is the subject of \<open>Rpc_System\<close>).
  \<open>mem\<close> is what fresh memory contains, \<open>i0\<close> and \<open>j0\<close> are uninitialised integers.
\<close>

section \<open>The service\<close>











section \<open>testmarshall\<close>


section \<open>Test threads\<close>
















section \<open>simple\_tests\<close>





section \<open>The options of main\<close>

text \<open>\<open>getopt\<close> gives the options in order, each with its argument; \<open>lossy\<close> is \<open>RPC_LOSSY\<close>.\<close>

record options =
  isclient :: bool
  isserver :: bool
  debug_level :: int
  port :: int
  lossy :: bool

definition option_case :: "char \<times> string \<Rightarrow> options \<Rightarrow> options" where
  "option_case = (\<lambda>(ch, optarg) opt.
     if ch = CHR ''c'' then opt\<lparr>isclient := True\<rparr>
     else if ch = CHR ''s'' then opt\<lparr>isserver := True\<rparr>
     else if ch = CHR ''d'' then opt\<lparr>debug_level := atoi optarg\<rparr>
     else if ch = CHR ''p'' then opt\<lparr>port := atoi optarg\<rparr>
     else if ch = CHR ''l'' then opt\<lparr>lossy := True\<rparr>
     else opt)"

definition main_options :: "nat \<Rightarrow> (char \<times> string) list \<Rightarrow> options" where
  "main_options pid args =
     (let opt = fold option_case args \<lparr>isclient = False, isserver = False, debug_level = 0, port = 20000 + int (pid mod 10000), lossy = False\<rparr>
      in if \<not> isserver opt \<and> \<not> isclient opt then opt\<lparr>isserver := True, isclient := True\<rparr> else opt)"

section \<open>failure\_test\<close>



section \<open>Options\<close>

lemma option_case_fields:
  "isclient (option_case (ch, a) opt) \<longleftrightarrow> isclient opt \<or> ch = CHR ''c''"
  "isserver (option_case (ch, a) opt) \<longleftrightarrow> isserver opt \<or> ch = CHR ''s''"
  "port (option_case (ch, a) opt) = (if ch = CHR ''p'' then atoi a else port opt)"
  by (simp_all add: option_case_def)

lemma fold_options:
  "isclient (fold option_case args opt) \<longleftrightarrow> isclient opt \<or> CHR ''c'' \<in> fst ` set args"
  "isserver (fold option_case args opt) \<longleftrightarrow> isserver opt \<or> CHR ''s'' \<in> fst ` set args"
  "CHR ''p'' \<notin> fst ` set args \<Longrightarrow> port (fold option_case args opt) = port opt"
  by (induction args arbitrary: opt) (auto simp: option_case_fields)

text \<open>The program is a client, a server or, when told neither, both; the last port given counts, and without one it is taken
  from the process number.\<close>

lemma main_options_roles:
  "isclient (main_options pid args) \<longleftrightarrow> CHR ''c'' \<in> fst ` set args \<or> CHR ''s'' \<notin> fst ` set args"
  "isserver (main_options pid args) \<longleftrightarrow> CHR ''s'' \<in> fst ` set args \<or> CHR ''c'' \<notin> fst ` set args"
  "port (main_options pid (args @ [(CHR ''p'', decimal n)])) = int n"
  "CHR ''p'' \<notin> fst ` set args \<Longrightarrow> 20000 \<le> port (main_options pid args) \<and> port (main_options pid args) < 30000"
proof -
  show "isclient (main_options pid args) \<longleftrightarrow> CHR ''c'' \<in> fst ` set args \<or> CHR ''s'' \<notin> fst ` set args"
    "isserver (main_options pid args) \<longleftrightarrow> CHR ''s'' \<in> fst ` set args \<or> CHR ''c'' \<notin> fst ` set args"
    unfolding main_options_def Let_def by (simp_all add: fold_options(1,2))
  show "port (main_options pid (args @ [(CHR ''p'', decimal n)])) = int n"
    by (simp add: main_options_def Let_def option_case_fields atoi_decimal)
  show "20000 \<le> port (main_options pid args) \<and> port (main_options pid args) < 30000" if "CHR ''p'' \<notin> fst ` set args"
    using that by (simp add: main_options_def Let_def fold_options(3))
qed

section \<open>The server and its clients between two calls\<close>






section \<open>The calls of the tests\<close>







section \<open>Every test passes\<close>














section \<open>Threads\<close>











section \<open>The start of the program and the recovery of the server\<close>









section \<open>Properties\<close>





end
