(* ===== verification/Rpc_Lossy.thy ===== *)
theory Rpc_Lossy
  imports Rpc_Retry Rpc_Test
begin

text \<open>
  \<open>lossy_test\<close> of the test program (\<open>rpc/rpctest.cc\<close>): with \<open>RPC_LOSSY\<close> set, connections break at random, on either side, and
  clients send old requests again. Every call comes with the losses it suffers before it is answered: for each, whether
  the server had received the request. Client \<open>i\<close> uses the connections \<open>i\<close>, \<open>i + NUM_CL\<close>, \<open>i + 2 * NUM_CL\<close> and so on.
\<close>

section \<open>The test\<close>







section \<open>Connections\<close>











section \<open>Calls of the test\<close>








section \<open>Properties\<close>



end
