(* ===== verification/Method_Thread.thy ===== *)
theory Method_Thread
  imports Prelude
begin

text \<open>
  \<open>rpc/method_thread.h\<close>: starting a thread that runs a method of an object. The call is carried to the new thread by an
  object of a local class \<open>XXX\<close> on the heap, which the thread deletes before it runs the method. \<open>'o\<close> is an
  object and \<open>'s\<close> the state its methods work on; the results of the \<open>pthread\<close> functions and the address of the
  new object are arguments. \<open>tcpsconn\<close> and \<open>PollMgr\<close> start their threads with it.
\<close>

section \<open>Starting and entering a thread\<close>

text \<open>\<open>None\<close>: the process exits.\<close>

definition method_thread_parent :: "int \<Rightarrow> nat \<Rightarrow> int \<Rightarrow> bool \<Rightarrow> nat option res" where
  "method_thread_parent err th detached detach =
     (if err \<noteq> 0 then Inr None
      else bindE (if detach then VERIFY (detached = 0) else Inr ()) (\<lambda>_. Inr (Some th)))"

definition method_thread_child :: "int \<Rightarrow> int \<Rightarrow> unit res" where
  "method_thread_child state type = bindE (VERIFY (state = 0)) (\<lambda>_. VERIFY (type = 0))"

text \<open>The object that carries the call; \<open>args\<close> are the members that hold the arguments (none, \<open>a\<close>, \<open>a1\<close> and \<open>a2\<close>, or three of
  them), as a tuple.\<close>

record ('o, 'a, 's) XXX =
  x_o :: 'o
  x_m :: "'o \<Rightarrow> 'a \<Rightarrow> 's \<Rightarrow> 's res"
  x_args :: 'a

text \<open>The thread: it reads the members, deletes the object and calls the method.\<close>

definition yyy :: "int \<Rightarrow> int \<Rightarrow> nat \<Rightarrow> (nat \<rightharpoonup> ('o, 'a, 's) XXX) \<times> 's \<Rightarrow> ((nat \<rightharpoonup> ('o, 'a, 's) XXX) \<times> 's) res" where
  "yyy state type vvv = (\<lambda>(hp, s).
     case hp vvv of
       None \<Rightarrow> Inl NullDeref
     | Some x \<Rightarrow>
         bindE (method_thread_child state type) (\<lambda>_.
         bindE (x_m x (x_o x) (x_args x) s) (\<lambda>s. Inr (hp(vvv := None), s))))"

section \<open>The templates\<close>

definition method_thread0 ::
  "int \<Rightarrow> nat \<Rightarrow> int \<Rightarrow> nat \<Rightarrow> 'o \<Rightarrow> bool \<Rightarrow> ('o \<Rightarrow> 's \<Rightarrow> 's res) \<Rightarrow> (nat \<rightharpoonup> ('o, unit, 's) XXX) \<Rightarrow>
     ((nat \<rightharpoonup> ('o, unit, 's) XXX) \<times> nat option) res" where
  "method_thread0 err th detached x ob detach m hp =
     bindE (method_thread_parent err th detached detach) (\<lambda>r.
       Inr (hp(x \<mapsto> \<lparr>x_o = ob, x_m = (\<lambda>ob _. m ob), x_args = ()\<rparr>), r))"

definition method_thread1 ::
  "int \<Rightarrow> nat \<Rightarrow> int \<Rightarrow> nat \<Rightarrow> 'o \<Rightarrow> bool \<Rightarrow> ('o \<Rightarrow> 'a \<Rightarrow> 's \<Rightarrow> 's res) \<Rightarrow> 'a \<Rightarrow> (nat \<rightharpoonup> ('o, 'a, 's) XXX) \<Rightarrow>
     ((nat \<rightharpoonup> ('o, 'a, 's) XXX) \<times> nat option) res" where
  "method_thread1 err th detached x ob detach m a hp =
     bindE (method_thread_parent err th detached detach) (\<lambda>r.
       Inr (hp(x \<mapsto> \<lparr>x_o = ob, x_m = m, x_args = a\<rparr>), r))"

definition method_thread2 ::
  "int \<Rightarrow> nat \<Rightarrow> int \<Rightarrow> nat \<Rightarrow> 'o \<Rightarrow> bool \<Rightarrow> ('o \<Rightarrow> 'a \<Rightarrow> 'b \<Rightarrow> 's \<Rightarrow> 's res) \<Rightarrow> 'a \<Rightarrow> 'b \<Rightarrow>
     (nat \<rightharpoonup> ('o, 'a \<times> 'b, 's) XXX) \<Rightarrow> ((nat \<rightharpoonup> ('o, 'a \<times> 'b, 's) XXX) \<times> nat option) res" where
  "method_thread2 err th detached x ob detach m a1 a2 hp =
     bindE (method_thread_parent err th detached detach) (\<lambda>r.
       Inr (hp(x \<mapsto> \<lparr>x_o = ob, x_m = (\<lambda>ob (a1, a2). m ob a1 a2), x_args = (a1, a2)\<rparr>), r))"

definition method_thread3 ::
  "int \<Rightarrow> nat \<Rightarrow> int \<Rightarrow> nat \<Rightarrow> 'o \<Rightarrow> bool \<Rightarrow> ('o \<Rightarrow> 'a \<Rightarrow> 'b \<Rightarrow> 'c \<Rightarrow> 's \<Rightarrow> 's res) \<Rightarrow> 'a \<Rightarrow> 'b \<Rightarrow> 'c \<Rightarrow>
     (nat \<rightharpoonup> ('o, 'a \<times> 'b \<times> 'c, 's) XXX) \<Rightarrow> ((nat \<rightharpoonup> ('o, 'a \<times> 'b \<times> 'c, 's) XXX) \<times> nat option) res" where
  "method_thread3 err th detached x ob detach m a1 a2 a3 hp =
     bindE (method_thread_parent err th detached detach) (\<lambda>r.
       Inr (hp(x \<mapsto> \<lparr>x_o = ob, x_m = (\<lambda>ob (a1, a2, a3). m ob a1 a2 a3), x_args = (a1, a2, a3)\<rparr>), r))"

section \<open>The contract\<close>

text \<open>What every template promises: the thread it starts makes one call, that of the method on the object, whatever becomes of
  the rest of the heap, and the carrier of the call is gone when it has been made; without a thread the process ends.\<close>

locale thread_starter =
  fixes start :: "int \<Rightarrow> nat \<Rightarrow> int \<Rightarrow> nat \<Rightarrow> 'o \<Rightarrow> bool \<Rightarrow> ('o \<Rightarrow> 'a \<Rightarrow> 's \<Rightarrow> 's res) \<Rightarrow> 'a \<Rightarrow> (nat \<rightharpoonup> ('o, 'a, 's) XXX) \<Rightarrow>
     ((nat \<rightharpoonup> ('o, 'a, 's) XXX) \<times> nat option) res"
  assumes start_law: "\<exists>hp1. start 0 th 0 x ob detach m a hp = Inr (hp1, Some th) \<and> (\<forall>y. y \<noteq> x \<longrightarrow> hp1 y = hp y) \<and>
      (\<forall>hp2 s. hp2 x = hp1 x \<longrightarrow> yyy 0 0 x (hp2, s) = bindE (m ob a s) (\<lambda>s. Inr (hp2(x := None), s)))"
    and exit_law: "err \<noteq> 0 \<Longrightarrow> \<exists>hp1. start err th detached x ob detach m a hp = Inr (hp1, None)"
begin

text \<open>Two threads, run in the other order: each makes its own call, and both carriers are gone.\<close>

lemma two_threads:
  assumes "x \<noteq> y" "m' ob' a' s = Inr s'" "m ob a s' = Inr s''"
  shows "\<exists>hp1 hp2 hp3. start 0 th 0 x ob detach m a hp = Inr (hp1, Some th) \<and>
    start 0 th' 0 y ob' detach' m' a' hp1 = Inr (hp2, Some th') \<and> yyy 0 0 y (hp2, s) = Inr (hp3, s') \<and>
    yyy 0 0 x (hp3, s') = Inr (hp3(x := None), s'') \<and> (\<forall>z. z \<noteq> x \<and> z \<noteq> y \<longrightarrow> hp3 z = hp z) \<and> hp3 y = None"
proof -
  obtain hp1 where 1: "start 0 th 0 x ob detach m a hp = Inr (hp1, Some th)" "\<forall>z. z \<noteq> x \<longrightarrow> hp1 z = hp z"
    "\<And>hp2 s. hp2 x = hp1 x \<Longrightarrow> yyy 0 0 x (hp2, s) = bindE (m ob a s) (\<lambda>s. Inr (hp2(x := None), s))"
    using start_law [of th x ob detach m a hp] by blast
  obtain hp2 where 2: "start 0 th' 0 y ob' detach' m' a' hp1 = Inr (hp2, Some th')" "\<forall>z. z \<noteq> y \<longrightarrow> hp2 z = hp1 z"
    "\<And>hp3 s. hp3 y = hp2 y \<Longrightarrow> yyy 0 0 y (hp3, s) = bindE (m' ob' a' s) (\<lambda>s. Inr (hp3(y := None), s))"
    using start_law [of th' y ob' detach' m' a' hp1] by blast
  have "yyy 0 0 y (hp2, s) = Inr (hp2(y := None), s')" using 2(3) [of hp2] assms(2) by simp
  moreover have "yyy 0 0 x (hp2(y := None), s') = Inr (hp2(y := None, x := None), s'')"
    using 1(3) [of "hp2(y := None)"] 2(2) assms(1,3) by simp
  ultimately show ?thesis using 1(1,2) 2(1,2) by (intro exI [of _ hp1] exI [of _ hp2] exI [of _ "hp2(y := None)"]) auto
qed

end

text \<open>The carrier of a call that was made is not used again.\<close>

lemma yyy_once: "yyy state type x (hp, s) = Inr (hp', s') \<Longrightarrow> hp' x = None \<and> yyy state type x (hp', s') = Inl NullDeref"
  by (auto simp: yyy_def fault_simps split: option.splits)

lemmas thread_defs = method_thread_parent_def method_thread_child_def yyy_def

interpretation mt0: thread_starter "\<lambda>err th detached x ob detach m a. method_thread0 err th detached x ob detach (\<lambda>ob. m ob ())"
  by unfold_locales (auto simp: method_thread0_def thread_defs)

interpretation mt1: thread_starter method_thread1
  by unfold_locales (auto simp: method_thread1_def thread_defs)

interpretation mt2: thread_starter
  "\<lambda>err th detached x ob detach m (a1, a2). method_thread2 err th detached x ob detach (\<lambda>ob a1 a2. m ob (a1, a2)) a1 a2"
  by unfold_locales (auto simp: method_thread2_def thread_defs split: prod.split)

interpretation mt3: thread_starter
  "\<lambda>err th detached x ob detach m (a1, a2, a3). method_thread3 err th detached x ob detach (\<lambda>ob a1 a2 a3. m ob (a1, a2, a3)) a1 a2 a3"
  by unfold_locales (auto simp: method_thread3_def thread_defs split: prod.split)

end
