(* ===== verification/Spec2Isabelle.thy ===== *)
theory Spec2Isabelle
  imports File_Properties Rpc_Properties System_Properties Thread_Pool Poll_Manager Listener Remote_Extent Rpc_Lossy Sockaddr
    Method_Thread
begin

text \<open>
  Verification of a small block-based file system, the extent service on top of it, and the RPC library through
  which the service is reached.

  \<^bold>\<open>The program.\<close> \<open>inode_manager.cc\<close> keeps files on a simulated disk: a bitmap of blocks, inodes with direct blocks
  and one indirect block, and the operations that allocate, read, write and remove files. \<open>extent_server.cc\<close> turns them
  into \<open>create\<close>, \<open>put\<close>, \<open>get\<close>, \<open>getattr\<close> and \<open>remove\<close>; \<open>extent_client.cc\<close> calls these directly and
  \<open>lab1_tester.cc\<close> exercises them. \<open>extent_smain.cc\<close> offers the same methods over the RPC library of \<open>rpc/\<close>: \<open>marshall.h\<close>
  writes and reads values, \<open>connection.cc\<close> frames packets on a byte stream, \<open>pollmgr.cc\<close> tells connections when they can
  read or write, \<open>rpc.cc\<close> holds the two ends: \<open>rpcc\<close> numbers calls, retries them and matches replies, \<open>rpcs\<close> recognises
  duplicates, runs handlers in the thread pool of \<open>thr_pool.cc\<close> (over the queue of \<open>fifo.h\<close>) and replays replies;
  \<open>tcpsconn\<close> accepts connections and collects dead ones; \<open>method_thread.h\<close> starts threads. \<open>rpctest.cc\<close> tests the library.

  \<^bold>\<open>Theories.\<close>
  \<^item> \<open>Prelude\<close>: widths, faults and their sequencing (\<open>bindE\<close>, \<open>VERIFY\<close>), shared lemmas.
  \<^item> \<open>Bitmap\<close>, \<open>Block_Layer\<close>, \<open>Inode_Layout\<close>, \<open>Inode_Manager\<close>: classes \<open>Bitmap\<close>, \<open>disk\<close>, \<open>block_manager\<close> and
    \<open>inode_manager\<close>, byte for byte on the disk image.
  \<^item> \<open>File_Read\<close>, \<open>File_Blocks\<close>, \<open>File_Write\<close>, \<open>File_Update\<close>, \<open>File_System\<close>, \<open>File_Limits\<close>: the invariant of the file
    system (bitmap, inodes and blocks agree, no block has two owners) and the lemmas that the operations keep it.
  \<^item> \<open>Extent_Server\<close>, \<open>Extent_Trace\<close>, \<open>Lab1_Tester\<close>: the service, sequences of requests against an abstract map
    from numbers to contents, and the test program.
  \<^item> \<open>File_Properties\<close>: the properties of the storage side. Every operation refines the abstract map of files;
    allocation, reading and writing are exact; the out-of-space and oversize behaviour is as the code has it.
  \<^item> \<open>Marshall\<close>, \<open>Codec\<close>, \<open>Codecs\<close>: the growing buffer, readers and writers; the locale of a codec (what is written is
    read back and the rest left alone) with its interpretations for every operator and container.
  \<^item> \<open>Timespec\<close>, \<open>Xid_Window\<close>, \<open>Reply_Window\<close>: deadline arithmetic, the numbers a client acknowledges, and the
    server's duplicate filter, whose contract is the locale \<open>request_filter\<close>.
  \<^item> \<open>Connection\<close>: partial reads and writes, reference counts, the dead flag.
  \<^item> \<open>Rpc_Packet\<close>, \<open>Rpc_Server\<close>, \<open>Extent_Rpc\<close>, \<open>Rpc_Properties\<close>: packets, \<open>rpcs\<close> with the whole of \<open>dispatch\<close>, the extent
    handlers registered with it, and what a request packet does: each is executed once, copies get the same bytes.
  \<^item> \<open>Rpc_Client\<close>, \<open>Rpc_System\<close>, \<open>System_Properties\<close>: \<open>rpcc\<close>, and any number of clients with one server over a network
    that loses, repeats and reorders packets, as a step relation whose steps are the critical sections of the code.
    In every reachable state no call has been executed twice, and a finished call returned the reply of its own
    execution; \<open>call1\<close> ends.
  \<^item> \<open>Rpc_Call\<close>: whole calls, from the arguments of a \<open>call\<close> template to its result, by composing \<open>call1\<close>, \<open>connection\<close>,
    \<open>got_pdu\<close> and \<open>dispatch\<close> over a connection that works: a remote call is the call of the registered method, whatever the
    other clients of the server do between calls; \<open>bind\<close>, a server that cannot be reached, and a server that was restarted.
  \<^item> \<open>Remote_Extent\<close>: the whole stack. Clients that bind to \<open>extent_smain\<close> and call it through the RPC library get the
    replies of the abstract file system, and the disk holds its files.
  \<^item> \<open>Rpc_Retry\<close>: the same calls over connections that break before the request or the reply has arrived: the retry loop of
    \<open>call1\<close> transmits on new connections, the server replays the recorded reply, and the registered method runs once. In lossy
    mode the client sends old requests again on purpose; the server refuses them and the client ignores the refusal.
  \<^item> \<open>Rpc_Test\<close>, \<open>Rpc_Lossy\<close>: \<open>rpctest.cc\<close>. Its checks do not fail, for all schedules of its threads and all random numbers, and in
    \<open>lossy_test\<close> for all losses that leave every call answered in the end.
  \<^item> \<open>Sockaddr\<close>, \<open>Method_Thread\<close>: addresses in text and their order; the templates that start threads, under one contract.
  \<^item> \<open>Thread_Pool\<close>: \<open>fifo\<close> with the locale \<open>bounded_queue\<close>, \<open>ThrPool\<close>, and its shutdown as a step relation that ends with every
    job run.
  \<^item> \<open>Poll_Manager\<close>: \<open>PollMgr\<close> over the interface \<open>aio_mgr\<close> (a locale), interpreted for \<open>SelectAIO\<close> and \<open>EPollAIO\<close>; the
    polling thread against threads that remove descriptors.
  \<^item> \<open>Listener\<close>: \<open>tcpsconn\<close> and the destructor of \<open>rpcs\<close>.

  \<^bold>\<open>Modelling.\<close> Machine integers keep their width where the code relies on it; a failed \<open>VERIFY\<close>, an access out of bounds,
  a null pointer, an uninitialised read, a signed overflow or an uncaught exception is a value of type \<open>fault\<close>, and each property says that
  none occurs or which one does. Mutexes are modelled by the steps they make atomic; waiting on a condition is a step that is
  not enabled, so spurious wake-ups are not modelled. What the operating system returns (bytes read
  and written, clock readings, ready descriptors, random nonces, fresh memory) is an argument.

  \<^bold>\<open>Bounds.\<close> Packets are below \<open>2 ^ 29\<close> bytes where a property needs the buffer arithmetic not to overflow. \<open>call1_loop\<close>
  consumes one clock reading per round; seven rounds suffice because the waiting time doubles from one second up to
  the limit of 120 seconds. Client nonces are different, and a client makes fewer than \<open>2 ^ 32\<close> calls (\<open>2 ^ 31\<close> in
  lossy mode, which compares their numbers as signed integers), as the protocol relies on. Loops of the file system are recursive over block lists and need no fuel.

  \<^bold>\<open>Not modelled.\<close> Threads of the test program are interleaved call by call. \<open>gettime.cc\<close> is
  compiled on Apple systems only; \<open>rpc/jsl_log\<close> and other diagnostic output has no effect on the state; \<open>rpc/slock.h\<close> wraps a
  mutex, whose critical sections are the atomic steps of the model.
\<close>

end
